(* ===== verification/Go_Prelude.thy ===== *)
theory Go_Prelude
  imports Main
begin

text \<open>
  What the components share of Go itself: the run-time panics and fatal exits as a sum type with
  its sequencing operator, 64-bit signed arithmetic written out over \<open>int\<close>, slice indexing with
  its range check, truncated remainder, decimal formatting and \<open>strconv.Atoi\<close>,
  \<open>strings.Split\<close>, and time differences that saturate. The named collections
  \<open>go_simps\<close> (unfolding of the sequencing and indexing operators) and \<open>go_intros\<close> are what the
  component proofs pass to the simplifier.
\<close>

named_theorems go_simps
named_theorems go_intros

subsection \<open>Panics, fatal exits and sequencing\<close>

datatype panic =
    IndexOutOfRange
  | DivideByZero
  | NilDereference
  | SendOnClosedChannel
  | MakeNegativeSize
  | PanicValue string
  | FatalExit string

type_synonym 'a go = "panic + 'a"

definition go_bind :: "'a go \<Rightarrow> ('a \<Rightarrow> 'b go) \<Rightarrow> 'b go" where
  "go_bind m f = (case m of Inl p \<Rightarrow> Inl p | Inr a \<Rightarrow> f a)"

lemma go_bind_Inl [simp, go_simps]: "go_bind (Inl p) f = Inl p"
  by (simp add: go_bind_def)

lemma go_bind_Inr [simp, go_simps]: "go_bind (Inr a) f = f a"
  by (simp add: go_bind_def)

lemma go_bind_Inr_conv: "go_bind m f = Inr b \<longleftrightarrow> (\<exists>a. m = Inr a \<and> f a = Inr b)"
  by (cases m) simp_all

lemma go_bind_assoc: "go_bind (go_bind m f) g = go_bind m (\<lambda>a. go_bind (f a) g)"
  by (cases m) simp_all

text \<open>A call per element, in order, that stops at the first panic.\<close>

fun go_foldl :: "('s \<Rightarrow> 'e \<Rightarrow> 's go) \<Rightarrow> 's \<Rightarrow> 'e list \<Rightarrow> 's go" where
  "go_foldl f s [] = Inr s"
| "go_foldl f s (x # xs) = go_bind (f s x) (\<lambda>t. go_foldl f t xs)"

lemma go_foldl_append: "go_foldl f s (xs @ ys) = go_bind (go_foldl f s xs) (\<lambda>t. go_foldl f t ys)"
  by (induction xs arbitrary: s) (simp_all add: go_bind_assoc)

lemma go_foldl_total:
  assumes "I s"
    and "\<And>s x. I s \<Longrightarrow> x \<in> set xs \<Longrightarrow> \<exists>t. f s x = Inr t \<and> I t"
  shows "\<exists>t. go_foldl f s xs = Inr t \<and> I t"
  using assms
proof (induction xs arbitrary: s)
  case (Cons x xs)
  obtain t where t: "f s x = Inr t" "I t" using Cons.prems by (meson list.set_intros(1))
  obtain u where "go_foldl f t xs = Inr u" "I u"
    using Cons.IH [OF t(2)] Cons.prems(2) by (meson list.set_intros(2))
  with t show ?case by simp
qed simp

subsection \<open>The Go type \<open>int\<close>: 64-bit two's complement\<close>

definition wrap64 :: "int \<Rightarrow> int" where
  "wrap64 x = (x + 2 ^ 63) mod 2 ^ 64 - 2 ^ 63"

definition in_int64 :: "int \<Rightarrow> bool" where
  "in_int64 x \<longleftrightarrow> - (2 ^ 63) \<le> x \<and> x < 2 ^ 63"

lemma wrap64_id [simp]: "in_int64 x \<Longrightarrow> wrap64 x = x"
  by (simp add: wrap64_def in_int64_def)

lemma in_int64_wrap64 [simp, intro]: "in_int64 (wrap64 x)"
proof -
  have "0 \<le> (x + 2 ^ 63) mod 2 ^ 64" "(x + 2 ^ 63) mod 2 ^ 64 < (2 ^ 64 :: int)"
    by simp_all
  then show ?thesis by (simp add: wrap64_def in_int64_def)
qed

lemma wrap64_wrap64_add [simp]: "wrap64 (wrap64 x + y) = wrap64 (x + y)"
proof -
  have "(wrap64 x + y + 2 ^ 63) mod 2 ^ 64 = ((x + 2 ^ 63) mod 2 ^ 64 + y) mod 2 ^ 64"
    by (simp add: wrap64_def)
  also have "\<dots> = (x + 2 ^ 63 + y) mod 2 ^ 64" by (rule mod_add_left_eq)
  finally have "(wrap64 x + y + 2 ^ 63) mod 2 ^ 64 = (x + y + 2 ^ 63) mod 2 ^ 64"
    by (simp add: algebra_simps)
  then show ?thesis by (simp add: wrap64_def)
qed

lemma wrap64_wrap64_diff [simp]: "wrap64 (wrap64 x - y) = wrap64 (x - y)"
  using wrap64_wrap64_add [of x "- y"] by simp

text \<open>Go's \<open>%\<close> truncates towards zero: the remainder has the sign of the dividend.\<close>

definition go_rem :: "int \<Rightarrow> int \<Rightarrow> int go" where
  "go_rem a b = (if b = 0 then Inl DivideByZero else Inr (sgn a * (\<bar>a\<bar> mod \<bar>b\<bar>)))"

lemma go_rem_nonneg [simp]: "0 \<le> a \<Longrightarrow> 0 < b \<Longrightarrow> go_rem a b = Inr (a mod b)"
  by (cases "a = 0") (simp_all add: go_rem_def)

lemma go_rem_bounds:
  assumes "go_rem a b = Inr r" and "0 \<le> a" and "0 < b"
  shows "0 \<le> r \<and> r < b"
  using assms by auto

subsection \<open>Slices\<close>

definition go_index :: "'a list \<Rightarrow> int \<Rightarrow> 'a go" where
  "go_index xs i =
     (if 0 \<le> i \<and> i < int (length xs) then Inr (xs ! nat i) else Inl IndexOutOfRange)"

definition go_update :: "'a list \<Rightarrow> int \<Rightarrow> 'a \<Rightarrow> 'a list go" where
  "go_update xs i v =
     (if 0 \<le> i \<and> i < int (length xs) then Inr (xs[nat i := v]) else Inl IndexOutOfRange)"

definition go_make :: "int \<Rightarrow> 'a \<Rightarrow> 'a list go" where
  "go_make n z = (if n < 0 then Inl MakeNegativeSize else Inr (replicate (nat n) z))"

lemma go_index_Inr_conv:
  "go_index xs i = Inr v \<longleftrightarrow> 0 \<le> i \<and> i < int (length xs) \<and> v = xs ! nat i"
  by (auto simp: go_index_def)

lemma go_update_Inr_conv:
  "go_update xs i v = Inr ys \<longleftrightarrow> 0 \<le> i \<and> i < int (length xs) \<and> ys = xs[nat i := v]"
  by (auto simp: go_update_def)

lemmas go_slice_convs = go_index_Inr_conv go_update_Inr_conv

lemma go_update_length: "go_update xs i v = Inr ys \<Longrightarrow> length ys = length xs"
  by (simp add: go_update_Inr_conv)

lemma list_all_update: "list_all P xs \<Longrightarrow> P v \<Longrightarrow> list_all P (xs[i := v])"
  by (auto simp: list_all_iff dest!: set_update_subset_insert [THEN subsetD])

lemma of_char_int_bounds: "0 \<le> (of_char c :: int)" "(of_char c :: int) < 256"
proof -
  have "of_char c = (of_char c :: int) mod 256" by simp
  then show "0 \<le> (of_char c :: int)" "(of_char c :: int) < 256"
    by (metis pos_mod_sign zero_less_numeral, metis pos_mod_bound zero_less_numeral)
qed

subsection \<open>Decimal numbers: \<open>%d\<close> and \<open>strconv.Atoi\<close>\<close>

definition digit_char :: "nat \<Rightarrow> char" where
  "digit_char d = char_of (48 + d)"

fun nat_digits :: "nat \<Rightarrow> string" where
  "nat_digits n = (if n < 10 then [digit_char n] else nat_digits (n div 10) @ [digit_char (n mod 10)])"

declare nat_digits.simps [simp del]

definition show_int :: "int \<Rightarrow> string" where
  "show_int i = (if i < 0 then CHR ''-'' # nat_digits (nat (- i)) else nat_digits (nat i))"

definition is_digit :: "char \<Rightarrow> bool" where
  "is_digit c \<longleftrightarrow> 48 \<le> (of_char c :: nat) \<and> (of_char c :: nat) \<le> 57"

definition digit_val :: "char \<Rightarrow> nat" where
  "digit_val c = of_char c - 48"

definition digits_val :: "string \<Rightarrow> nat" where
  "digits_val s = foldl (\<lambda>a c. a * 10 + digit_val c) 0 s"

lemma is_digit_digit_char [simp]: "d < 10 \<Longrightarrow> is_digit (digit_char d)"
  by (simp add: is_digit_def digit_char_def)

lemma digit_val_digit_char [simp]: "d < 10 \<Longrightarrow> digit_val (digit_char d) = d"
  by (simp add: digit_val_def digit_char_def)

lemma digits_val_snoc [simp]: "digits_val (s @ [c]) = digits_val s * 10 + digit_val c"
  by (simp add: digits_val_def)

lemma nat_digits_not_Nil [simp]: "nat_digits n \<noteq> []"
  by (subst nat_digits.simps) simp

lemma nat_digits_digits: "list_all is_digit (nat_digits n)"
proof (induction n rule: nat_digits.induct)
  case (1 n)
  then show ?case by (subst nat_digits.simps) simp
qed

lemma digits_val_nat_digits [simp]: "digits_val (nat_digits n) = n"
proof (induction n rule: nat_digits.induct)
  case (1 n)
  then show ?case
    by (subst nat_digits.simps) (auto simp: digits_val_def [of "[digit_char n]"])
qed

text \<open>
  \<open>strconv.Atoi\<close>: an optional sign followed by at least one digit and nothing else, within the
  range of \<open>int\<close>. On a syntax error the returned number is 0; on a range error it is the nearest
  bound (the repository's callers drop the error and use the number).
\<close>

definition atoi_body :: "string \<Rightarrow> string" where
  "atoi_body s = (case s of [] \<Rightarrow> [] | c # cs \<Rightarrow> if c = CHR ''-'' \<or> c = CHR ''+'' then cs else s)"

definition atoi_neg :: "string \<Rightarrow> bool" where
  "atoi_neg s \<longleftrightarrow> (case s of [] \<Rightarrow> False | c # _ \<Rightarrow> c = CHR ''-'')"

definition atoi :: "string \<Rightarrow> int \<times> bool" where
  "atoi s =
     (let b = atoi_body s in
      if b = [] \<or> \<not> list_all is_digit b then (0, False)
      else let v = (if atoi_neg s then - int (digits_val b) else int (digits_val b)) in
        if v < - (2 ^ 63) then (- (2 ^ 63), False)
        else if 2 ^ 63 \<le> v then (2 ^ 63 - 1, False)
        else (v, True))"

lemma nat_digits_hd_digit: "is_digit (hd (nat_digits n))"
  using nat_digits_digits [of n] by (cases "nat_digits n") auto

lemma not_is_digit_sign: "\<not> is_digit CHR ''-''" "\<not> is_digit CHR ''+''"
  by (simp_all add: is_digit_def)

lemma atoi_nat_digits:
  assumes "int n < 2 ^ 63"
  shows "atoi (nat_digits n) = (int n, True)"
proof -
  obtain c cs where c: "nat_digits n = c # cs" by (cases "nat_digits n") auto
  have "is_digit c" using nat_digits_hd_digit [of n] c by simp
  then have "c \<noteq> CHR ''-''" "c \<noteq> CHR ''+''" using not_is_digit_sign by auto
  then have "atoi_body (nat_digits n) = nat_digits n" "\<not> atoi_neg (nat_digits n)"
    by (simp_all add: atoi_body_def atoi_neg_def c)
  with assms show ?thesis by (simp add: atoi_def Let_def nat_digits_digits)
qed

lemma atoi_show_int:
  assumes "in_int64 i"
  shows "atoi (show_int i) = (i, True)"
proof (cases "i < 0")
  case True
  have "atoi_body (show_int i) = nat_digits (nat (- i))" "atoi_neg (show_int i)"
    using True by (simp_all add: show_int_def atoi_body_def atoi_neg_def)
  with True assms show ?thesis by (simp add: atoi_def Let_def nat_digits_digits in_int64_def)
next
  case False
  with assms show ?thesis
    using atoi_nat_digits [of "nat i"] by (simp add: show_int_def in_int64_def)
qed

lemma show_int_set: "c \<in> set (show_int i) \<Longrightarrow> is_digit c \<or> c = CHR ''-''"
  using nat_digits_digits [of "nat i"] nat_digits_digits [of "nat (- i)"]
  by (auto simp: show_int_def list_all_iff split: if_splits)

subsection \<open>\<open>strings.Split\<close> at a one-byte separator\<close>

fun split_at :: "char \<Rightarrow> string \<Rightarrow> string list" where
  "split_at sep [] = [[]]"
| "split_at sep (c # cs) =
     (if c = sep then [] # split_at sep cs
      else (case split_at sep cs of [] \<Rightarrow> [[c]] | w # ws \<Rightarrow> (c # w) # ws))"

lemma split_at_not_Nil [simp]: "split_at sep s \<noteq> []"
  by (induction s) (auto split: list.splits)

lemma split_at_none: "sep \<notin> set s \<Longrightarrow> split_at sep s = [s]"
  by (induction s) auto

lemma split_at_first: "sep \<notin> set s \<Longrightarrow> split_at sep (s @ sep # t) = s # split_at sep t"
  by (induction s) auto

lemma length_split_at: "length (split_at sep s) = Suc (count_list s sep)"
  by (induction s) (auto split: list.splits)

subsection \<open>Times and durations\<close>

text \<open>
  A \<open>time.Time\<close> is its nanosecond count; a \<open>time.Duration\<close> is a 64-bit nanosecond count, and
  \<open>Time.Sub\<close> saturates at its bounds instead of wrapping.
\<close>

type_synonym time = int
type_synonym duration = int

definition second :: duration where
  "second = 1000000000"

definition time_sub :: "time \<Rightarrow> time \<Rightarrow> duration" where
  "time_sub t u = max (- (2 ^ 63)) (min (2 ^ 63 - 1) (t - u))"

lemma in_int64_time_sub [simp, intro]: "in_int64 (time_sub t u)"
  by (auto simp: time_sub_def in_int64_def)

lemma time_sub_le_iff: "0 \<le> d \<Longrightarrow> d < 2 ^ 63 - 1 \<Longrightarrow> time_sub t u \<le> d \<longleftrightarrow> t - u \<le> d"
  by (auto simp: time_sub_def)

end
