(* ===== verification/Bloom_Filter.thy ===== *)
theory Bloom_Filter
  imports Go_Prelude "HOL-Library.Multiset"
begin

text \<open>
  \<open>bloomFilter/main.go\<close>: the filter's record, its constructor, the additive hash, \<open>add\<close>,
  \<open>contains\<close> and the demonstration in \<open>main\<close>. Hash sums are 64-bit; a remainder by zero, a
  negative size and an index out of range are the panics Go raises. The locale
  \<open>approximate_set\<close> is what a caller of a set without false negatives relies on; it is interpreted
  on \<open>add\<close> and \<open>contains\<close>. Besides, the exact answer of \<open>contains\<close> is characterised, which gives
  the false positives too.
\<close>

record bloomFilter =
  nHashFunction :: int
  bf_size :: int
  bitArray :: "bool list"

definition newBloomFilter :: "int \<Rightarrow> int \<Rightarrow> bloomFilter go" where
  "newBloomFilter sz n =
     go_bind (go_make sz False)
       (\<lambda>bits. Inr \<lparr>nHashFunction = n, bf_size = sz, bitArray = bits\<rparr>)"

text \<open>The loop of \<open>hash\<close> adds the bytes one by one.\<close>

fun hash_loop :: "int \<Rightarrow> string \<Rightarrow> int" where
  "hash_loop acc [] = acc"
| "hash_loop acc (c # cs) = hash_loop (wrap64 (acc + of_char c)) cs"

definition hash :: "string \<Rightarrow> int \<Rightarrow> int" where
  "hash item i = wrap64 (hash_loop 0 item + i)"

definition add_one :: "bloomFilter \<Rightarrow> string \<Rightarrow> int \<Rightarrow> bloomFilter go" where
  "add_one bf item i =
     go_bind (go_rem (hash item i) (bf_size bf)) (\<lambda>k.
     go_bind (go_update (bitArray bf) k True) (\<lambda>bits. Inr (bf\<lparr>bitArray := bits\<rparr>)))"

text \<open>
  The loops \<open>for i := 0; i < bf.nHashFunction; i++\<close> run over the indices \<open>[0..n - 1]\<close>;
  \<open>contains\<close> returns at the first clear bit.
\<close>

definition bf_add :: "bloomFilter \<Rightarrow> string \<Rightarrow> bloomFilter go" where
  "bf_add bf item = go_foldl (\<lambda>b. add_one b item) bf [0..nHashFunction bf - 1]"

fun contains_loop :: "bloomFilter \<Rightarrow> string \<Rightarrow> int list \<Rightarrow> bool go" where
  "contains_loop bf item [] = Inr True"
| "contains_loop bf item (i # is) =
     go_bind (go_rem (hash item i) (bf_size bf)) (\<lambda>k.
     go_bind (go_index (bitArray bf) k) (\<lambda>b.
       if \<not> b then Inr False else contains_loop bf item is))"

definition bf_contains :: "bloomFilter \<Rightarrow> string \<Rightarrow> bool go" where
  "bf_contains bf item = contains_loop bf item [0..nHashFunction bf - 1]"

text \<open>\<open>main\<close> adds five words and reports, for two lists of words, what \<open>contains\<close> answers.\<close>

fun report :: "bloomFilter \<Rightarrow> string list \<Rightarrow> (string \<times> bool) list go" where
  "report bf [] = Inr []"
| "report bf (w # ws) =
     go_bind (bf_contains bf w) (\<lambda>b. go_bind (report bf ws) (\<lambda>r. Inr ((w, b) # r)))"

definition bloom_main :: "((string \<times> bool) list \<times> (string \<times> bool) list) go" where
  "bloom_main =
     go_bind (newBloomFilter 100 3) (\<lambda>bf.
     go_bind (go_foldl bf_add bf [''hello'', ''vijay'', ''suriya'', ''kabilan'', ''vimal'']) (\<lambda>bf.
     go_bind (report bf [''hello'', ''vijay'', ''suriya'', ''kabilan'', ''vimal'']) (\<lambda>r1.
     go_bind (report bf [''vimalan'', ''saraseswari'', ''dhina'', ''sun'', ''apple'', ''ballss''])
       (\<lambda>r2. Inr (r1, r2)))))"

subsection \<open>Well-formedness\<close>

text \<open>What \<open>newBloomFilter\<close> establishes and \<open>add\<close> keeps.\<close>

definition bf_wf :: "bloomFilter \<Rightarrow> bool" where
  "bf_wf bf \<longleftrightarrow> int (length (bitArray bf)) = bf_size bf"

lemma newBloomFilter_wf: "newBloomFilter sz n = Inr bf \<Longrightarrow>
    bf_wf bf \<and> bf_size bf = sz \<and> nHashFunction bf = n \<and> bitArray bf = replicate (nat sz) False"
  by (auto simp: newBloomFilter_def go_make_def bf_wf_def split: if_splits)

lemma add_one_Inr_conv:
  "add_one bf item i = Inr bf' \<longleftrightarrow>
    (\<exists>k. go_rem (hash item i) (bf_size bf) = Inr k \<and> 0 \<le> k \<and> k < int (length (bitArray bf)) \<and>
         bf' = bf\<lparr>bitArray := (bitArray bf)[nat k := True]\<rparr>)"
  by (auto simp: add_one_def go_bind_Inr_conv go_slice_convs)

text \<open>The shape of a filter is fixed: only bits change, and they are only ever set.\<close>

definition grown :: "bloomFilter \<Rightarrow> bloomFilter \<Rightarrow> bool" where
  "grown bf bf' \<longleftrightarrow>
     nHashFunction bf' = nHashFunction bf \<and> bf_size bf' = bf_size bf \<and>
     length (bitArray bf') = length (bitArray bf) \<and>
     (\<forall>k < length (bitArray bf). bitArray bf ! k \<longrightarrow> bitArray bf' ! k)"

lemma grown_refl [simp]: "grown bf bf"
  by (simp add: grown_def)

lemma grown_trans: "grown a b \<Longrightarrow> grown b c \<Longrightarrow> grown a c"
  by (simp add: grown_def)

lemma add_one_grown: "add_one bf item i = Inr bf' \<Longrightarrow> grown bf bf'"
  by (auto simp: add_one_Inr_conv grown_def nth_list_update)

lemma add_many_grown: "go_foldl (\<lambda>b. add_one b item) bf is = Inr bf' \<Longrightarrow> grown bf bf'"
  by (induction "is" arbitrary: bf)
    (auto simp: go_bind_Inr_conv intro: grown_trans dest: add_one_grown)

lemma bf_add_grown: "bf_add bf item = Inr bf' \<Longrightarrow> grown bf bf'"
  by (auto simp: bf_add_def dest: add_many_grown)

subsection \<open>The answer of \<open>contains\<close>\<close>

definition bit_set :: "bloomFilter \<Rightarrow> string \<Rightarrow> int \<Rightarrow> bool" where
  "bit_set bf item i \<longleftrightarrow>
     (case go_rem (hash item i) (bf_size bf) of
        Inl _ \<Rightarrow> False
      | Inr k \<Rightarrow> go_index (bitArray bf) k = Inr True)"

lemma contains_loop_True: "contains_loop bf item is = Inr True \<longleftrightarrow> list_all (bit_set bf item) is"
  by (induction "is") (auto simp: bit_set_def go_bind_def split: sum.splits)

lemma bit_set_grown: "grown bf bf' \<Longrightarrow> bit_set bf item i \<Longrightarrow> bit_set bf' item i"
  by (auto simp: bit_set_def grown_def go_index_Inr_conv split: sum.splits)

lemma add_one_bit_set: "add_one bf item i = Inr bf' \<Longrightarrow> bit_set bf' item i"
  by (auto simp: add_one_Inr_conv bit_set_def go_index_Inr_conv)

lemma add_many_bit_set:
  "go_foldl (\<lambda>b. add_one b item) bf is = Inr bf' \<Longrightarrow> list_all (bit_set bf' item) is"
proof (induction "is" arbitrary: bf)
  case (Cons i "is")
  then obtain b where b: "add_one bf item i = Inr b"
      "go_foldl (\<lambda>b. add_one b item) b is = Inr bf'"
    by (auto simp: go_bind_Inr_conv)
  have "bit_set bf' item i"
    using bit_set_grown [OF add_many_grown [OF b(2)]] add_one_bit_set [OF b(1)] .
  with Cons.IH [OF b(2)] show ?case by simp
qed simp

lemma bf_contains_grown:
  assumes "grown bf bf'" and "bf_contains bf item = Inr True"
  shows "bf_contains bf' item = Inr True"
proof -
  have "nHashFunction bf' = nHashFunction bf" using assms(1) by (simp add: grown_def)
  with assms show ?thesis
    by (auto simp: bf_contains_def contains_loop_True list_all_iff intro: bit_set_grown)
qed

lemma bf_contains_added:
  assumes "bf_add bf item = Inr bf'"
  shows "bf_contains bf' item = Inr True"
proof -
  have "nHashFunction bf' = nHashFunction bf" using bf_add_grown [OF assms] by (simp add: grown_def)
  with assms show ?thesis
    by (simp add: bf_contains_def bf_add_def contains_loop_True add_many_bit_set)
qed

subsection \<open>The interface: a set without false negatives\<close>

locale approximate_set =
  fixes insert_elem :: "'s \<Rightarrow> 'e \<Rightarrow> 's go"
    and has_elem :: "'s \<Rightarrow> 'e \<Rightarrow> bool go"
  assumes has_inserted: "insert_elem s x = Inr t \<Longrightarrow> has_elem t x = Inr True"
    and has_kept: "insert_elem s y = Inr t \<Longrightarrow> has_elem s x = Inr True \<Longrightarrow> has_elem t x = Inr True"
begin

lemma insert_all_kept:
  "go_foldl insert_elem s ys = Inr t \<Longrightarrow> has_elem s x = Inr True \<Longrightarrow> has_elem t x = Inr True"
  by (induction ys arbitrary: s) (auto simp: go_bind_Inr_conv intro: has_kept)

lemma insert_all_has:
  "go_foldl insert_elem s xs = Inr t \<Longrightarrow> x \<in> set xs \<Longrightarrow> has_elem t x = Inr True"
  by (induction xs arbitrary: s) (auto simp: go_bind_Inr_conv intro: insert_all_kept has_inserted)

end

interpretation bloom: approximate_set bf_add bf_contains
  by unfold_locales (auto intro: bf_contains_added bf_contains_grown bf_add_grown)

subsection \<open>Abstraction to the set of marked positions\<close>

definition byte_sum :: "string \<Rightarrow> int" where
  "byte_sum item = (\<Sum>c \<leftarrow> item. of_char c)"

definition slots :: "int \<Rightarrow> int \<Rightarrow> string \<Rightarrow> int set" where
  "slots sz n item = (\<lambda>i. (byte_sum item + i) mod sz) ` {0..<n}"

definition marks :: "bloomFilter \<Rightarrow> int set" where
  "marks bf = {k. go_index (bitArray bf) k = Inr True}"

text \<open>Items whose sums stay below \<open>2^63\<close>: with at most 255 per byte a length bound suffices.\<close>

definition short_item :: "int \<Rightarrow> string \<Rightarrow> bool" where
  "short_item n item \<longleftrightarrow> 255 * int (length item) + n < 2 ^ 63"

lemma byte_sum_simps [simp]: "byte_sum [] = 0" "byte_sum (c # cs) = of_char c + byte_sum cs"
  by (simp_all add: byte_sum_def)

lemma byte_sum_bounds: "0 \<le> byte_sum item \<and> byte_sum item \<le> 255 * int (length item)"
proof (induction item)
  case (Cons c cs)
  have "(of_char c :: int) \<le> 255 \<and> 0 \<le> (of_char c :: int)"
    using of_char_int_bounds [of c] by simp
  with Cons show ?case by simp
qed simp

lemma hash_loop_eq: "in_int64 acc \<Longrightarrow> hash_loop acc item = wrap64 (acc + byte_sum item)"
  by (induction item arbitrary: acc) (simp_all add: add.assoc)

lemma hash_eq: "hash item i = wrap64 (byte_sum item + i)"
  by (simp add: hash_def hash_loop_eq in_int64_def)

lemma go_rem_hash:
  assumes "short_item n item" and "0 \<le> i" and "i < n" and "0 < sz"
  shows "go_rem (hash item i) sz = Inr ((byte_sum item + i) mod sz)"
proof -
  have "0 \<le> byte_sum item + i" "in_int64 (byte_sum item + i)"
    using assms byte_sum_bounds [of item] by (auto simp: short_item_def in_int64_def)
  then show ?thesis using assms(4) by (simp add: hash_eq)
qed

lemma slots_range: "0 < sz \<Longrightarrow> slots sz n item \<subseteq> {0..<sz}"
  by (auto simp: slots_def)

lemma marks_update:
  assumes "0 \<le> k" and "k < int (length (bitArray bf))"
  shows "marks (bf\<lparr>bitArray := (bitArray bf)[nat k := True]\<rparr>) = insert k (marks bf)"
  using assms by (auto simp: marks_def go_index_Inr_conv nth_list_update nat_eq_iff2)

lemma add_one_marks:
  assumes "bf_wf bf" "0 < bf_size bf" "short_item n item" "0 \<le> i" "i < n"
  shows "\<exists>bf'. add_one bf item i = Inr bf' \<and> grown bf bf' \<and> bf_wf bf' \<and>
    marks bf' = insert ((byte_sum item + i) mod bf_size bf) (marks bf)"
proof -
  let ?k = "(byte_sum item + i) mod bf_size bf"
  let ?bf = "bf\<lparr>bitArray := (bitArray bf)[nat ?k := True]\<rparr>"
  have k: "0 \<le> ?k" "?k < int (length (bitArray bf))" using assms(1,2) by (simp_all add: bf_wf_def)
  have "add_one bf item i = Inr ?bf"
    using k go_rem_hash [OF assms(3-5,2)] by (auto simp: add_one_Inr_conv)
  moreover have "bf_wf ?bf" using assms(1) by (simp add: bf_wf_def)
  ultimately show ?thesis using add_one_grown marks_update [OF k] by blast
qed

lemma add_many_marks:
  assumes "bf_wf bf" "0 < bf_size bf" "short_item n item" "set is \<subseteq> {0..<n}"
  shows "\<exists>bf'. go_foldl (\<lambda>b. add_one b item) bf is = Inr bf' \<and> grown bf bf' \<and> bf_wf bf' \<and>
    marks bf' = marks bf \<union> (\<lambda>i. (byte_sum item + i) mod bf_size bf) ` set is"
  using assms
proof (induction "is" arbitrary: bf)
  case (Cons i "is")
  then obtain b where b: "add_one bf item i = Inr b" "grown bf b" "bf_wf b"
      "marks b = insert ((byte_sum item + i) mod bf_size bf) (marks bf)"
    using add_one_marks [of bf n item i] by auto
  have sz: "bf_size b = bf_size bf" using b(2) by (simp add: grown_def)
  obtain b' where "go_foldl (\<lambda>b. add_one b item) b is = Inr b'" "grown b b'" "bf_wf b'"
      "marks b' = marks b \<union> (\<lambda>i. (byte_sum item + i) mod bf_size bf) ` set is"
    using Cons.IH [OF b(3)] Cons.prems sz by auto
  with b show ?case by (auto intro: grown_trans)
qed simp

text \<open>\<open>add\<close> refines set union on the marked positions.\<close>

lemma bf_add_marks:
  assumes "bf_wf bf" "0 < bf_size bf" "short_item (nHashFunction bf) item"
  shows "\<exists>bf'. bf_add bf item = Inr bf' \<and> grown bf bf' \<and> bf_wf bf' \<and>
    marks bf' = marks bf \<union> slots (bf_size bf) (nHashFunction bf) item"
proof -
  have "{0..<n} = set [0..n - 1]" for n :: int by auto
  then show ?thesis
    using add_many_marks [OF assms, of "[0..nHashFunction bf - 1]"]
    by (simp add: bf_add_def slots_def)
qed

lemma bf_add_all_marks:
  assumes "bf_wf bf" "0 < bf_size bf" "list_all (short_item (nHashFunction bf)) items"
  shows "\<exists>bf'. go_foldl bf_add bf items = Inr bf' \<and> grown bf bf' \<and> bf_wf bf' \<and>
    marks bf' = marks bf \<union> (\<Union>item \<in> set items. slots (bf_size bf) (nHashFunction bf) item)"
  using assms
proof (induction items arbitrary: bf)
  case (Cons x xs)
  then obtain b where b: "bf_add bf x = Inr b" "grown bf b" "bf_wf b"
      "marks b = marks bf \<union> slots (bf_size bf) (nHashFunction bf) x"
    using bf_add_marks [of bf x] by auto
  have sz: "bf_size b = bf_size bf" "nHashFunction b = nHashFunction bf"
    using b(2) by (simp_all add: grown_def)
  obtain b' where "go_foldl bf_add b xs = Inr b'" "grown b b'" "bf_wf b'"
      "marks b' = marks b \<union> (\<Union>item \<in> set xs. slots (bf_size bf) (nHashFunction bf) item)"
    using Cons.IH [OF b(3)] Cons.prems sz by auto
  with b show ?case by (auto intro: grown_trans)
qed simp

lemma contains_loop_marks:
  assumes "bf_wf bf" "0 < bf_size bf" "short_item n item" "set is \<subseteq> {0..<n}"
  shows "contains_loop bf item is =
    Inr ((\<lambda>i. (byte_sum item + i) mod bf_size bf) ` set is \<subseteq> marks bf)"
  using assms(4)
proof (induction "is")
  case (Cons i "is")
  let ?k = "(byte_sum item + i) mod bf_size bf"
  have rem: "go_rem (hash item i) (bf_size bf) = Inr ?k"
    using go_rem_hash [OF assms(3) _ _ assms(2)] Cons.prems by simp
  have "go_index (bitArray bf) ?k = Inr (?k \<in> marks bf)"
    using assms(1,2) by (auto simp: go_index_def marks_def bf_wf_def)
  with rem Cons show ?case by auto
qed simp

lemma bf_contains_marks:
  assumes "bf_wf bf" "0 < bf_size bf" "short_item (nHashFunction bf) item"
  shows "bf_contains bf item = Inr (slots (bf_size bf) (nHashFunction bf) item \<subseteq> marks bf)"
proof -
  have "{0..<n} = set [0..n - 1]" for n :: int by auto
  then show ?thesis
    using contains_loop_marks [OF assms, of "[0..nHashFunction bf - 1]"]
    by (simp add: bf_contains_def slots_def)
qed

lemma marks_newBloomFilter: "newBloomFilter sz n = Inr bf \<Longrightarrow> marks bf = {}"
  using newBloomFilter_wf [of sz n bf] by (auto simp: marks_def go_index_Inr_conv)

lemma hash_perm: "mset x = mset y \<Longrightarrow> hash x i = hash y i"
proof -
  assume "mset x = mset y"
  then have "sum_mset (image_mset (of_char :: char \<Rightarrow> int) (mset x))
    = sum_mset (image_mset of_char (mset y))" by simp
  then have "byte_sum x = byte_sum y" by (simp add: byte_sum_def sum_mset_sum_list flip: mset_map)
  then show ?thesis by (simp add: hash_eq)
qed

subsection \<open>Properties\<close>

text \<open>
  C22. A filter of positive size accepts every item of reasonable length, and then \<open>contains\<close>
  answers \<open>true\<close> exactly for the items all of whose slots are slots of added items. So an added
  item is always found (no false negatives), a negative answer is always right, and the false
  positives are exactly the items whose slots others cover.
\<close>

theorem bloom_contains_exact:
  assumes "0 < sz" and "list_all (short_item n) (x # items)"
  shows "\<exists>bf0 bf. newBloomFilter sz n = Inr bf0 \<and> go_foldl bf_add bf0 items = Inr bf \<and>
    bf_contains bf x = Inr (slots sz n x \<subseteq> (\<Union>y \<in> set items. slots sz n y))"
proof -
  obtain bf0 where new: "newBloomFilter sz n = Inr bf0"
    using assms(1) by (simp add: newBloomFilter_def go_make_def)
  note wf = newBloomFilter_wf [OF new]
  obtain bf where bf: "go_foldl bf_add bf0 items = Inr bf" "grown bf0 bf" "bf_wf bf"
      "marks bf = (\<Union>y \<in> set items. slots sz n y)"
    using bf_add_all_marks [of bf0 items] wf assms marks_newBloomFilter [OF new] by auto
  have "bf_contains bf x = Inr (slots sz n x \<subseteq> marks bf)"
    using bf_contains_marks [of bf x] bf wf assms by (simp add: grown_def)
  with new bf show ?thesis by auto
qed

theorem bloom_contains_exact_witness:
  "\<exists>bf0 bf. newBloomFilter 100 3 = Inr bf0 \<and> go_foldl bf_add bf0 [''hello'', ''vijay''] = Inr bf \<and>
    bf_contains bf ''olleh'' =
      Inr (slots 100 3 ''olleh'' \<subseteq> (\<Union>y \<in> set [''hello'', ''vijay'']. slots 100 3 y))"
  by (rule bloom_contains_exact) (simp_all add: short_item_def)

text \<open>
  Once an item was added, no later sequence of adds makes \<open>contains\<close> deny it, for any filter
  and items of any length (overflowing sums included), as long as the adds themselves returned.
\<close>

theorem bloom_no_false_negative:
  assumes "go_foldl bf_add bf items = Inr bf'" and "x \<in> set items"
  shows "bf_contains bf' x = Inr True"
  using assms by (rule bloom.insert_all_has)

theorem bloom_no_false_negative_witness:
  "\<exists>bf bf'. newBloomFilter 7 2 = Inr bf \<and> go_foldl bf_add bf [''ab'', ''zz''] = Inr bf' \<and>
    bf_contains bf' ''ab'' = Inr True"
proof -
  let ?bf = "\<lparr>nHashFunction = 2, bf_size = 7, bitArray = replicate 7 False\<rparr>"
  obtain bf' where bf': "go_foldl bf_add ?bf [''ab'', ''zz''] = Inr bf'"
    using bf_add_all_marks [of ?bf "[''ab'', ''zz'']"] by (auto simp: bf_wf_def short_item_def)
  have "newBloomFilter 7 2 = Inr ?bf" by (simp add: newBloomFilter_def go_make_def)
  with bf' bloom_no_false_negative [OF bf', of "''ab''"] show ?thesis by auto
qed

text \<open>
  The hash adds bytes, so it cannot tell rearrangements of the same bytes apart: \<open>contains\<close>
  gives an item and any permutation of it the same answer.
\<close>

theorem bloom_contains_perm:
  assumes "mset x = mset y"
  shows "bf_contains bf x = bf_contains bf y"
proof -
  have "contains_loop bf x is = contains_loop bf y is" for "is"
    by (induction "is") (simp_all add: hash_perm [OF assms] cong: if_cong)
  then show ?thesis by (simp add: bf_contains_def)
qed

theorem bloom_contains_perm_witness:
  "bf_contains \<lparr>nHashFunction = 1, bf_size = 2, bitArray = [True, False]\<rparr> ''ab'' =
   bf_contains \<lparr>nHashFunction = 1, bf_size = 2, bitArray = [True, False]\<rparr> ''ba''"
  by (rule bloom_contains_perm) (simp add: add_mset_commute)

text \<open>
  The demonstration in \<open>main\<close>: the five added words are reported present, and of the six
  words never added exactly those listed with \<open>True\<close> are false positives.
\<close>

theorem bloom_main_output:
  "bloom_main = Inr
    ([(''hello'', True), (''vijay'', True), (''suriya'', True), (''kabilan'', True), (''vimal'', True)],
     [(''vimalan'', False), (''saraseswari'', False), (''dhina'', False), (''sun'', False),
      (''apple'', False), (''ballss'', False)])"
  by code_simp

end
