(* ===== verification/Go_Runs.thy ===== *)
theory Go_Runs
  imports Go_Prelude "HOL-Library.Multiset"
begin

text \<open>
  Goroutines that interleave: a system state is a shared record with one program counter per
  goroutine, and a run is a sequence of steps of single goroutines. The locale
  \<open>invariant_system\<close> lifts a one-step invariant to every reachable state; \<open>live_system\<close> adds a
  variant that every step lowers and the absence of deadlock, and gives that every run is finite,
  that a run that cannot go on has finished, and that a finished state is always reached;
  \<open>refinement\<close> relates it to an abstract system. The rest
  are the list facts that a step of goroutine \<open>i\<close> needs: what \<open>pcs[i := v]\<close> does to a count, to a
  sum of weights and to the multiset of what the goroutines hold.
\<close>

lemma run_then_step [trans]: "r\<^sup>*\<^sup>* s t \<Longrightarrow> r t u \<Longrightarrow> r\<^sup>*\<^sup>* s u"
  by (rule rtranclp.rtrancl_into_rtrancl)

subsection \<open>Invariants and termination of interleaved runs\<close>

locale invariant_system =
  fixes init :: "'s \<Rightarrow> bool"
    and step :: "'s \<Rightarrow> 's \<Rightarrow> bool"
    and inv :: "'s \<Rightarrow> bool"
  assumes init_inv: "init s \<Longrightarrow> inv s"
    and step_inv: "inv s \<Longrightarrow> step s t \<Longrightarrow> inv t"
begin

lemma run_inv: "step\<^sup>*\<^sup>* s t \<Longrightarrow> inv s \<Longrightarrow> inv t"
  by (induction rule: rtranclp_induct) (auto intro: step_inv)

lemma reachable_inv: "init s \<Longrightarrow> step\<^sup>*\<^sup>* s t \<Longrightarrow> inv t"
  by (blast intro: run_inv init_inv)

end

locale live_system = invariant_system init step inv
  for init :: "'s \<Rightarrow> bool" and step and inv +
  fixes variant :: "'s \<Rightarrow> nat"
    and final :: "'s \<Rightarrow> bool"
  assumes step_variant: "inv s \<Longrightarrow> step s t \<Longrightarrow> variant t < variant s"
    and step_progress: "inv s \<Longrightarrow> \<not> final s \<Longrightarrow> \<exists>t. step s t"
begin

lemma run_length: "(step ^^ n) s t \<Longrightarrow> inv s \<Longrightarrow> n + variant t \<le> variant s"
proof (induction n arbitrary: t)
  case (Suc n)
  then obtain u where u: "(step ^^ n) s u" "step u t" by auto
  then have "inv u" using Suc.prems(2) by (blast intro: run_inv relpowp_imp_rtranclp)
  then have "variant t < variant u" using u(2) by (rule step_variant)
  with Suc.IH [OF u(1) Suc.prems(2)] show ?case by simp
qed simp

lemma stuck_final: "init s \<Longrightarrow> step\<^sup>*\<^sup>* s t \<Longrightarrow> \<nexists>u. step t u \<Longrightarrow> final t"
  using reachable_inv step_progress by blast

lemma inv_reaches_final: "inv s \<Longrightarrow> \<exists>t. step\<^sup>*\<^sup>* s t \<and> final t"
proof (induction "variant s" arbitrary: s rule: less_induct)
  case less
  show ?case
  proof (cases "final s")
    case False
    then obtain u where u: "step s u" using less.prems step_progress by blast
    obtain t where "step\<^sup>*\<^sup>* u t" "final t"
      using less.hyps [OF step_variant [OF less.prems u] step_inv [OF less.prems u]] by blast
    with u show ?thesis by (meson converse_rtranclp_into_rtranclp)
  qed auto
qed

lemma reaches_final: "init s \<Longrightarrow> step\<^sup>*\<^sup>* s t \<Longrightarrow> \<exists>u. step\<^sup>*\<^sup>* t u \<and> final u"
  by (blast intro: inv_reaches_final reachable_inv)

end

subsection \<open>Refinement of an abstract system\<close>

text \<open>
  A concurrent system implements a specification when each of its steps is a step of the
  specification, or none, under a mapping of its states.
\<close>

locale refinement = invariant_system init step inv
  for init :: "'s \<Rightarrow> bool" and step and inv +
  fixes spec_step :: "'a \<Rightarrow> 'a \<Rightarrow> bool"
    and abs :: "'s \<Rightarrow> 'a"
  assumes step_refines: "inv s \<Longrightarrow> step s t \<Longrightarrow> abs t = abs s \<or> spec_step (abs s) (abs t)"
begin

lemma run_refines: "init s \<Longrightarrow> step\<^sup>*\<^sup>* s t \<Longrightarrow> spec_step\<^sup>*\<^sup>* (abs s) (abs t)"
proof -
  assume "init s" "step\<^sup>*\<^sup>* s t"
  from \<open>step\<^sup>*\<^sup>* s t\<close> show ?thesis
  proof (induction rule: rtranclp_induct)
    case (step t u)
    then have "inv t" using \<open>init s\<close> reachable_inv by blast
    from step_refines [OF this step.hyps(2)] step.IH show ?case by (auto intro: run_then_step)
  qed simp
qed

text \<open>What the specification keeps, the implementation keeps.\<close>

lemma spec_invariant:
  assumes "init s" and "step\<^sup>*\<^sup>* s t" and "P (abs s)" and "\<And>a b. P a \<Longrightarrow> spec_step a b \<Longrightarrow> P b"
  shows "P (abs t)"
proof -
  from run_refines [OF assms(1,2)] assms(3) show ?thesis
    by (induction rule: rtranclp_induct) (auto intro: assms(4))
qed

end

subsection \<open>Tallies, weights and holdings of a list of goroutines\<close>

definition tally :: "('p \<Rightarrow> bool) \<Rightarrow> 'p list \<Rightarrow> nat" where
  "tally P xs = length (filter P xs)"

definition weight :: "('p \<Rightarrow> nat) \<Rightarrow> 'p list \<Rightarrow> nat" where
  "weight w xs = sum_list (map w xs)"

definition holdings :: "('p \<Rightarrow> 'a list) \<Rightarrow> 'p list \<Rightarrow> 'a multiset" where
  "holdings h xs = mset (concat (map h xs))"

lemma tally_Nil [simp]: "tally P [] = 0"
  by (simp add: tally_def)

lemma tally_Cons [simp]: "tally P (x # xs) = (if P x then 1 else 0) + tally P xs"
  by (simp add: tally_def)

lemma tally_append [simp]: "tally P (xs @ ys) = tally P xs + tally P ys"
  by (simp add: tally_def)

lemma tally_replicate [simp]: "tally P (replicate n x) = (if P x then n else 0)"
  by (simp add: tally_def)

lemma tally_le_length: "tally P xs \<le> length xs"
  by (simp add: tally_def)

lemma tally_update:
  "i < length xs \<Longrightarrow>
    tally P (xs[i := v]) + (if P (xs ! i) then 1 else 0) = tally P xs + (if P v then 1 else 0)"
proof (induction xs arbitrary: i)
  case (Cons x xs)
  show ?case
  proof (cases i)
    case (Suc j)
    with Cons.prems Cons.IH [of j] show ?thesis by simp
  qed simp
qed simp

lemma tally_pos_iff: "0 < tally P xs \<longleftrightarrow> (\<exists>i < length xs. P (xs ! i))"
  unfolding tally_def length_greater_0_conv filter_empty_conv by (metis in_set_conv_nth)

lemma tally_pos: "i < length xs \<Longrightarrow> P (xs ! i) \<Longrightarrow> 0 < tally P xs"
  by (auto simp: tally_pos_iff)

lemma tally_all: "tally P xs = length xs \<longleftrightarrow> list_all P xs"
proof (induction xs)
  case (Cons x xs)
  with tally_le_length [of P xs] show ?case by auto
qed simp

lemma weight_Nil [simp]: "weight w [] = 0"
  by (simp add: weight_def)

lemma weight_Cons [simp]: "weight w (x # xs) = w x + weight w xs"
  by (simp add: weight_def)

lemma weight_append [simp]: "weight w (xs @ ys) = weight w xs + weight w ys"
  by (simp add: weight_def)

lemma weight_update:
  "i < length xs \<Longrightarrow> weight w (xs[i := v]) + w (xs ! i) = weight w xs + w v"
  by (induction xs arbitrary: i) (auto split: nat.splits)

lemma weight_update_less:
  assumes "i < length xs" and "w v < w (xs ! i)"
  shows "weight w (xs[i := v]) < weight w xs"
  using weight_update [OF assms(1), of w v] assms(2) by simp

lemma holdings_Nil [simp]: "holdings h [] = {#}"
  by (simp add: holdings_def)

lemma holdings_Cons [simp]: "holdings h (x # xs) = mset (h x) + holdings h xs"
  by (simp add: holdings_def)

lemma holdings_update:
  "i < length xs \<Longrightarrow> holdings h (xs[i := v]) + mset (h (xs ! i)) = holdings h xs + mset (h v)"
  by (induction xs arbitrary: i) (auto split: nat.splits)

lemma holdings_replicate [simp]: "h x = [] \<Longrightarrow> holdings h (replicate n x) = {#}"
  by (induction n) simp_all


lemma size_holdings: "size (holdings h xs) = weight (\<lambda>x. length (h x)) xs"
  by (induction xs) simp_all

lemma weight_tally: "weight (\<lambda>x. if P x then 1 else 0) xs = tally P xs"
  by (induction xs) simp_all

lemma holdings_sum: "holdings h xs = (\<Sum>i < length xs. mset (h (xs ! i)))"
proof -
  have "holdings h xs = sum_list (map (\<lambda>x. mset (h x)) xs)"
    by (simp add: holdings_def mset_concat comp_def)
  then show ?thesis by (simp add: sum_list_sum_nth atLeast0LessThan)
qed

lemma holdings_two:
  assumes "i < length xs" "j < length xs" "i \<noteq> j" "a \<in> set (h (xs ! i))" "a \<in> set (h (xs ! j))"
  shows "2 \<le> count (holdings h xs) a"
proof -
  have "1 \<le> count (mset (h (xs ! i))) a" "1 \<le> count (mset (h (xs ! j))) a"
    using assms(4,5) by (simp_all add: Suc_le_eq count_list_0_iff)
  moreover have "(\<Sum>k \<in> {i, j}. count (mset (h (xs ! k))) a)
      = count (mset (h (xs ! i))) a + count (mset (h (xs ! j))) a"
    using assms(3) by simp
  ultimately have "2 \<le> (\<Sum>k \<in> {i, j}. count (mset (h (xs ! k))) a)" by linarith
  also have "\<dots> \<le> (\<Sum>k < length xs. count (mset (h (xs ! k))) a)"
    by (rule sum_mono2) (use assms(1,2) in auto)
  finally show ?thesis by (simp add: holdings_sum count_sum)
qed

end
