(* ===== verification/Go_Channel.thy ===== *)
theory Go_Channel
  imports Go_Runs
begin

text \<open>
  Buffered Go channels: a record with the buffered values, the capacity and the closed flag, and
  the send, receive and close operations, where an operation that has to wait is \<open>Blocked\<close>. The
  locale \<open>token_pool\<close> is the contract two programs of the repository share (the blocking queue and
  the connection pool): the goroutines take tokens out of a channel and put them back. It is proved
  once there that tokens are neither lost nor duplicated, that the holders never outnumber the
  tokens, and that giving a token back never waits.
\<close>

datatype 'r blocking = Blocked | Panics panic | Ready 'r

record 'a chan =
  buf :: "'a list"
  cap :: nat
  closed :: bool

definition make_chan :: "int \<Rightarrow> 'a chan go" where
  "make_chan n =
     (if n < 0 then Inl MakeNegativeSize else Inr \<lparr>buf = [], cap = nat n, closed = False\<rparr>)"

definition chan_send :: "'a \<Rightarrow> 'a chan \<Rightarrow> 'a chan blocking" where
  "chan_send v c =
     (if closed c then Panics SendOnClosedChannel
      else if length (buf c) < cap c then Ready (c\<lparr>buf := buf c @ [v]\<rparr>)
      else Blocked)"

definition chan_recv :: "'a \<Rightarrow> 'a chan \<Rightarrow> ('a \<times> 'a chan) blocking" where
  "chan_recv zero c =
     (case buf c of
        v # vs \<Rightarrow> Ready (v, c\<lparr>buf := vs\<rparr>)
      | [] \<Rightarrow> if closed c then Ready (zero, c) else Blocked)"

definition chan_ok :: "'a chan \<Rightarrow> bool" where
  "chan_ok c \<longleftrightarrow> length (buf c) \<le> cap c \<and> \<not> closed c"

lemma chan_send_Ready_conv:
  "chan_send v c = Ready c' \<longleftrightarrow>
    \<not> closed c \<and> length (buf c) < cap c \<and> c' = c\<lparr>buf := buf c @ [v]\<rparr>"
  by (auto simp: chan_send_def)

lemma chan_recv_Ready_open_conv:
  "\<not> closed c \<Longrightarrow> chan_recv z c = Ready (v, c') \<longleftrightarrow> 
    buf c = v # buf c' \<and> cap c' = cap c \<and> \<not> closed c'"
  by (cases c; cases c') (auto simp: chan_recv_def split: list.splits)

lemma chan_send_ok: "chan_ok c \<Longrightarrow> chan_send v c = Ready c' \<Longrightarrow> chan_ok c' \<and> cap c' = cap c"
  by (auto simp: chan_send_Ready_conv chan_ok_def)

lemma chan_recv_ok: "chan_ok c \<Longrightarrow> chan_recv z c = Ready (v, c') \<Longrightarrow> chan_ok c' \<and> cap c' = cap c"
  by (auto simp: chan_recv_def chan_ok_def split: list.splits)

subsection \<open>A channel of tokens shared by goroutines\<close>

locale token_pool =
  fixes step :: "'s \<Rightarrow> 's \<Rightarrow> bool"
    and pool :: "'s \<Rightarrow> 'tok chan"
    and held :: "'s \<Rightarrow> 'tok multiset"
    and ok :: "'s \<Rightarrow> bool"
  assumes step_ok: "step s t \<Longrightarrow> ok s \<Longrightarrow> chan_ok (pool s) \<Longrightarrow> ok t"
    and step_moves: "step s t \<Longrightarrow> ok s \<Longrightarrow> chan_ok (pool s) \<Longrightarrow>
      (\<exists>v z. chan_recv z (pool s) = Ready (v, pool t) \<and> held t = add_mset v (held s)) \<or>
      (\<exists>v. chan_send v (pool s) = Ready (pool t) \<and> held s = add_mset v (held t)) \<or>
      (pool t = pool s \<and> held t = held s)"
begin

definition tokens :: "'s \<Rightarrow> 'tok multiset" where
  "tokens s = mset (buf (pool s)) + held s"

lemma step_tokens:
  assumes "step s t" and "ok s" and "chan_ok (pool s)"
  shows "tokens t = tokens s \<and> chan_ok (pool t) \<and> cap (pool t) = cap (pool s)"
  using step_moves [OF assms] assms(3)
  by (auto simp: tokens_def chan_ok_def chan_send_Ready_conv chan_recv_Ready_open_conv)

lemma run_tokens_ok:
  "step\<^sup>*\<^sup>* s t \<Longrightarrow> ok s \<Longrightarrow> chan_ok (pool s) \<Longrightarrow>
    ok t \<and> tokens t = tokens s \<and> chan_ok (pool t) \<and> cap (pool t) = cap (pool s)"
proof (induction rule: rtranclp_induct)
  case (step t u)
  then show ?case using step_tokens [of t u] step_ok [of t u] by simp
qed simp

lemmas run_tokens = run_tokens_ok [THEN conjunct2]

lemma run_holders:
  assumes "step\<^sup>*\<^sup>* s t" and "ok s" and "chan_ok (pool s)" and "held s = {#}"
  shows "size (held t) + length (buf (pool t)) = length (buf (pool s))"
proof -
  have "size (tokens t) = size (tokens s)" using run_tokens [OF assms(1-3)] by simp
  then show ?thesis using assms(4) by (simp add: tokens_def)
qed

text \<open>Someone holds a token of a pool that started full: there is room to give it back.\<close>

lemma run_give_back_ready:
  assumes "step\<^sup>*\<^sup>* s t" and "ok s" and "chan_ok (pool s)" and "held s = {#}" and "held t \<noteq> {#}"
  shows "\<exists>c. chan_send v (pool t) = Ready c"
proof -
  have "0 < size (held t)" using assms(5) by (simp add: nonempty_has_size)
  then have "length (buf (pool t)) < length (buf (pool s))"
    using run_holders [OF assms(1-4)] by simp
  also have "\<dots> \<le> cap (pool t)" using run_tokens [OF assms(1-3)] assms(3) by (simp add: chan_ok_def)
  finally show ?thesis
    using run_tokens [OF assms(1-3)] by (auto simp: chan_send_Ready_conv chan_ok_def)
qed

lemma run_exclusive:
  assumes "step\<^sup>*\<^sup>* s t" and "ok s" and "chan_ok (pool s)" and "held s = {#}" and "distinct (buf (pool s))"
  shows "count (held t) v + count (mset (buf (pool t))) v \<le> 1"
proof -
  have "tokens t = mset (buf (pool s))" using run_tokens [OF assms(1-3)] assms(4)
    by (simp add: tokens_def)
  then have "count (tokens t) v \<le> 1"
    using assms(5) by (metis distinct_count_atmost_1 le_numeral_extra(1) order_refl)
  then show ?thesis by (simp add: tokens_def)
qed

end

end
