(* ===== verification/Blocking_Queue.thy ===== *)
theory Blocking_Queue
  imports Go_Channel
begin

text \<open>
  \<open>blockingQ/main.go\<close>: \<open>Get\<close> and \<open>Put\<close> have value receivers, so they work on a copy of the
  struct: the slice header and the mutex are copied, only the channel is shared. The copied fields
  are the record \<open>blockingQ\<close> (polymorphic in the element, \<open>obj\<close> in the program), the channel is
  passed beside it. \<open>main\<close> is a system of goroutines that take an object, work and give it back;
  its steps are the channel operations, the spawning loop and \<open>wg.Done\<close>.
\<close>

datatype obj = Obj

record 'o blockingQ =
  bq_Q :: "'o list"
  bq_mu :: bool
  bq_size :: int

text \<open>\<open>Get\<close> on the receiver's copy: wait for a token, lock the copied mutex, take the head.\<close>

definition bq_Get :: "'o blockingQ \<Rightarrow> bool chan \<Rightarrow> ('o \<times> 'o blockingQ \<times> bool chan) blocking" where
  "bq_Get bq ch =
     (case chan_recv False ch of
        Blocked \<Rightarrow> Blocked
      | Panics p \<Rightarrow> Panics p
      | Ready (_, ch') \<Rightarrow>
          if bq_mu bq then Blocked
          else (case go_index (bq_Q bq) 0 of
             Inl p \<Rightarrow> Panics p
           | Inr ret \<Rightarrow> Ready (ret, bq\<lparr>bq_Q := tl (bq_Q bq)\<rparr>, ch')))"

definition bq_Put :: "'o \<Rightarrow> 'o blockingQ \<Rightarrow> bool chan \<Rightarrow> ('o blockingQ \<times> bool chan) blocking" where
  "bq_Put ob bq ch =
     (if bq_mu bq then Blocked
      else (case chan_send True ch of
         Blocked \<Rightarrow> Blocked
       | Panics p \<Rightarrow> Panics p
       | Ready ch' \<Rightarrow> Ready (bq\<lparr>bq_Q := bq_Q bq @ [ob]\<rparr>, ch')))"

text \<open>The loop of \<open>newBlockingQ\<close> appends an object and sends a token, \<open>size\<close> times.\<close>

fun bq_fill :: "nat \<Rightarrow> obj blockingQ \<Rightarrow> bool chan \<Rightarrow> (obj blockingQ \<times> bool chan) blocking" where
  "bq_fill 0 bq ch = Ready (bq, ch)"
| "bq_fill (Suc n) bq ch =
     (case chan_send True ch of
        Blocked \<Rightarrow> Blocked
      | Panics p \<Rightarrow> Panics p
      | Ready ch' \<Rightarrow> bq_fill n (bq\<lparr>bq_Q := bq_Q bq @ [Obj]\<rparr>) ch')"

definition newBlockingQ :: "int \<Rightarrow> (obj blockingQ \<times> bool chan) blocking" where
  "newBlockingQ n =
     (case make_chan n of
        Inl p \<Rightarrow> Panics p
      | Inr ch \<Rightarrow> bq_fill (nat n) \<lparr>bq_Q = [], bq_mu = False, bq_size = 0\<rparr> ch)"

subsection \<open>The goroutines of \<open>main\<close>\<close>

datatype 'o user_pc = Started | Holding 'o | Returned | Finished

record 'o bq_sys =
  blockQ :: "'o blockingQ"
  bq_ch :: "bool chan"
  bq_wg :: int
  bq_users :: "'o user_pc list"

inductive bq_step :: "nat \<Rightarrow> 'o bq_sys \<Rightarrow> 'o bq_sys \<Rightarrow> bool" for n where
  spawn: "length (bq_users s) < n \<Longrightarrow>
    bq_step n s (s\<lparr>bq_wg := bq_wg s + 1, bq_users := bq_users s @ [Started]\<rparr>)"
| get: "i < length (bq_users s) \<Longrightarrow> bq_users s ! i = Started \<Longrightarrow>
    bq_Get (blockQ s) (bq_ch s) = Ready (ob, copy, ch') \<Longrightarrow>
    bq_step n s (s\<lparr>bq_ch := ch', bq_users := (bq_users s)[i := Holding ob]\<rparr>)"
| put: "i < length (bq_users s) \<Longrightarrow> bq_users s ! i = Holding ob \<Longrightarrow>
    bq_Put ob (blockQ s) (bq_ch s) = Ready (copy, ch') \<Longrightarrow>
    bq_step n s (s\<lparr>bq_ch := ch', bq_users := (bq_users s)[i := Returned]\<rparr>)"
| wg_done: "i < length (bq_users s) \<Longrightarrow> bq_users s ! i = Returned \<Longrightarrow>
    bq_step n s (s\<lparr>bq_wg := bq_wg s - 1, bq_users := (bq_users s)[i := Finished]\<rparr>)"

text \<open>
  A program that has built its queue and started no goroutine yet. \<open>main\<close> is the instance with the
  queue of \<open>newBlockingQ 10\<close> and 1000 users; the general form allows any queue of \<open>k\<close> objects.
\<close>

definition bq_built :: "nat \<Rightarrow> 'o bq_sys \<Rightarrow> bool" where
  "bq_built k s \<longleftrightarrow>
     0 < k \<and> length (bq_Q (blockQ s)) = k \<and> \<not> bq_mu (blockQ s) \<and>
     bq_ch s = \<lparr>buf = replicate k True, cap = k, closed = False\<rparr> \<and>
     bq_wg s = 0 \<and> bq_users s = []"

definition bq_main_init :: "obj bq_sys \<Rightarrow> bool" where
  "bq_main_init s \<longleftrightarrow> newBlockingQ 10 = Ready (blockQ s, bq_ch s) \<and> bq_wg s = 0 \<and> bq_users s = []"

abbreviation is_holding :: "'o user_pc \<Rightarrow> bool" where
  "is_holding pc \<equiv> (case pc of Holding _ \<Rightarrow> True | _ \<Rightarrow> False)"

definition bq_all_done :: "nat \<Rightarrow> 'o bq_sys \<Rightarrow> bool" where
  "bq_all_done n s \<longleftrightarrow> length (bq_users s) = n \<and> list_all (\<lambda>pc. pc = Finished) (bq_users s) \<and> bq_wg s = 0"

subsection \<open>One call\<close>

lemma bq_Get_Ready_conv:
  "bq_Get bq ch = Ready (ob, bq', ch') \<longleftrightarrow>
    (\<exists>v. chan_recv False ch = Ready (v, ch')) \<and> \<not> bq_mu bq \<and> bq_Q bq \<noteq> [] \<and>
    ob = hd (bq_Q bq) \<and> bq' = bq\<lparr>bq_Q := tl (bq_Q bq)\<rparr>"
  by (auto simp: bq_Get_def go_index_def hd_conv_nth split: blocking.splits)

lemma bq_Put_Ready_conv:
  "bq_Put ob bq ch = Ready (bq', ch') \<longleftrightarrow>
    \<not> bq_mu bq \<and> chan_send True ch = Ready ch' \<and> bq' = bq\<lparr>bq_Q := bq_Q bq @ [ob]\<rparr>"
  by (auto simp: bq_Put_def split: blocking.splits)

lemma bq_fill_Ready:
  "length (buf ch) + n \<le> cap ch \<Longrightarrow> \<not> closed ch \<Longrightarrow>
    bq_fill n bq ch = Ready (bq\<lparr>bq_Q := bq_Q bq @ replicate n Obj\<rparr>, ch\<lparr>buf := buf ch @ replicate n True\<rparr>)"
proof (induction n arbitrary: bq ch)
  case (Suc n)
  then show ?case by (simp add: chan_send_def replicate_app_Cons_same)
qed simp

lemma newBlockingQ_Ready:
  "0 \<le> k \<Longrightarrow> newBlockingQ k =
    Ready (\<lparr>bq_Q = replicate (nat k) Obj, bq_mu = False, bq_size = 0\<rparr>,
           \<lparr>buf = replicate (nat k) True, cap = nat k, closed = False\<rparr>)"
  by (simp add: newBlockingQ_def make_chan_def bq_fill_Ready)

lemma bq_main_init_built: "bq_main_init s \<Longrightarrow> bq_built 10 s"
  by (cases "blockQ s") (auto simp: bq_main_init_def bq_built_def newBlockingQ_Ready)

subsection \<open>The shared contract: tokens of a channel\<close>

definition bq_held :: "'o bq_sys \<Rightarrow> bool multiset" where
  "bq_held s = holdings (\<lambda>pc. if is_holding pc then [True] else []) (bq_users s)"

lemma bq_held_append [simp]:
  "bq_held (s\<lparr>bq_wg := w, bq_users := bq_users s @ [Started]\<rparr>) = bq_held s"
  by (simp add: bq_held_def holdings_def)

lemma bq_held_acquire:
  "i < length (bq_users s) \<Longrightarrow> bq_users s ! i = Started \<Longrightarrow>
    bq_held (s\<lparr>bq_ch := c, bq_users := (bq_users s)[i := Holding ob]\<rparr>) = add_mset True (bq_held s)"
  using holdings_update [of i "bq_users s" "\<lambda>pc. if is_holding pc then [True] else []" "Holding ob"]
  by (simp add: bq_held_def)

lemma bq_held_release:
  "i < length (bq_users s) \<Longrightarrow> bq_users s ! i = Holding ob \<Longrightarrow>
    bq_held s = add_mset True (bq_held (s\<lparr>bq_ch := c, bq_users := (bq_users s)[i := Returned]\<rparr>))"
  using holdings_update [of i "bq_users s" "\<lambda>pc. if is_holding pc then [True] else []" Returned]
  by (simp add: bq_held_def)

lemma bq_held_finish:
  "i < length (bq_users s) \<Longrightarrow> bq_users s ! i = Returned \<Longrightarrow>
    bq_held (s\<lparr>bq_wg := w, bq_users := (bq_users s)[i := Finished]\<rparr>) = bq_held s"
  using holdings_update [of i "bq_users s" "\<lambda>pc. if is_holding pc then [True] else []" Finished]
  by (simp add: bq_held_def)

lemma size_bq_held: "size (bq_held s) = tally is_holding (bq_users s)"
proof -
  have "(\<lambda>pc :: 'a user_pc. length (if is_holding pc then [True] else []))
    = (\<lambda>pc. if is_holding pc then 1 else 0)" by auto
  then show ?thesis by (simp add: bq_held_def size_holdings weight_tally)
qed

definition bq_tokens_ok :: "'o bq_sys \<Rightarrow> bool" where
  "bq_tokens_ok s \<longleftrightarrow> set (buf (bq_ch s)) \<subseteq> {True}"

interpretation bq: token_pool "bq_step n" bq_ch bq_held bq_tokens_ok for n
proof
  fix s t :: "'a bq_sys"
  assume "bq_step n s t" and ok: "bq_tokens_ok s" "chan_ok (bq_ch s)"
  then show "bq_tokens_ok t"
    by cases (auto simp: bq_tokens_ok_def chan_ok_def bq_Get_Ready_conv bq_Put_Ready_conv
      chan_recv_Ready_open_conv chan_send_Ready_conv)
next
  fix s t :: "'a bq_sys"
  assume "bq_step n s t" and ok: "bq_tokens_ok s" "chan_ok (bq_ch s)"
  then show "(\<exists>v z. chan_recv z (bq_ch s) = Ready (v, bq_ch t) \<and> bq_held t = add_mset v (bq_held s)) \<or>
    (\<exists>v. chan_send v (bq_ch s) = Ready (bq_ch t) \<and> bq_held s = add_mset v (bq_held t)) \<or>
    (bq_ch t = bq_ch s \<and> bq_held t = bq_held s)"
  proof cases
    case (get i ob copy ch')
    then obtain v where v: "chan_recv False (bq_ch s) = Ready (v, ch')"
      by (auto simp: bq_Get_Ready_conv)
    then have "v = True"
      using ok by (auto simp: chan_recv_Ready_open_conv chan_ok_def bq_tokens_ok_def)
    with get v bq_held_acquire [of i s ob ch'] show ?thesis by auto
  next
    case (put i ob copy ch')
    with bq_held_release [of i s ob ch'] show ?thesis by (auto simp: bq_Put_Ready_conv)
  qed (auto simp: bq_held_finish)
qed

subsection \<open>Invariant and progress\<close>

definition bq_inv :: "nat \<Rightarrow> nat \<Rightarrow> 'o bq_sys \<Rightarrow> bool" where
  "bq_inv k n s \<longleftrightarrow>
     0 < k \<and> \<not> bq_mu (blockQ s) \<and> length (bq_Q (blockQ s)) = k \<and>
     chan_ok (bq_ch s) \<and> cap (bq_ch s) = k \<and>
     length (buf (bq_ch s)) + tally is_holding (bq_users s) = k \<and>
     length (bq_users s) \<le> n \<and> bq_wg s = int (tally (\<lambda>pc. pc \<noteq> Finished) (bq_users s))"

fun user_weight :: "'o user_pc \<Rightarrow> nat" where
  "user_weight Started = 3"
| "user_weight (Holding _) = 2"
| "user_weight Returned = 1"
| "user_weight Finished = 0"

definition bq_variant :: "nat \<Rightarrow> 'o bq_sys \<Rightarrow> nat" where
  "bq_variant n s = 4 * (n - length (bq_users s)) + weight user_weight (bq_users s)"

lemma bq_built_inv: "bq_built k s \<Longrightarrow> bq_inv k n s"
  by (auto simp: bq_built_def bq_inv_def chan_ok_def)

lemma bq_step_inv:
  assumes "bq_inv k n s" and "bq_step n s t"
  shows "bq_inv k n t"
  using assms(2)
proof cases
  case spawn
  with assms(1) show ?thesis by (simp add: bq_inv_def)
next
  case (get i ob copy ch')
  with assms(1) tally_update [OF get(2), of is_holding "Holding ob"]
    tally_update [OF get(2), of "\<lambda>pc. pc \<noteq> Finished" "Holding ob"]
  show ?thesis
    by (auto simp: bq_inv_def bq_Get_Ready_conv chan_ok_def chan_recv_Ready_open_conv)
next
  case (put i ob copy ch')
  with assms(1) tally_update [OF put(2), of is_holding Returned]
    tally_update [OF put(2), of "\<lambda>pc. pc \<noteq> Finished" Returned]
  show ?thesis
    by (auto simp: bq_inv_def bq_Put_Ready_conv chan_ok_def chan_send_Ready_conv)
next
  case (wg_done i)
  with assms(1) tally_update [OF wg_done(2), of is_holding Finished]
    tally_update [OF wg_done(2), of "\<lambda>pc. pc \<noteq> Finished" Finished]
  show ?thesis by (auto simp: bq_inv_def)
qed

lemma bq_step_variant: "bq_inv k n s \<Longrightarrow> bq_step n s t \<Longrightarrow> bq_variant n t < bq_variant n s"
  by (erule bq_step.cases) (auto simp: bq_variant_def weight_update_less)

text \<open>
  A waiting user finds a token, or all \<open>k\<close> tokens are out and one of their holders can give its
  token back.
\<close>

lemma bq_get_enabled:
  assumes "bq_inv k n s" and "i < length (bq_users s)" and "bq_users s ! i = Started"
    and "buf (bq_ch s) \<noteq> []"
  shows "\<exists>t. bq_step n s t"
proof -
  obtain v ch' where "chan_recv False (bq_ch s) = Ready (v, ch')"
    using assms(4) by (auto simp: chan_recv_def neq_Nil_conv)
  moreover have "\<not> bq_mu (blockQ s)" "bq_Q (blockQ s) \<noteq> []"
    using assms(1) by (auto simp: bq_inv_def)
  ultimately have "bq_Get (blockQ s) (bq_ch s) =
      Ready (hd (bq_Q (blockQ s)), (blockQ s)\<lparr>bq_Q := tl (bq_Q (blockQ s))\<rparr>, ch')"
    by (auto simp: bq_Get_Ready_conv)
  from bq_step.get [OF assms(2,3) this] show ?thesis by blast
qed

lemma bq_put_enabled:
  assumes "bq_inv k n s" and "i < length (bq_users s)" and "bq_users s ! i = Holding ob"
  shows "\<exists>t. bq_step n s t"
proof -
  have "0 < tally is_holding (bq_users s)" using tally_pos [OF assms(2)] assms(3) by auto
  then obtain ch' where "chan_send True (bq_ch s) = Ready ch'"
    using assms(1) by (auto simp: bq_inv_def chan_send_Ready_conv chan_ok_def)
  then have "bq_Put ob (blockQ s) (bq_ch s) = Ready ((blockQ s)\<lparr>bq_Q := bq_Q (blockQ s) @ [ob]\<rparr>, ch')"
    using assms(1) by (simp add: bq_Put_Ready_conv bq_inv_def)
  from bq_step.put [OF assms(2,3) this] show ?thesis by blast
qed

lemma bq_step_progress:
  assumes "bq_inv k n s" and "\<not> bq_all_done n s"
  shows "\<exists>t. bq_step n s t"
proof (cases "length (bq_users s) < n")
  case True
  then show ?thesis by (blast intro: bq_step.spawn)
next
  case False
  have "tally (\<lambda>pc. pc \<noteq> Finished) (bq_users s) = 0" if "list_all (\<lambda>pc. pc = Finished) (bq_users s)"
    using that by (simp add: tally_def filter_empty_conv list_all_iff)
  with False assms have "\<not> list_all (\<lambda>pc. pc = Finished) (bq_users s)"
    by (auto simp: bq_all_done_def bq_inv_def)
  then obtain i where i: "i < length (bq_users s)" "bq_users s ! i \<noteq> Finished"
    by (auto simp: list_all_length)
  show ?thesis
  proof (cases "bq_users s ! i")
    case Started
    show ?thesis
    proof (cases "buf (bq_ch s) = []")
      case True
      then have "0 < tally is_holding (bq_users s)" using assms(1) by (simp add: bq_inv_def)
      then obtain j where j: "j < length (bq_users s)" "is_holding (bq_users s ! j)"
        unfolding tally_pos_iff by blast
      then obtain ob where "bq_users s ! j = Holding ob" by (cases "bq_users s ! j") auto
      with j(1) show ?thesis by (rule bq_put_enabled [OF assms(1)])
    qed (rule bq_get_enabled [OF assms(1) i(1) Started])
  next
    case (Holding ob)
    with i(1) show ?thesis by (rule bq_put_enabled [OF assms(1)])
  next
    case Returned
    with i(1) show ?thesis by (blast intro: bq_step.wg_done)
  qed (use i(2) in simp)
qed

interpretation bq_live: live_system "bq_built k" "bq_step n" "bq_inv k n" "bq_variant n" "bq_all_done n"
  for k n
  by unfold_locales (auto intro: bq_built_inv bq_step_inv bq_step_variant bq_step_progress)

lemma bq_step_queue: "bq_step n s t \<Longrightarrow> blockQ t = blockQ s"
  by (erule bq_step.cases) simp_all

definition bq_same_object :: "'o bq_sys \<Rightarrow> bool" where
  "bq_same_object s \<longleftrightarrow>
     (\<forall>i < length (bq_users s). \<forall>ob. bq_users s ! i = Holding ob \<longrightarrow> ob = hd (bq_Q (blockQ s)))"

lemma bq_built_same_object: "bq_built k s \<Longrightarrow> bq_same_object s"
  by (simp add: bq_built_def bq_same_object_def)

lemma bq_step_same_object: "bq_same_object s \<Longrightarrow> bq_step n s t \<Longrightarrow> bq_same_object t"
  by (erule bq_step.cases)
    (auto simp: bq_same_object_def nth_list_update nth_append bq_Get_Ready_conv less_Suc_eq)

interpretation bq_objects: invariant_system
  "\<lambda>s. bq_built k s \<and> blockQ s = q" "bq_step n" "\<lambda>s. bq_same_object s \<and> blockQ s = q" for k n q
  by unfold_locales
    (auto simp: bq_step_queue intro: bq_built_same_object bq_step_same_object)

subsection \<open>Properties\<close>

text \<open>
  C29. The program's \<open>main\<close> (a queue of ten, a thousand users) always finishes: no run is longer
  than four steps per user, a run that cannot go on has served every user and brought the wait
  group to zero, and from every reachable state such an end is reachable.
\<close>

theorem bq_main_finishes:
  assumes "bq_main_init s" and "(bq_step 1000 ^^ m) s t"
  shows "m \<le> 4000 \<and> ((\<nexists>u. bq_step 1000 t u) \<longrightarrow> bq_all_done 1000 t) \<and>
    (\<exists>u. (bq_step 1000)\<^sup>*\<^sup>* t u \<and> bq_all_done 1000 u)"
proof -
  note b = bq_main_init_built [OF assms(1)]
  have run: "(bq_step 1000)\<^sup>*\<^sup>* s t" using assms(2) by (rule relpowp_imp_rtranclp)
  have "m + bq_variant 1000 t \<le> bq_variant 1000 s"
    by (rule bq_live.run_length [OF assms(2) bq_built_inv [OF b]])
  moreover have "bq_variant 1000 s = 4000" using assms(1) by (simp add: bq_main_init_def bq_variant_def)
  ultimately have "m \<le> 4000" by simp
  with bq_live.stuck_final [OF b run] bq_live.reaches_final [OF b run] show ?thesis by blast
qed

definition bq_main_state :: "obj bq_sys" where
  "bq_main_state =
     \<lparr>blockQ = \<lparr>bq_Q = replicate 10 Obj, bq_mu = False, bq_size = 0\<rparr>,
      bq_ch = \<lparr>buf = replicate 10 True, cap = 10, closed = False\<rparr>, bq_wg = 0, bq_users = []\<rparr>"

lemma bq_main_state_init: "bq_main_init bq_main_state"
  by (simp add: bq_main_init_def bq_main_state_def newBlockingQ_Ready)

theorem bq_main_finishes_witness:
  "\<exists>u. (bq_step 1000)\<^sup>*\<^sup>* bq_main_state u \<and> bq_all_done 1000 u"
  using bq_main_finishes [OF bq_main_state_init, of 0 bq_main_state] by simp

text \<open>
  The channel is a correct semaphore: in every reachable state the users holding an object and
  the tokens left in the channel add up to the queue's size, so at most \<open>k\<close> users hold one at any
  moment, and a holder can always give its object back without waiting.
\<close>

theorem bq_bounded:
  assumes "bq_built k s" and "(bq_step n)\<^sup>*\<^sup>* s t"
  shows "tally is_holding (bq_users t) + length (buf (bq_ch t)) = k \<and>
    (0 < tally is_holding (bq_users t) \<longrightarrow>
      (\<forall>ob. \<exists>copy ch'. bq_Put ob (blockQ t) (bq_ch t) = Ready (copy, ch')))"
proof -
  have start: "bq_tokens_ok s" "chan_ok (bq_ch s)" "bq_held s = {#}" "length (buf (bq_ch s)) = k"
    using assms(1) by (auto simp: bq_built_def bq_tokens_ok_def chan_ok_def bq_held_def)
  have sum: "tally is_holding (bq_users t) + length (buf (bq_ch t)) = k"
    using bq.run_holders [OF assms(2) start(1-3)] start(4) by (simp add: size_bq_held)
  have unlocked: "\<not> bq_mu (blockQ t)"
    using bq_live.reachable_inv [OF assms] by (simp add: bq_inv_def)
  have "\<exists>copy ch'. bq_Put ob (blockQ t) (bq_ch t) = Ready (copy, ch')"
    if "0 < tally is_holding (bq_users t)" for ob
  proof -
    have "bq_held t \<noteq> {#}" using that by (auto simp flip: size_bq_held)
    with bq.run_give_back_ready [OF assms(2) start(1-3)] unlocked show ?thesis
      by (fastforce simp: bq_Put_Ready_conv)
  qed
  with sum show ?thesis by blast
qed

text \<open>
  C23. \<open>Get\<close> and \<open>Put\<close> work on a copy of the struct, so the program's queue never changes: all
  users that hold an object at the same time hold the very same one, the first of the queue, and
  the mutex excludes nobody.
\<close>

theorem bq_everyone_gets_first:
  assumes "bq_built k s" and "(bq_step n)\<^sup>*\<^sup>* s t"
    and "i < length (bq_users t)" and "bq_users t ! i = Holding ob"
  shows "blockQ t = blockQ s \<and> ob = hd (bq_Q (blockQ s))"
  using bq_objects.reachable_inv [of k s "blockQ s" n t] assms by (auto simp: bq_same_object_def)

text \<open>Two users of a queue of two different objects, after both called \<open>Get\<close>.\<close>

definition bq_two :: "nat user_pc list \<Rightarrow> nat \<Rightarrow> nat bq_sys" where
  "bq_two pcs free =
     \<lparr>blockQ = \<lparr>bq_Q = [1, 2], bq_mu = False, bq_size = 0\<rparr>,
      bq_ch = \<lparr>buf = replicate free True, cap = 2, closed = False\<rparr>, bq_wg = int (length pcs), bq_users = pcs\<rparr>"

lemma bq_two_spawn:
  "length pcs < 2 \<Longrightarrow> bq_step 2 (bq_two pcs f) (bq_two (pcs @ [Started]) f)"
  using bq_step.spawn [of "bq_two pcs f" 2] by (simp add: bq_two_def add.commute)

lemma bq_two_get:
  "i < length pcs \<Longrightarrow> pcs ! i = Started \<Longrightarrow>
    bq_step 2 (bq_two pcs (Suc f)) (bq_two (pcs[i := Holding 1]) f)"
  using bq_step.get [of i "bq_two pcs (Suc f)" 1 _ _ 2]
  by (simp add: bq_two_def bq_Get_def chan_recv_def go_index_def)

lemma bq_two_run: "(bq_step 2)\<^sup>*\<^sup>* (bq_two [] 2) (bq_two [Holding 1, Holding 1] 0)"
proof -
  have "bq_step 2 (bq_two [] 2) (bq_two [Started] 2)"
    "bq_step 2 (bq_two [Started] 2) (bq_two [Started, Started] 2)"
    using bq_two_spawn [of "[]" 2] bq_two_spawn [of "[Started]" 2] by simp_all
  moreover have "bq_step 2 (bq_two [Started, Started] 2) (bq_two [Holding 1, Started] 1)"
    "bq_step 2 (bq_two [Holding 1, Started] 1) (bq_two [Holding 1, Holding 1] 0)"
    using bq_two_get [of 0 "[Started, Started]" 1] bq_two_get [of 1 "[Holding 1, Started]" 0]
    by (simp_all add: numeral_2_eq_2)
  ultimately show ?thesis by (meson converse_rtranclp_into_rtranclp rtranclp.rtrancl_refl)
qed

lemma bq_two_built: "bq_built 2 (bq_two [] 2)"
  by (simp add: bq_built_def bq_two_def)

theorem bq_bounded_witness:
  "tally is_holding (bq_users (bq_two [Holding 1, Holding 1] 0)) = 2 \<and>
   tally is_holding (bq_users (bq_two [Holding 1, Holding 1] 0))
     + length (buf (bq_ch (bq_two [Holding 1, Holding 1] 0))) = 2"
  using bq_bounded [OF bq_two_built bq_two_run] by (simp add: bq_two_def)

theorem bq_everyone_gets_first_witness:
  "blockQ (bq_two [Holding 1, Holding 1] 0) = blockQ (bq_two [] 2) \<and>
   (1 :: nat) = hd (bq_Q (blockQ (bq_two [] 2)))"
  using bq_everyone_gets_first [OF bq_two_built bq_two_run, of 1 1] by (simp add: bq_two_def)

end
