(* ===== verification/Connection_Pool.thy ===== *)
theory Connection_Pool
  imports Go_Channel
begin

text \<open>
  \<open>connectionPool/temp.go\<close> and \<open>connectionPool/main.go\<close>. A pool is a channel of database handles
  (pointers, so natural numbers with \<open>nil\<close> the number 0); \<open>sql.Open\<close> and \<open>Exec\<close> belong to the
  database library and are parameters: what the \<open>i\<close>-th call returns. The benchmark over the pool is
  a system of goroutines; it interprets the channel contract \<open>token_pool\<close> and the termination
  contract \<open>live_system\<close>. The unpooled benchmarks are straight-line goroutines.
\<close>

type_synonym conn = nat

record ConnectionPool =
  maxConn :: int
  cp_ch :: "conn chan"

definition newConn :: "string + conn \<Rightarrow> conn go" where
  "newConn opened = (case opened of Inl err \<Rightarrow> Inl (PanicValue err) | Inr db \<Rightarrow> Inr db)"

text \<open>The filling loop: connection \<open>i\<close> is opened and sent; \<open>m\<close> iterations are left.\<close>

fun cp_fill :: "(nat \<Rightarrow> string + conn) \<Rightarrow> nat \<Rightarrow> nat \<Rightarrow> conn chan \<Rightarrow> conn chan blocking" where
  "cp_fill open i 0 ch = Ready ch"
| "cp_fill open i (Suc m) ch =
     (case newConn (open i) of
        Inl p \<Rightarrow> Panics p
      | Inr db \<Rightarrow>
          (case chan_send db ch of
             Blocked \<Rightarrow> Blocked
           | Panics p \<Rightarrow> Panics p
           | Ready ch' \<Rightarrow> cp_fill open (Suc i) m ch'))"

definition NewConnectionPool :: "(nat \<Rightarrow> string + conn) \<Rightarrow> int \<Rightarrow> ConnectionPool blocking" where
  "NewConnectionPool open maxCon =
     (case make_chan maxCon of
        Inl p \<Rightarrow> Panics p
      | Inr ch \<Rightarrow>
          (case cp_fill open 0 (nat maxCon) ch of
             Blocked \<Rightarrow> Blocked
           | Panics p \<Rightarrow> Panics p
           | Ready ch' \<Rightarrow> Ready \<lparr>maxConn = maxCon, cp_ch = ch'\<rparr>))"

definition cp_Get :: "ConnectionPool \<Rightarrow> (conn \<times> ConnectionPool) blocking" where
  "cp_Get cp =
     (case chan_recv 0 (cp_ch cp) of
        Blocked \<Rightarrow> Blocked
      | Panics p \<Rightarrow> Panics p
      | Ready (db, ch') \<Rightarrow> Ready (db, cp\<lparr>cp_ch := ch'\<rparr>))"

definition cp_Put :: "ConnectionPool \<Rightarrow> conn \<Rightarrow> ConnectionPool blocking" where
  "cp_Put cp db =
     (case chan_send db (cp_ch cp) of
        Blocked \<Rightarrow> Blocked
      | Panics p \<Rightarrow> Panics p
      | Ready ch' \<Rightarrow> Ready (cp\<lparr>cp_ch := ch'\<rparr>))"

subsection \<open>The pooled benchmark\<close>

datatype cp_pc = CPStart | CPHolding conn | CPQueried conn | CPReturned | CPDone

record cp_sys =
  cp_pool :: ConnectionPool
  cp_wg :: int
  cp_threads :: "cp_pc list"
  cp_crashed :: "panic option"

text \<open>
  \<open>exec i\<close> is what \<open>Exec\<close> returns to goroutine \<open>i\<close>: an error panics, which ends the process with
  the connection still out and \<open>wg.Done\<close> not called.
\<close>

inductive cp_step :: "(nat \<Rightarrow> string option) \<Rightarrow> nat \<Rightarrow> cp_sys \<Rightarrow> cp_sys \<Rightarrow> bool" for exec n where
  spawn: "cp_crashed s = None \<Longrightarrow> length (cp_threads s) < n \<Longrightarrow>
    cp_step exec n s (s\<lparr>cp_wg := cp_wg s + 1, cp_threads := cp_threads s @ [CPStart]\<rparr>)"
| get: "cp_crashed s = None \<Longrightarrow> i < length (cp_threads s) \<Longrightarrow> cp_threads s ! i = CPStart \<Longrightarrow>
    cp_Get (cp_pool s) = Ready (db, cp') \<Longrightarrow>
    cp_step exec n s (s\<lparr>cp_pool := cp', cp_threads := (cp_threads s)[i := CPHolding db]\<rparr>)"
| query: "cp_crashed s = None \<Longrightarrow> i < length (cp_threads s) \<Longrightarrow> cp_threads s ! i = CPHolding db \<Longrightarrow>
    exec i = None \<Longrightarrow>
    cp_step exec n s (s\<lparr>cp_threads := (cp_threads s)[i := CPQueried db]\<rparr>)"
| query_error: "cp_crashed s = None \<Longrightarrow> i < length (cp_threads s) \<Longrightarrow>
    cp_threads s ! i = CPHolding db \<Longrightarrow> exec i = Some err \<Longrightarrow>
    cp_step exec n s (s\<lparr>cp_crashed := Some (PanicValue err)\<rparr>)"
| put: "cp_crashed s = None \<Longrightarrow> i < length (cp_threads s) \<Longrightarrow> cp_threads s ! i = CPQueried db \<Longrightarrow>
    cp_Put (cp_pool s) db = Ready cp' \<Longrightarrow>
    cp_step exec n s (s\<lparr>cp_pool := cp', cp_threads := (cp_threads s)[i := CPReturned]\<rparr>)"
| wg_done: "cp_crashed s = None \<Longrightarrow> i < length (cp_threads s) \<Longrightarrow> cp_threads s ! i = CPReturned \<Longrightarrow>
    cp_step exec n s (s\<lparr>cp_wg := cp_wg s - 1, cp_threads := (cp_threads s)[i := CPDone]\<rparr>)"

text \<open>\<open>benchmarkConnectionPool\<close> builds a pool of ten, whatever its argument, for 50 goroutines.\<close>

definition benchmarkConnectionPool :: "(nat \<Rightarrow> string + conn) \<Rightarrow> int \<Rightarrow> cp_sys blocking" where
  "benchmarkConnectionPool open maxc =
     (case NewConnectionPool open 10 of
        Blocked \<Rightarrow> Blocked
      | Panics p \<Rightarrow> Panics p
      | Ready cp \<Rightarrow> Ready \<lparr>cp_pool = cp, cp_wg = 0, cp_threads = [], cp_crashed = None\<rparr>)"

definition cp_all_done :: "nat \<Rightarrow> cp_sys \<Rightarrow> bool" where
  "cp_all_done n s \<longleftrightarrow>
     cp_crashed s \<noteq> None \<or>
     (length (cp_threads s) = n \<and> list_all (\<lambda>pc. pc = CPDone) (cp_threads s) \<and> cp_wg s = 0)"

subsection \<open>The unpooled benchmarks\<close>

text \<open>What one goroutine did when it ended: its handle, whether it was closed, \<open>wg.Done\<close>, a panic.\<close>

record plain_run =
  pr_handle :: "conn option"
  pr_closed :: bool
  pr_wg_done :: bool
  pr_panic :: "panic option"

definition benchmarkPlain_goroutine :: "string + conn \<Rightarrow> string option \<Rightarrow> plain_run" where
  "benchmarkPlain_goroutine opened execd =
     (case opened of
        Inl err \<Rightarrow> \<lparr>pr_handle = None, pr_closed = False, pr_wg_done = True, pr_panic = None\<rparr>
      | Inr db \<Rightarrow>
          (case execd of
             Some err \<Rightarrow> \<lparr>pr_handle = Some db, pr_closed = True, pr_wg_done = True,
                           pr_panic = Some (PanicValue err)\<rparr>
           | None \<Rightarrow> \<lparr>pr_handle = Some db, pr_closed = True, pr_wg_done = True, pr_panic = None\<rparr>))"

definition benchmarkPlain1_goroutine :: "string + conn \<Rightarrow> string option \<Rightarrow> plain_run" where
  "benchmarkPlain1_goroutine opened execd =
     (case newConn opened of
        Inl p \<Rightarrow> \<lparr>pr_handle = None, pr_closed = False, pr_wg_done = True, pr_panic = Some p\<rparr>
      | Inr db \<Rightarrow>
          (case execd of
             Some err \<Rightarrow> \<lparr>pr_handle = Some db, pr_closed = False, pr_wg_done = True,
                           pr_panic = Some (PanicValue err)\<rparr>
           | None \<Rightarrow> \<lparr>pr_handle = Some db, pr_closed = True, pr_wg_done = True, pr_panic = None\<rparr>))"

subsection \<open>Configuring the built-in pool\<close>

text \<open>
  The limits a \<open>sql.DB\<close> keeps. \<open>SetMaxOpenConns\<close> and \<open>SetMaxIdleConns\<close> keep the idle limit at or
  below the open limit; an idle limit of zero in the record is the library's default of two, a
  negative one means none.
\<close>

record sqlDB =
  maxOpen :: int
  maxIdleCount :: int
  maxLifetime :: duration
  maxIdleTime :: duration

definition maxIdleConns :: "sqlDB \<Rightarrow> int" where
  "maxIdleConns db = (if maxIdleCount db = 0 then 2 else if maxIdleCount db < 0 then 0 else maxIdleCount db)"

definition SetMaxIdleConns :: "int \<Rightarrow> sqlDB \<Rightarrow> sqlDB" where
  "SetMaxIdleConns n db =
     (let db1 = db\<lparr>maxIdleCount := (if n > 0 then n else -1)\<rparr> in
      if maxOpen db1 > 0 \<and> maxIdleConns db1 > maxOpen db1 then db1\<lparr>maxIdleCount := maxOpen db1\<rparr> else db1)"

definition SetMaxOpenConns :: "int \<Rightarrow> sqlDB \<Rightarrow> sqlDB" where
  "SetMaxOpenConns n db =
     (let db1 = db\<lparr>maxOpen := (if n < 0 then 0 else n)\<rparr> in
      if maxOpen db1 > 0 \<and> maxIdleConns db1 > maxOpen db1 then SetMaxIdleConns n db1 else db1)"

definition initDBPool :: "string + unit \<Rightarrow> string option \<Rightarrow> sqlDB go" where
  "initDBPool opened ping =
     (case opened of
        Inl err \<Rightarrow> Inl (FatalExit (''Error opening database: '' @ err))
      | Inr _ \<Rightarrow>
          (let db = SetMaxIdleConns 5 (SetMaxOpenConns 10
                \<lparr>maxOpen = 0, maxIdleCount = 0, maxLifetime = 0, maxIdleTime = 0\<rparr>);
               db = db\<lparr>maxLifetime := 3600 * second\<rparr>;
               db = db\<lparr>maxIdleTime := 5 * 60 * second\<rparr>
           in case ping of Some err \<Rightarrow> Inl (FatalExit (''Error connecting to the database: '' @ err)) | None \<Rightarrow> Inr db))"

subsection \<open>Pool operations\<close>

lemma cp_Get_Ready_conv:
  "cp_Get cp = Ready (db, cp') \<longleftrightarrow>
    (\<exists>ch'. chan_recv 0 (cp_ch cp) = Ready (db, ch') \<and> cp' = cp\<lparr>cp_ch := ch'\<rparr>)"
  by (auto simp: cp_Get_def split: blocking.splits)

lemma cp_Put_Ready_conv:
  "cp_Put cp db = Ready cp' \<longleftrightarrow>
    (\<exists>ch'. chan_send db (cp_ch cp) = Ready ch' \<and> cp' = cp\<lparr>cp_ch := ch'\<rparr>)"
  by (auto simp: cp_Put_def split: blocking.splits)

lemma cp_fill_Ready:
  "\<forall>j < m. open (i + j) = Inr (f (i + j)) \<Longrightarrow> length (buf ch) + m \<le> cap ch \<Longrightarrow> \<not> closed ch \<Longrightarrow>
    cp_fill open i m ch = Ready (ch\<lparr>buf := buf ch @ map f [i..<i + m]\<rparr>)"
proof (induction m arbitrary: i ch)
  case (Suc m)
  from Suc.prems(1) have "open i = Inr (f i)" by force
  moreover have "\<forall>j < m. open (Suc i + j) = Inr (f (Suc i + j))" using Suc.prems(1) by force
  moreover have "[i..<i + Suc m] = i # [Suc i..<Suc i + m]" by (simp add: upt_rec)
  ultimately show ?case using Suc.IH [of "Suc i" "ch\<lparr>buf := buf ch @ [f i]\<rparr>"] Suc.prems(2,3)
    by (simp add: newConn_def chan_send_def)
qed simp

lemma NewConnectionPool_Ready:
  assumes "0 \<le> k" and "\<forall>j < nat k. open j = Inr (f j)"
  shows "NewConnectionPool open k =
    Ready \<lparr>maxConn = k, cp_ch = \<lparr>buf = map f [0..<nat k], cap = nat k, closed = False\<rparr>\<rparr>"
  using assms cp_fill_Ready [of "nat k" "open" 0 f "\<lparr>buf = [], cap = nat k, closed = False\<rparr>"]
  by (simp add: NewConnectionPool_def make_chan_def)

subsection \<open>The benchmark as a token pool\<close>

fun pc_conns :: "cp_pc \<Rightarrow> conn list" where
  "pc_conns (CPHolding db) = [db]"
| "pc_conns (CPQueried db) = [db]"
| "pc_conns _ = []"

definition cp_held :: "cp_sys \<Rightarrow> conn multiset" where
  "cp_held s = holdings pc_conns (cp_threads s)"

lemma cp_held_update:
  "i < length (cp_threads s) \<Longrightarrow>
    holdings pc_conns ((cp_threads s)[i := pc]) + mset (pc_conns (cp_threads s ! i)) =
    cp_held s + mset (pc_conns pc)"
  by (simp add: cp_held_def holdings_update)

lemma cp_held_member:
  "i < length (cp_threads s) \<Longrightarrow> db \<in> set (pc_conns (cp_threads s ! i)) \<Longrightarrow> db \<in># cp_held s"
  by (auto simp: cp_held_def holdings_def)

interpretation cp: token_pool "cp_step exec n" "\<lambda>s. cp_ch (cp_pool s)" cp_held "\<lambda>_. True" for exec n
proof
  fix s t
  assume "cp_step exec n s t"
  then show "(\<exists>v z. chan_recv z (cp_ch (cp_pool s)) = Ready (v, cp_ch (cp_pool t)) \<and>
        cp_held t = add_mset v (cp_held s)) \<or>
      (\<exists>v. chan_send v (cp_ch (cp_pool s)) = Ready (cp_ch (cp_pool t)) \<and>
        cp_held s = add_mset v (cp_held t)) \<or>
      (cp_ch (cp_pool t) = cp_ch (cp_pool s) \<and> cp_held t = cp_held s)"
  proof cases
    case (get i db cp')
    with cp_held_update [of i s "CPHolding db"] show ?thesis
      by (auto simp: cp_Get_Ready_conv cp_held_def)
  next
    case (query i db)
    with cp_held_update [of i s "CPQueried db"] show ?thesis by (auto simp: cp_held_def)
  next
    case (put i db cp')
    with cp_held_update [of i s CPReturned] show ?thesis
      by (auto simp: cp_Put_Ready_conv cp_held_def)
  next
    case (wg_done i)
    with cp_held_update [of i s CPDone] show ?thesis by (auto simp: cp_held_def)
  qed (auto simp: cp_held_def holdings_def)
qed simp_all

subsection \<open>Invariant, progress, termination\<close>

definition cp_built :: "conn list \<Rightarrow> cp_sys \<Rightarrow> bool" where
  "cp_built dbs s \<longleftrightarrow>
     dbs \<noteq> [] \<and> cp_ch (cp_pool s) = \<lparr>buf = dbs, cap = length dbs, closed = False\<rparr> \<and>
     cp_wg s = 0 \<and> cp_threads s = [] \<and> cp_crashed s = None"

definition cp_inv :: "conn list \<Rightarrow> nat \<Rightarrow> cp_sys \<Rightarrow> bool" where
  "cp_inv dbs n s \<longleftrightarrow>
     dbs \<noteq> [] \<and> chan_ok (cp_ch (cp_pool s)) \<and> cap (cp_ch (cp_pool s)) = length dbs \<and>
     mset (buf (cp_ch (cp_pool s))) + cp_held s = mset dbs \<and>
     length (cp_threads s) \<le> n \<and> cp_wg s = int (tally (\<lambda>pc. pc \<noteq> CPDone) (cp_threads s))"

fun cp_weight :: "cp_pc \<Rightarrow> nat" where
  "cp_weight CPStart = 4"
| "cp_weight (CPHolding _) = 3"
| "cp_weight (CPQueried _) = 2"
| "cp_weight CPReturned = 1"
| "cp_weight CPDone = 0"

definition cp_variant :: "nat \<Rightarrow> cp_sys \<Rightarrow> nat" where
  "cp_variant n s =
     5 * (n - length (cp_threads s)) + weight cp_weight (cp_threads s) +
     (if cp_crashed s = None then 1 else 0)"

lemma cp_built_inv: "cp_built dbs s \<Longrightarrow> cp_inv dbs n s"
  by (auto simp: cp_built_def cp_inv_def chan_ok_def cp_held_def)

lemma cp_step_threads:
  assumes "cp_step exec n s t" and "length (cp_threads s) \<le> n"
    and "cp_wg s = int (tally (\<lambda>pc. pc \<noteq> CPDone) (cp_threads s))"
  shows "length (cp_threads t) \<le> n \<and> cp_wg t = int (tally (\<lambda>pc. pc \<noteq> CPDone) (cp_threads t))"
  using assms(1)
proof cases
  case (get i db cp')
  with assms(2,3) tally_update [of i "cp_threads s" "\<lambda>pc. pc \<noteq> CPDone" "CPHolding db"]
  show ?thesis by auto
next
  case (query i db)
  with assms(2,3) tally_update [of i "cp_threads s" "\<lambda>pc. pc \<noteq> CPDone" "CPQueried db"]
  show ?thesis by auto
next
  case (put i db cp')
  with assms(2,3) tally_update [of i "cp_threads s" "\<lambda>pc. pc \<noteq> CPDone" CPReturned]
  show ?thesis by auto
next
  case (wg_done i)
  with assms(2,3) tally_update [of i "cp_threads s" "\<lambda>pc. pc \<noteq> CPDone" CPDone]
  show ?thesis by auto
qed (use assms(2,3) in auto)

lemma cp_step_inv:
  assumes "cp_inv dbs n s" and "cp_step exec n s t"
  shows "cp_inv dbs n t"
  using assms cp.step_tokens [OF assms(2)] cp_step_threads [OF assms(2)]
  by (simp add: cp_inv_def cp.tokens_def)

lemma cp_step_variant: "cp_inv dbs n s \<Longrightarrow> cp_step exec n s t \<Longrightarrow> cp_variant n t < cp_variant n s"
  by (erule cp_step.cases) (auto simp: cp_variant_def weight_update_less)

lemma cp_put_enabled:
  assumes "cp_inv dbs n s" and "cp_crashed s = None"
    and "i < length (cp_threads s)" and "cp_threads s ! i = CPQueried db"
  shows "\<exists>t. cp_step exec n s t"
proof -
  have "db \<in># cp_held s" using cp_held_member [OF assms(3), of db] assms(4) by simp
  then have "0 < size (cp_held s)" by (auto simp: nonempty_has_size [symmetric])
  then have "length (buf (cp_ch (cp_pool s))) < length dbs"
    using assms(1) unfolding cp_inv_def by (metis add_less_cancel_left add.right_neutral size_mset size_union)
  then have "\<exists>cp'. cp_Put (cp_pool s) db = Ready cp'"
    using assms(1) by (simp add: cp_inv_def cp_Put_Ready_conv chan_send_Ready_conv chan_ok_def)
  then show ?thesis using cp_step.put [OF assms(2-4)] by blast
qed

lemma cp_query_enabled:
  assumes "cp_crashed s = None" "i < length (cp_threads s)" "cp_threads s ! i = CPHolding db"
  shows "\<exists>t. cp_step exec n s t"
  using cp_step.query [OF assms] cp_step.query_error [OF assms] by (cases "exec i") blast+

lemma cp_holder_exists:
  assumes "cp_held s \<noteq> {#}"
  shows "\<exists>i < length (cp_threads s). \<exists>db. cp_threads s ! i = CPHolding db \<or> cp_threads s ! i = CPQueried db"
proof (rule ccontr)
  assume none: "\<not> ?thesis"
  have "pc_conns pc = []" if "pc \<in> set (cp_threads s)" for pc
  proof -
    from that obtain i where "i < length (cp_threads s)" "cp_threads s ! i = pc"
      by (auto simp: in_set_conv_nth)
    with none show ?thesis by (cases pc) auto
  qed
  then have "concat (map pc_conns (cp_threads s)) = []" by simp
  then show False using assms by (simp add: cp_held_def holdings_def)
qed

lemma cp_step_progress:
  assumes "cp_inv dbs n s" and "\<not> cp_all_done n s"
  shows "\<exists>t. cp_step exec n s t"
proof (cases "length (cp_threads s) < n")
  case True
  then show ?thesis using assms(2) by (auto simp: cp_all_done_def intro: cp_step.spawn)
next
  case False
  have run: "cp_crashed s = None" using assms(2) by (simp add: cp_all_done_def)
  have "tally (\<lambda>pc. pc \<noteq> CPDone) (cp_threads s) = 0" if "list_all (\<lambda>pc. pc = CPDone) (cp_threads s)"
    using that by (simp add: tally_def filter_empty_conv list_all_iff)
  with False assms have "\<not> list_all (\<lambda>pc. pc = CPDone) (cp_threads s)"
    by (auto simp: cp_all_done_def cp_inv_def)
  then obtain i where i: "i < length (cp_threads s)" "cp_threads s ! i \<noteq> CPDone"
    by (auto simp: list_all_length)
  note busy = cp_query_enabled [OF run] cp_put_enabled [OF assms(1) run]
  show ?thesis
  proof (cases "cp_threads s ! i")
    case CPStart
    show ?thesis
    proof (cases "buf (cp_ch (cp_pool s)) = []")
      case True
      then have "cp_held s \<noteq> {#}" using assms(1) by (auto simp: cp_inv_def)
      from cp_holder_exists [OF this] show ?thesis using busy by blast
    next
      case False
      then obtain db cp' where "cp_Get (cp_pool s) = Ready (db, cp')"
        by (auto simp: cp_Get_Ready_conv chan_recv_def neq_Nil_conv)
      from cp_step.get [OF run i(1) CPStart this] show ?thesis by blast
    qed
  next
    case CPReturned
    from cp_step.wg_done [OF run i(1) this] show ?thesis by blast
  qed (use busy i in auto)
qed

interpretation cp_live:
  live_system "cp_built dbs" "cp_step exec n" "cp_inv dbs n" "cp_variant n" "cp_all_done n" for dbs exec n
  by unfold_locales (auto intro: cp_built_inv cp_step_inv cp_step_variant cp_step_progress)

lemma cp_built_start:
  assumes "cp_built dbs s"
  shows "chan_ok (cp_ch (cp_pool s))" "cp_held s = {#}" "buf (cp_ch (cp_pool s)) = dbs"
  using assms by (auto simp: cp_built_def chan_ok_def cp_held_def)

lemma cp_run_once:
  assumes "cp_built dbs s" "distinct dbs" "(cp_step exec n)\<^sup>*\<^sup>* s t"
  shows "count (cp_held t) db + count (mset (buf (cp_ch (cp_pool t)))) db \<le> 1"
  using cp.run_exclusive [OF assms(3) TrueI cp_built_start(1,2) [OF assms(1)]]
    cp_built_start(3) [OF assms(1)] assms(2) by simp

lemma cp_held_not_in_channel:
  assumes "cp_built dbs s" "distinct dbs" "(cp_step exec n)\<^sup>*\<^sup>* s t"
    and "i < length (cp_threads t)" "db \<in> set (pc_conns (cp_threads t ! i))"
  shows "db \<notin> set (buf (cp_ch (cp_pool t)))"
proof
  assume "db \<in> set (buf (cp_ch (cp_pool t)))"
  then have "0 < count (mset (buf (cp_ch (cp_pool t)))) db" by simp
  moreover have "0 < count (cp_held t) db" using cp_held_member [OF assms(4,5)] by simp
  ultimately show False using cp_run_once [OF assms(1-3), of db] by linarith
qed

subsection \<open>Properties\<close>

text \<open>
  A pool built from distinct connections hands every connection to at most one goroutine at a
  time: in every reachable state of the benchmark no two goroutines have the same connection, none
  has one that is also in the channel, and no more than the pool's connections are in use.
\<close>

theorem pool_exclusive:
  assumes "cp_built dbs s" and "distinct dbs" and "(cp_step exec n)\<^sup>*\<^sup>* s t"
  shows "(\<forall>i j db. i < length (cp_threads t) \<and> j < length (cp_threads t) \<and>
        db \<in> set (pc_conns (cp_threads t ! i)) \<and> db \<in> set (pc_conns (cp_threads t ! j)) \<longrightarrow> i = j) \<and>
    (\<forall>i db. i < length (cp_threads t) \<and> db \<in> set (pc_conns (cp_threads t ! i)) \<longrightarrow>
        db \<notin> set (buf (cp_ch (cp_pool t)))) \<and>
    size (cp_held t) \<le> length dbs"
proof -
  have "i = j"
    if "i < length (cp_threads t)" "j < length (cp_threads t)"
      "db \<in> set (pc_conns (cp_threads t ! i))" "db \<in> set (pc_conns (cp_threads t ! j))" for i j db
    using holdings_two [OF that(1,2) _ that(3,4)] cp_run_once [OF assms, of db]
    by (fastforce simp: cp_held_def)
  moreover have "size (cp_held t) \<le> length dbs"
    using cp.run_holders [OF assms(3) TrueI cp_built_start(1,2) [OF assms(1)]]
      cp_built_start(3) [OF assms(1)] by simp
  ultimately show ?thesis using cp_held_not_in_channel [OF assms] by blast
qed

text \<open>
  When no query fails, the pooled benchmark always finishes: a run has at most 251 steps, a
  run that cannot go on has brought the wait group to zero with all 50 goroutines done and the
  channel holding again exactly the connections it was built from, and such an end is reachable
  from every state.
\<close>

theorem pool_benchmark_finishes:
  assumes "benchmarkConnectionPool open maxc = Ready s" and "\<forall>j < 10. open j = Inr (f j)"
    and "\<forall>i. exec i = None" and "(cp_step exec 50 ^^ m) s t"
  shows "m \<le> 251 \<and>
    ((\<nexists>u. cp_step exec 50 t u) \<longrightarrow>
       cp_crashed t = None \<and> list_all (\<lambda>pc. pc = CPDone) (cp_threads t) \<and>
       length (cp_threads t) = 50 \<and> cp_wg t = 0 \<and>
       mset (buf (cp_ch (cp_pool t))) = mset (map f [0..<10])) \<and>
    (\<exists>u. (cp_step exec 50)\<^sup>*\<^sup>* t u \<and> cp_all_done 50 u)"
proof -
  have s: "s = \<lparr>cp_pool = \<lparr>maxConn = 10, cp_ch = \<lparr>buf = map f [0..<10], cap = 10, closed = False\<rparr>\<rparr>,
      cp_wg = 0, cp_threads = [], cp_crashed = None\<rparr>"
    using assms(1) NewConnectionPool_Ready [of 10 "open" f] assms(2)
    by (simp add: benchmarkConnectionPool_def)
  have b: "cp_built (map f [0..<10]) s" by (simp add: s cp_built_def)
  have run: "(cp_step exec 50)\<^sup>*\<^sup>* s t" using assms(4) by (rule relpowp_imp_rtranclp)
  have "m + cp_variant 50 t \<le> cp_variant 50 s"
    by (rule cp_live.run_length [OF assms(4) cp_built_inv [OF b]])
  then have "m \<le> 251" by (simp add: cp_variant_def s)
  have "cp_crashed t = None"
    using run by (induction rule: rtranclp_induct) (auto simp: s assms(3) elim: cp_step.cases)
  have inv: "cp_inv (map f [0..<10]) 50 t" by (rule cp_live.reachable_inv [OF b run])
  have "cp_held t = {#}" if "list_all (\<lambda>pc. pc = CPDone) (cp_threads t)"
    using that by (auto simp: cp_held_def holdings_def list_all_iff)
  with \<open>cp_crashed t = None\<close> inv cp_live.stuck_final [OF b run]
  have "(\<nexists>u. cp_step exec 50 t u) \<longrightarrow>
       cp_crashed t = None \<and> list_all (\<lambda>pc. pc = CPDone) (cp_threads t) \<and>
       length (cp_threads t) = 50 \<and> cp_wg t = 0 \<and>
       mset (buf (cp_ch (cp_pool t))) = mset (map f [0..<10])"
    by (auto simp: cp_all_done_def cp_inv_def)
  with \<open>m \<le> 251\<close> cp_live.reaches_final [OF b run] show ?thesis by blast
qed

text \<open>
  One failing query takes the benchmark's process down while it still holds its connection:
  the crashed state is final, the connection is missing from the channel and the wait group has not
  reached zero.
\<close>

theorem pool_query_error_crashes:
  assumes "cp_built dbs s" and "(cp_step exec n)\<^sup>*\<^sup>* s t" and "cp_crashed t = None"
    and "i < length (cp_threads t)" and "cp_threads t ! i = CPHolding db" and "exec i = Some err"
    and "distinct dbs"
  shows "\<exists>u. cp_step exec n t u \<and> cp_crashed u = Some (PanicValue err) \<and>
    (\<nexists>v. cp_step exec n u v) \<and> db \<notin> set (buf (cp_ch (cp_pool u))) \<and> 0 < cp_wg u"
proof -
  let ?u = "t\<lparr>cp_crashed := Some (PanicValue err)\<rparr>"
  have st: "cp_step exec n t ?u" using assms(3-6) by (rule cp_step.query_error)
  have "\<nexists>v. cp_step exec n ?u v" by (auto elim: cp_step.cases)
  moreover have "db \<notin> set (buf (cp_ch (cp_pool t)))"
    using cp_held_not_in_channel [OF assms(1,7,2,4)] assms(5) by simp
  moreover have "0 < cp_wg t"
    using cp_live.reachable_inv [OF assms(1,2)] tally_pos [OF assms(4), of "\<lambda>pc. pc \<noteq> CPDone"] assms(5)
    by (simp add: cp_inv_def)
  ultimately show ?thesis using st by (intro exI [of _ ?u]) simp
qed

subsubsection \<open>Witnesses\<close>

text \<open>A pool of two connections, and the run in which goroutine 0 takes connection 7.\<close>

definition cp_two :: "conn list \<Rightarrow> cp_pc list \<Rightarrow> cp_sys" where
  "cp_two free pcs =
     \<lparr>cp_pool = \<lparr>maxConn = 2, cp_ch = \<lparr>buf = free, cap = 2, closed = False\<rparr>\<rparr>,
      cp_wg = int (length pcs), cp_threads = pcs, cp_crashed = None\<rparr>"

lemma cp_two_built: "cp_built [7, 8] (cp_two [7, 8] [])"
  by (simp add: cp_built_def cp_two_def)

lemma cp_two_run: "(cp_step exec 2)\<^sup>*\<^sup>* (cp_two [7, 8] []) (cp_two [8] [CPHolding 7])"
proof -
  have "cp_step exec 2 (cp_two [7, 8] []) (cp_two [7, 8] [CPStart])"
    using cp_step.spawn [of "cp_two [7, 8] []" 2 exec] by (simp add: cp_two_def)
  moreover have "cp_step exec 2 (cp_two [7, 8] [CPStart]) (cp_two [8] [CPHolding 7])"
    using cp_step.get [of "cp_two [7, 8] [CPStart]" 0 7 _ exec 2]
    by (simp add: cp_two_def cp_Get_def chan_recv_def)
  ultimately show ?thesis by (meson converse_rtranclp_into_rtranclp rtranclp.rtrancl_refl)
qed

theorem pool_exclusive_witness:
  "size (cp_held (cp_two [8] [CPHolding 7])) \<le> length [7 :: conn, 8] \<and>
   7 \<notin> set (buf (cp_ch (cp_pool (cp_two [8] [CPHolding 7]))))"
  using pool_exclusive [OF cp_two_built _ cp_two_run [of "\<lambda>_. None"]] by (simp add: cp_two_def)

theorem pool_benchmark_finishes_witness:
  "\<exists>s u. benchmarkConnectionPool (\<lambda>i. Inr (100 + i)) 25 = Ready s \<and>
    (cp_step (\<lambda>_. None) 50)\<^sup>*\<^sup>* s u \<and> cp_all_done 50 u"
proof -
  obtain s where s: "benchmarkConnectionPool (\<lambda>i. Inr (100 + i)) 25 = Ready s"
    using NewConnectionPool_Ready [of 10 "\<lambda>i. Inr (100 + i)" "\<lambda>i. 100 + i"]
    by (simp add: benchmarkConnectionPool_def)
  from pool_benchmark_finishes [OF s, of "\<lambda>i. 100 + i" "\<lambda>_. None" 0 s] s show ?thesis by auto
qed

theorem pool_query_error_crashes_witness:
  "\<exists>u. cp_step (\<lambda>_. Some ''timeout'') 2 (cp_two [8] [CPHolding 7]) u \<and>
    cp_crashed u = Some (PanicValue ''timeout'') \<and> 0 < cp_wg u"
  using pool_query_error_crashes
    [OF cp_two_built cp_two_run [of "\<lambda>_. Some ''timeout''"], of 0 7 "''timeout''"]
  by (auto simp: cp_two_def)

end
