(* ===== verification/Production_Pool.thy ===== *)
theory Production_Pool
  imports Connection_Pool
begin

text \<open>
  \<open>benchmarkProductionPool\<close> of \<open>connectionPool/main.go\<close>: goroutines that share the \<open>sql.DB\<close>
  configured by \<open>initDBPool\<close>. Of the database library the model has the documented limit of
  \<open>SetMaxOpenConns\<close> (\<open>Exec\<close> waits while that many connections are in use, and gives its
  connection back when it returns, with or without an error); what \<open>Exec\<close> returns to goroutine
  \<open>i\<close> is a parameter. The system is an instance of \<open>live_system\<close>.
\<close>

subsection \<open>The system\<close>

datatype pb_pc = PBStart | PBRunning | PBFailed string | PBReturning | PBDone

record pb_sys =
  pb_db :: sqlDB
  pb_inuse :: int
  pb_wg :: int
  pb_threads :: "pb_pc list"
  pb_log :: "(nat \<times> string) list"

definition conn_available :: "pb_sys \<Rightarrow> bool" where
  "conn_available s \<longleftrightarrow> maxOpen (pb_db s) \<le> 0 \<or> pb_inuse s < maxOpen (pb_db s)"

text \<open>
  A failed query is logged under the goroutine's \<open>queryID\<close>, its number counted from one; the
  deferred \<open>wg.Done\<close> runs on both ways out.
\<close>

inductive pb_step :: "(nat \<Rightarrow> string option) \<Rightarrow> nat \<Rightarrow> pb_sys \<Rightarrow> pb_sys \<Rightarrow> bool" for exec n where
  pb_spawn: "length (pb_threads s) < n \<Longrightarrow>
    pb_step exec n s (s\<lparr>pb_wg := pb_wg s + 1, pb_threads := pb_threads s @ [PBStart]\<rparr>)"
| pb_acquire: "i < length (pb_threads s) \<Longrightarrow> pb_threads s ! i = PBStart \<Longrightarrow> conn_available s \<Longrightarrow>
    pb_step exec n s (s\<lparr>pb_inuse := pb_inuse s + 1, pb_threads := (pb_threads s)[i := PBRunning]\<rparr>)"
| pb_exec: "i < length (pb_threads s) \<Longrightarrow> pb_threads s ! i = PBRunning \<Longrightarrow> exec i = None \<Longrightarrow>
    pb_step exec n s (s\<lparr>pb_inuse := pb_inuse s - 1, pb_threads := (pb_threads s)[i := PBReturning]\<rparr>)"
| pb_exec_error: "i < length (pb_threads s) \<Longrightarrow> pb_threads s ! i = PBRunning \<Longrightarrow> exec i = Some err \<Longrightarrow>
    pb_step exec n s (s\<lparr>pb_inuse := pb_inuse s - 1, pb_threads := (pb_threads s)[i := PBFailed err]\<rparr>)"
| pb_log_error: "i < length (pb_threads s) \<Longrightarrow> pb_threads s ! i = PBFailed err \<Longrightarrow>
    pb_step exec n s (s\<lparr>pb_log := pb_log s @ [(i + 1, err)], pb_threads := (pb_threads s)[i := PBReturning]\<rparr>)"
| pb_wg_done: "i < length (pb_threads s) \<Longrightarrow> pb_threads s ! i = PBReturning \<Longrightarrow>
    pb_step exec n s (s\<lparr>pb_wg := pb_wg s - 1, pb_threads := (pb_threads s)[i := PBDone]\<rparr>)"

definition benchmarkProductionPool :: "sqlDB \<Rightarrow> pb_sys" where
  "benchmarkProductionPool pool =
     \<lparr>pb_db = pool, pb_inuse = 0, pb_wg = 0, pb_threads = [], pb_log = []\<rparr>"

text \<open>\<open>wg.Wait\<close> returns once all goroutines were started and the wait group is back at zero.\<close>

definition pb_final :: "nat \<Rightarrow> pb_sys \<Rightarrow> bool" where
  "pb_final n s \<longleftrightarrow> length (pb_threads s) = n \<and> pb_wg s = 0"

subsection \<open>Invariant and variant\<close>

definition pb_logged :: "pb_pc \<Rightarrow> bool" where
  "pb_logged pc \<longleftrightarrow> pc = PBReturning \<or> pc = PBDone"

definition pb_counts :: "nat \<Rightarrow> pb_sys \<Rightarrow> bool" where
  "pb_counts n s \<longleftrightarrow>
     length (pb_threads s) \<le> n \<and>
     pb_wg s = int (tally (\<lambda>pc. pc \<noteq> PBDone) (pb_threads s)) \<and>
     pb_inuse s = int (tally (\<lambda>pc. pc = PBRunning) (pb_threads s)) \<and>
     (0 < maxOpen (pb_db s) \<longrightarrow> pb_inuse s \<le> maxOpen (pb_db s))"

definition pb_log_ok :: "(nat \<Rightarrow> string option) \<Rightarrow> pb_sys \<Rightarrow> bool" where
  "pb_log_ok exec s \<longleftrightarrow>
     (\<forall>i < length (pb_threads s). \<forall>err. pb_threads s ! i = PBFailed err \<longrightarrow> exec i = Some err) \<and>
     distinct (pb_log s) \<and>
     set (pb_log s) =
       {(i + 1, err) | i err. i < length (pb_threads s) \<and> pb_logged (pb_threads s ! i) \<and> exec i = Some err}"

fun pb_todo :: "pb_pc \<Rightarrow> nat" where
  "pb_todo PBStart = 4"
| "pb_todo PBRunning = 3"
| "pb_todo (PBFailed err) = 2"
| "pb_todo PBReturning = 1"
| "pb_todo PBDone = 0"

definition pb_variant :: "nat \<Rightarrow> pb_sys \<Rightarrow> nat" where
  "pb_variant n s = 5 * (n - length (pb_threads s)) + weight pb_todo (pb_threads s)"

lemma pb_step_counts: "pb_counts n s \<Longrightarrow> pb_step exec n s t \<Longrightarrow> pb_counts n t"
proof -
  assume inv: "pb_counts n s" and "pb_step exec n s t"
  note upd = tally_update [of _ "pb_threads s" "\<lambda>pc. pc \<noteq> PBDone"]
    tally_update [of _ "pb_threads s" "\<lambda>pc. pc = PBRunning"]
  from \<open>pb_step exec n s t\<close> show ?thesis
  proof cases
    case pb_spawn
    with inv show ?thesis by (auto simp: pb_counts_def)
  next
    case (pb_acquire i)
    with inv upd [of i PBRunning] show ?thesis by (auto simp: pb_counts_def conn_available_def)
  next
    case (pb_exec i)
    with inv upd [of i PBReturning] show ?thesis by (auto simp: pb_counts_def)
  next
    case (pb_exec_error i err)
    with inv upd [of i "PBFailed err"] show ?thesis by (auto simp: pb_counts_def)
  next
    case (pb_log_error i err)
    with inv upd [of i PBReturning] show ?thesis by (auto simp: pb_counts_def)
  next
    case (pb_wg_done i)
    with inv upd [of i PBDone] show ?thesis by (auto simp: pb_counts_def)
  qed
qed

text \<open>A goroutine that moves on without leaving or entering the logged states keeps the log right.\<close>

lemma pb_log_ok_update:
  assumes "pb_log_ok exec s" and "i < length (pb_threads s)"
    and "pb_threads t = (pb_threads s)[i := pc]" and "pb_log t = pb_log s"
    and "exec i = None \<or> (pb_logged pc \<longleftrightarrow> pb_logged (pb_threads s ! i))"
    and "\<And>err. pc = PBFailed err \<Longrightarrow> exec i = Some err"
  shows "pb_log_ok exec t"
proof -
  have "pb_logged (pb_threads t ! j) \<and> exec j = Some err \<longleftrightarrow> pb_logged (pb_threads s ! j) \<and> exec j = Some err"
    if "j < length (pb_threads s)" for j err
    using assms(2,3,5) that by (cases "j = i") auto
  then have "{(i + 1, err) | i err. i < length (pb_threads t) \<and> pb_logged (pb_threads t ! i) \<and> exec i = Some err}
      = {(i + 1, err) | i err. i < length (pb_threads s) \<and> pb_logged (pb_threads s ! i) \<and> exec i = Some err}"
    using assms(3) by auto
  moreover have "exec j = Some err" if "j < length (pb_threads t)" "pb_threads t ! j = PBFailed err" for j err
    using that assms by (cases "j = i") (auto simp: pb_log_ok_def)
  ultimately show ?thesis using assms(1,4) unfolding pb_log_ok_def by metis
qed

lemma pb_step_log: "pb_log_ok exec s \<Longrightarrow> pb_step exec n s t \<Longrightarrow> pb_log_ok exec t"
proof -
  assume inv: "pb_log_ok exec s" and "pb_step exec n s t"
  from \<open>pb_step exec n s t\<close> show ?thesis
  proof cases
    case pb_spawn
    with inv show ?thesis by (auto simp: pb_log_ok_def pb_logged_def nth_append less_Suc_eq)
  next
    case (pb_acquire i)
    with inv show ?thesis by (auto intro!: pb_log_ok_update [of exec s i _ PBRunning] simp: pb_logged_def)
  next
    case (pb_exec i)
    with inv show ?thesis by (auto intro!: pb_log_ok_update [of exec s i _ PBReturning])
  next
    case (pb_exec_error i err)
    with inv show ?thesis by (auto intro!: pb_log_ok_update [of exec s i _ "PBFailed err"] simp: pb_logged_def)
  next
    case (pb_log_error i err)
    then have e: "exec i = Some err" using inv by (auto simp: pb_log_ok_def)
    have "set (pb_log t) =
      {(j + 1, e) | j e. j < length (pb_threads t) \<and> pb_logged (pb_threads t ! j) \<and> exec j = Some e}"
      using inv pb_log_error e by (auto simp: pb_log_ok_def nth_list_update pb_logged_def split: if_splits)
    moreover have "(i + 1, err) \<notin> set (pb_log s)"
      using inv pb_log_error by (auto simp: pb_log_ok_def pb_logged_def)
    ultimately show ?thesis using inv pb_log_error
      by (auto simp: pb_log_ok_def nth_list_update split: if_splits)
  next
    case (pb_wg_done i)
    with inv show ?thesis by (auto intro!: pb_log_ok_update [of exec s i _ PBDone] simp: pb_logged_def)
  qed
qed

lemma pb_step_variant: "pb_step exec n s t \<Longrightarrow> pb_variant n t < pb_variant n s"
  by (cases rule: pb_step.cases) (auto simp: pb_variant_def intro!: weight_update_less)

lemma pb_step_db: "pb_step exec n s t \<Longrightarrow> pb_db t = pb_db s"
  by (cases rule: pb_step.cases) auto

text \<open>Whoever waits for a connection waits for a goroutine that has one and can go on.\<close>

lemma pb_running_steps:
  "i < length (pb_threads s) \<Longrightarrow> pb_threads s ! i = PBRunning \<Longrightarrow> \<exists>t. pb_step exec n s t"
  by (cases "exec i") (blast intro: pb_step.intros)+

lemma pb_step_progress:
  assumes "pb_counts n s" and "\<not> pb_final n s"
  shows "\<exists>t. pb_step exec n s t"
proof (cases "length (pb_threads s) < n")
  case False
  then have "0 < tally (\<lambda>pc. pc \<noteq> PBDone) (pb_threads s)"
    using assms by (auto simp: pb_counts_def pb_final_def)
  then obtain i where i: "i < length (pb_threads s)" "pb_threads s ! i \<noteq> PBDone"
    by (auto simp: tally_pos_iff)
  show ?thesis
  proof (cases "pb_threads s ! i")
    case PBStart
    show ?thesis
    proof (cases "conn_available s")
      case False
      then have "0 < tally (\<lambda>pc. pc = PBRunning) (pb_threads s)"
        using assms(1) by (auto simp: pb_counts_def conn_available_def)
      then show ?thesis by (auto simp: tally_pos_iff intro: pb_running_steps)
    qed (use i PBStart in \<open>blast intro: pb_step.pb_acquire\<close>)
  qed (use i in \<open>blast intro: pb_step.intros pb_running_steps\<close>)+
qed (blast intro: pb_step.pb_spawn)

interpretation pb: live_system "\<lambda>s. s = benchmarkProductionPool pool" "pb_step exec n"
  "\<lambda>s. pb_counts n s \<and> pb_log_ok exec s \<and> pb_db s = pool" "pb_variant n" "pb_final n" for pool exec n
proof unfold_locales
  fix s t
  show "s = benchmarkProductionPool pool \<Longrightarrow> pb_counts n s \<and> pb_log_ok exec s \<and> pb_db s = pool"
    by (simp add: benchmarkProductionPool_def pb_counts_def pb_log_ok_def)
qed (auto intro: pb_step_counts pb_step_log pb_step_variant pb_step_progress dest: pb_step_db)

lemma pb_final_threads:
  assumes "pb_counts n t" and "pb_final n t"
  shows "list_all (\<lambda>pc. pc = PBDone) (pb_threads t)"
proof -
  have "\<not> 0 < tally (\<lambda>pc. pc \<noteq> PBDone) (pb_threads t)"
    using assms by (simp add: pb_counts_def pb_final_def)
  then show ?thesis by (auto simp: tally_pos_iff list_all_length)
qed

lemma pb_final_log:
  assumes "pb_counts n t" and "pb_final n t" and "pb_log_ok exec t"
  shows "pb_inuse t = 0 \<and> distinct (pb_log t) \<and>
    set (pb_log t) = {(i + 1, err) | i err. i < n \<and> exec i = Some err}"
proof -
  have d: "pb_threads t ! i = PBDone" if "i < n" for i
    using pb_final_threads [OF assms(1,2)] assms(2) that by (auto simp: list_all_length pb_final_def)
  then have "\<not> 0 < tally (\<lambda>pc. pc = PBRunning) (pb_threads t)"
    using assms(2) by (auto simp: tally_pos_iff pb_final_def)
  moreover have "set (pb_log t) = {(i + 1, err) | i err. i < n \<and> exec i = Some err}"
    using assms(2,3) d by (auto simp: pb_log_ok_def pb_final_def pb_logged_def)
  ultimately show ?thesis using assms(1,3) by (simp add: pb_counts_def pb_log_ok_def)
qed

subsection \<open>Properties\<close>

text \<open>
  C30. The benchmark over the configured \<open>sql.DB\<close>: never more than ten connections are in use; every
  run has at most five steps per query; a run that cannot go on has brought the wait group to zero with
  no connection left in use, and its log holds exactly one line for every failed query, with its
  number and its error, so a failing query neither stops the others nor loses its connection; and
  such an end is reachable from every state.
\<close>

theorem production_pool_benchmark:
  assumes "initDBPool opened ping = Inr pool"
    and "(pb_step exec n ^^ m) (benchmarkProductionPool pool) t"
  shows "pb_inuse t \<le> 10 \<and> m \<le> 5 * n \<and>
    ((\<nexists>u. pb_step exec n t u) \<longrightarrow>
       pb_final n t \<and> pb_inuse t = 0 \<and> distinct (pb_log t) \<and>
       set (pb_log t) = {(i + 1, err) | i err. i < n \<and> exec i = Some err}) \<and>
    (\<exists>u. (pb_step exec n)\<^sup>*\<^sup>* t u \<and> pb_final n u)"
proof -
  have pool: "maxOpen pool = 10"
    using assms(1) by (auto simp: initDBPool_def Let_def SetMaxOpenConns_def SetMaxIdleConns_def
        maxIdleConns_def split: sum.splits option.splits)
  have run: "(pb_step exec n)\<^sup>*\<^sup>* (benchmarkProductionPool pool) t"
    using assms(2) by (rule relpowp_imp_rtranclp)
  have inv: "pb_counts n t \<and> pb_log_ok exec t \<and> pb_db t = pool"
    by (rule pb.reachable_inv [OF refl run])
  have "m + pb_variant n t \<le> pb_variant n (benchmarkProductionPool pool)"
    by (rule pb.run_length [OF assms(2) pb.init_inv [OF refl]])
  then have "m \<le> 5 * n" by (simp add: pb_variant_def benchmarkProductionPool_def)
  moreover have "pb_inuse t \<le> 10" using inv pool by (auto simp: pb_counts_def)
  moreover have "pb_final n t" if "\<nexists>u. pb_step exec n t u" using pb.stuck_final [OF refl run that] .
  ultimately show ?thesis using pb.reaches_final [OF refl run] pb_final_log inv by meson
qed

theorem production_pool_benchmark_witness:
  "\<exists>pool u. initDBPool (Inr ()) None = Inr pool \<and>
    (pb_step (\<lambda>i. if i = 3 then Some ''timeout'' else None) 500)\<^sup>*\<^sup>* (benchmarkProductionPool pool) u \<and>
    pb_final 500 u"
proof -
  obtain pool where pool: "initDBPool (Inr ()) None = Inr pool" by (simp add: initDBPool_def Let_def)
  show ?thesis
    using production_pool_benchmark [OF pool, where m = 0 and n = 500
        and exec = "\<lambda>i. if i = 3 then Some ''timeout'' else None"] pool by auto
qed

end
