(* ===== verification/Pool_Refinement.thy ===== *)
theory Pool_Refinement
  imports Blocking_Queue Production_Pool
begin

text \<open>
  What a pool promises, as one abstract system, and that the three pools of the repository implement
  it: the connection pool of \<open>connectionPool/temp.go\<close> (its resources are the connections), the
  \<open>sql.DB\<close> benchmark of \<open>connectionPool/main.go\<close> (its resources are anonymous slots) and the
  blocking queue of \<open>blockingQ/main.go\<close> (as far as its tokens go; its objects are shared, see
  \<open>Blocking_Queue\<close>).
\<close>

subsection \<open>The specification\<close>

text \<open>Resources wait in line; a client that has none takes the first, a client gives its own back.\<close>

record 'r rpool =
  avail :: "'r list"
  owner :: "nat \<rightharpoonup> 'r"

inductive pool_step :: "'r rpool \<Rightarrow> 'r rpool \<Rightarrow> bool" where
  take_first: "owner p i = None \<Longrightarrow> avail p = r # rs \<Longrightarrow>
    pool_step p \<lparr>avail = rs, owner = (owner p)(i \<mapsto> r)\<rparr>"
| give_back: "owner p i = Some r \<Longrightarrow>
    pool_step p \<lparr>avail = avail p @ [r], owner = (owner p)(i := None)\<rparr>"

text \<open>With distinct resources: every resource is in line or has one owner, and none is lost.\<close>

definition pool_sound :: "'r set \<Rightarrow> 'r rpool \<Rightarrow> bool" where
  "pool_sound A p \<longleftrightarrow>
     distinct (avail p) \<and> inj_on (owner p) (dom (owner p)) \<and>
     set (avail p) \<inter> ran (owner p) = {} \<and> set (avail p) \<union> ran (owner p) = A"

lemma pool_step_sound: "pool_sound A p \<Longrightarrow> pool_step p q \<Longrightarrow> pool_sound A q"
proof (erule pool_step.cases)
  fix u i r rs
  assume *: "pool_sound A p" "p = u" "q = \<lparr>avail = rs, owner = (owner u)(i \<mapsto> r)\<rparr>" "owner u i = None" "avail u = r # rs"
  then have "owner u j \<noteq> Some r" for j by (auto simp: pool_sound_def ran_def)
  then have "inj_on (owner q) (dom (owner q))" using *(1-4) by (auto simp: pool_sound_def inj_on_def dom_def)
  then show "pool_sound A q" using * by (auto simp: pool_sound_def)
next
  fix u i r
  assume *: "pool_sound A p" "p = u" "q = \<lparr>avail = avail u @ [r], owner = (owner u)(i := None)\<rparr>" "owner u i = Some r"
  then have "j = i" if "owner u j = Some r" for j using that by (auto simp: pool_sound_def inj_on_def dom_def)
  then have "b \<in> ran ((owner u)(i := None)) \<longleftrightarrow> b \<in> ran (owner u) \<and> b \<noteq> r" for b
    using *(4) unfolding ran_def mem_Collect_eq fun_upd_apply by (metis option.discI option.inject)
  then have "ran ((owner u)(i := None)) = ran (owner u) - {r}" by blast
  moreover have "r \<in> ran (owner u)" using *(4) by (auto simp: ran_def)
  ultimately show "pool_sound A q" using * by (auto simp: pool_sound_def inj_on_def dom_def)
qed

text \<open>What the goroutines of a system own, read off their positions.\<close>

definition owner_of :: "('p \<Rightarrow> 'r option) \<Rightarrow> 'p list \<Rightarrow> nat \<rightharpoonup> 'r" where
  "owner_of h pcs i = (if i < length pcs then h (pcs ! i) else None)"

lemma owner_of_Nil [simp]: "owner_of h [] = Map.empty"
  by (simp add: owner_of_def fun_eq_iff)

lemma owner_of_spawn [simp]: "h pc = None \<Longrightarrow> owner_of h (pcs @ [pc]) = owner_of h pcs"
  by (auto simp: owner_of_def fun_eq_iff nth_append)

lemma owner_of_update [simp]: "i < length pcs \<Longrightarrow> owner_of h (pcs[i := pc]) = (owner_of h pcs)(i := h pc)"
  by (auto simp: owner_of_def fun_eq_iff nth_list_update)

lemma owner_of_nth: "i < length pcs \<Longrightarrow> owner_of h pcs i = h (pcs ! i)"
  by (simp add: owner_of_def)

lemmas owner_of_same = owner_of_nth fun_upd_idem_iff

subsection \<open>The connection pool\<close>

fun cp_conn :: "cp_pc \<Rightarrow> conn option" where
  "cp_conn (CPHolding db) = Some db"
| "cp_conn (CPQueried db) = Some db"
| "cp_conn _ = None"

definition cp_abs :: "cp_sys \<Rightarrow> conn rpool" where
  "cp_abs s = \<lparr>avail = buf (cp_ch (cp_pool s)), owner = owner_of cp_conn (cp_threads s)\<rparr>"

lemma cp_step_refines:
  assumes "cp_inv dbs n s" and "cp_step exec n s t"
  shows "cp_abs t = cp_abs s \<or> pool_step (cp_abs s) (cp_abs t)"
proof -
  have open_ch: "\<not> closed (cp_ch (cp_pool s))" using assms(1) by (simp add: cp_inv_def chan_ok_def)
  from assms(2) show ?thesis
  proof cases
    case (get i db cp')
    then have "buf (cp_ch (cp_pool s)) = db # buf (cp_ch cp')"
      using open_ch by (auto simp: cp_Get_Ready_conv chan_recv_Ready_open_conv)
    with get pool_step.take_first [of "cp_abs s" i db "buf (cp_ch cp')"] show ?thesis
      by (simp add: cp_abs_def owner_of_nth)
  next
    case (put i db cp')
    then have "buf (cp_ch cp') = buf (cp_ch (cp_pool s)) @ [db]"
      by (auto simp: cp_Put_Ready_conv chan_send_Ready_conv)
    with put pool_step.give_back [of "cp_abs s" i db] show ?thesis by (simp add: cp_abs_def owner_of_nth)
  qed (auto simp: cp_abs_def owner_of_same)
qed

interpretation cp_ref: refinement "cp_built dbs" "cp_step exec n" "cp_inv dbs n" pool_step cp_abs for dbs exec n
  by unfold_locales (rule cp_step_refines)

subsection \<open>The built-in pool\<close>

fun pb_slot :: "pb_pc \<Rightarrow> unit option" where
  "pb_slot PBRunning = Some ()"
| "pb_slot _ = None"

definition pb_abs :: "pb_sys \<Rightarrow> unit rpool" where
  "pb_abs s = \<lparr>avail = replicate (nat (maxOpen (pb_db s) - pb_inuse s)) (), owner = owner_of pb_slot (pb_threads s)\<rparr>"

lemma replicate_unit_Suc: "replicate k () @ [()] = replicate (Suc k) ()"
  by (simp add: replicate_append_same)

lemma pb_release:
  assumes "i < length (pb_threads s)" and "pb_threads s ! i = PBRunning" and "pb_inuse s \<le> maxOpen (pb_db s)"
    and "t = s\<lparr>pb_inuse := pb_inuse s - 1, pb_threads := (pb_threads s)[i := pc]\<rparr>" and "pb_slot pc = None"
  shows "pool_step (pb_abs s) (pb_abs t)"
proof -
  have "nat (maxOpen (pb_db s) - (pb_inuse s - 1)) = Suc (nat (maxOpen (pb_db s) - pb_inuse s))"
    using assms(3) by simp
  with assms pool_step.give_back [of "pb_abs s" i "()"] show ?thesis
    by (simp add: pb_abs_def owner_of_nth replicate_unit_Suc)
qed

lemma pb_step_refines:
  assumes "pb_counts n s" and "0 < maxOpen (pb_db s)" and "pb_step exec n s t"
  shows "pb_abs t = pb_abs s \<or> pool_step (pb_abs s) (pb_abs t)"
  using assms(3)
proof cases
  case (pb_acquire i)
  then have "nat (maxOpen (pb_db s) - pb_inuse s) = Suc (nat (maxOpen (pb_db s) - (pb_inuse s + 1)))"
    using assms(2) by (simp add: conn_available_def)
  then have "avail (pb_abs s) = () # replicate (nat (maxOpen (pb_db s) - (pb_inuse s + 1))) ()" by (simp add: pb_abs_def)
  from pool_step.take_first [OF _ this, of i] pb_acquire show ?thesis by (simp add: pb_abs_def owner_of_nth)
next
  case (pb_exec i)
  with pb_release [OF pb_exec(2,3) _ pb_exec(1)] assms(1,2) show ?thesis by (simp add: pb_counts_def)
next
  case (pb_exec_error i err)
  with pb_release [OF pb_exec_error(2,3) _ pb_exec_error(1)] assms(1,2) show ?thesis by (simp add: pb_counts_def)
qed (auto simp: pb_abs_def owner_of_same)

interpretation pb_ref: refinement "\<lambda>s. s = benchmarkProductionPool pool \<and> 0 < maxOpen pool" "pb_step exec n"
  "\<lambda>s. (pb_counts n s \<and> pb_log_ok exec s \<and> pb_db s = pool) \<and> 0 < maxOpen pool" pool_step pb_abs for pool exec n
proof unfold_locales
  fix s
  show "s = benchmarkProductionPool pool \<and> 0 < maxOpen pool \<Longrightarrow>
      (pb_counts n s \<and> pb_log_ok exec s \<and> pb_db s = pool) \<and> 0 < maxOpen pool"
    using pb.init_inv [of s pool n exec] by blast
next
  fix s t
  assume *: "(pb_counts n s \<and> pb_log_ok exec s \<and> pb_db s = pool) \<and> 0 < maxOpen pool" "pb_step exec n s t"
  then show "(pb_counts n t \<and> pb_log_ok exec t \<and> pb_db t = pool) \<and> 0 < maxOpen pool"
    using pb.step_inv [of n s exec pool t] by blast
  from * pb_step_refines show "pb_abs t = pb_abs s \<or> pool_step (pb_abs s) (pb_abs t)" by blast
qed

subsection \<open>The tokens of the blocking queue\<close>

fun bq_slot :: "'o user_pc \<Rightarrow> unit option" where
  "bq_slot (Holding _) = Some ()"
| "bq_slot _ = None"

definition bq_abs :: "'o bq_sys \<Rightarrow> unit rpool" where
  "bq_abs s = \<lparr>avail = map (\<lambda>_. ()) (buf (bq_ch s)), owner = owner_of bq_slot (bq_users s)\<rparr>"

lemma bq_step_refines:
  assumes "bq_inv k n s" and "bq_step n s t"
  shows "bq_abs t = bq_abs s \<or> pool_step (bq_abs s) (bq_abs t)"
proof -
  have open_ch: "\<not> closed (bq_ch s)" using assms(1) by (simp add: bq_inv_def chan_ok_def)
  from assms(2) show ?thesis
  proof cases
    case (get i ob copy ch')
    then have "avail (bq_abs s) = () # map (\<lambda>_. ()) (buf ch')"
      using open_ch by (auto simp: bq_Get_Ready_conv chan_recv_Ready_open_conv bq_abs_def)
    from pool_step.take_first [OF _ this, of i] get show ?thesis by (simp add: bq_abs_def owner_of_nth)
  next
    case (put i ob copy ch')
    then have "map (\<lambda>_. ()) (buf ch') = avail (bq_abs s) @ [()]"
      by (auto simp: bq_Put_Ready_conv chan_send_Ready_conv bq_abs_def)
    with put pool_step.give_back [of "bq_abs s" i "()"] show ?thesis by (simp add: bq_abs_def owner_of_nth)
  qed (auto simp: bq_abs_def owner_of_same)
qed

interpretation bq_ref: refinement "bq_built k" "bq_step n" "bq_inv k n" pool_step bq_abs for k n
  by unfold_locales (rule bq_step_refines)

subsection \<open>Properties\<close>

text \<open>
  C12. The connection pool implements the abstract pool: every run of the pooled benchmark, whatever the
  queries return, is a run of the specification in which waiting connections are handed out in the order in which
  they were given back. Hence at every moment each of the distinct connections it was built from is
  either in the channel or with exactly one goroutine, and none is lost.
\<close>

theorem pool_refines_spec:
  assumes "cp_built dbs s" and "distinct dbs" and "(cp_step exec n)\<^sup>*\<^sup>* s t"
  shows "pool_step\<^sup>*\<^sup>* \<lparr>avail = dbs, owner = Map.empty\<rparr> (cp_abs t) \<and> pool_sound (set dbs) (cp_abs t)"
proof -
  have s: "cp_abs s = \<lparr>avail = dbs, owner = Map.empty\<rparr>" using assms(1) by (simp add: cp_built_def cp_abs_def)
  have "pool_sound (set dbs) (cp_abs s)" using assms(2) by (simp add: s pool_sound_def)
  then have "pool_sound (set dbs) (cp_abs t)"
    by (rule cp_ref.spec_invariant [OF assms(1,3)]) (rule pool_step_sound)
  with cp_ref.run_refines [OF assms(1,3)] show ?thesis by (simp add: s)
qed

text \<open>
  The built-in pool as configured by \<open>initDBPool\<close> and the tokens of the blocking queue implement
  the same specification, with ten slots and with as many as the queue has objects.
\<close>

theorem slots_refine_spec:
  assumes "initDBPool opened ping = Inr db" and "bq_built k q"
  shows "((pb_step exec n)\<^sup>*\<^sup>* (benchmarkProductionPool db) t \<longrightarrow>
      pool_step\<^sup>*\<^sup>* \<lparr>avail = replicate 10 (), owner = Map.empty\<rparr> (pb_abs t)) \<and>
    ((bq_step m)\<^sup>*\<^sup>* q u \<longrightarrow> pool_step\<^sup>*\<^sup>* \<lparr>avail = replicate k (), owner = Map.empty\<rparr> (bq_abs u))"
proof -
  have db: "maxOpen db = 10"
    using assms(1) by (auto simp: initDBPool_def Let_def SetMaxOpenConns_def SetMaxIdleConns_def
        maxIdleConns_def split: sum.splits option.splits)
  have "pb_abs (benchmarkProductionPool db) = \<lparr>avail = replicate 10 (), owner = Map.empty\<rparr>"
    by (simp add: pb_abs_def benchmarkProductionPool_def db)
  moreover have "bq_abs q = \<lparr>avail = replicate k (), owner = Map.empty\<rparr>"
    using assms(2) by (simp add: bq_built_def bq_abs_def map_replicate_const)
  ultimately show ?thesis
    using pb_ref.run_refines [of "benchmarkProductionPool db" db exec n t] db bq_ref.run_refines [OF assms(2), of m u] by auto
qed

subsubsection \<open>Witnesses\<close>

theorem pool_refines_spec_witness:
  "pool_step\<^sup>*\<^sup>* \<lparr>avail = [7, 8], owner = Map.empty\<rparr> (cp_abs (cp_two [8] [CPHolding 7])) \<and>
   owner (cp_abs (cp_two [8] [CPHolding 7])) 0 = Some 7"
  using pool_refines_spec [OF cp_two_built _ cp_two_run [of "\<lambda>_. None"]] by (simp add: cp_two_def cp_abs_def owner_of_def)

theorem slots_refine_spec_witness:
  "pool_step\<^sup>*\<^sup>* \<lparr>avail = replicate 2 (), owner = Map.empty\<rparr> (bq_abs (bq_two [Holding 1, Holding 1] 0))"
proof -
  obtain db where db: "initDBPool (Inr ()) None = Inr db" by (simp add: initDBPool_def Let_def)
  show ?thesis using slots_refine_spec [OF db bq_two_built] bq_two_run by blast
qed

end
