(* ===== verification/Plain_Benchmark.thy ===== *)
theory Plain_Benchmark
  imports Connection_Pool Go_Runs
begin

text \<open>
  \<open>benchmarkPlain\<close> (\<open>connectionPool/main.go\<close>, which \<open>main\<close> runs with 152 queries) and \<open>benchmarkPlain1\<close>
  (\<open>connectionPool/temp.go\<close>) as systems of goroutines over one database server. \<open>sql.Open\<close> connects to nothing;
  the first statement does, and the connection stays open until \<open>Close\<close>. The server is a parameter: how many connections it
  grants at once (beyond that it refuses with an error, and the library does not retry), which handles open and which
  statements succeed.
\<close>

subsection \<open>The goroutines\<close>

datatype plain_pc = PlStart | PlOpened | PlConnected | PlExecuted | PlDone

record plain_sys =
  pl_conns :: nat
  pl_queries :: nat
  pl_panicked :: bool
  pl_pcs :: "plain_pc list"

text \<open>
  A failed \<open>Open\<close> makes \<open>benchmarkPlain\<close> return and \<open>benchmarkPlain1\<close> (in \<open>newConn\<close>) panic; a panic ends the process,
  after the deferred \<open>Close\<close> and \<open>Done\<close> of its goroutine.
\<close>

inductive plain_step :: "bool \<Rightarrow> nat \<Rightarrow> (nat \<Rightarrow> bool) \<Rightarrow> (nat \<Rightarrow> bool) \<Rightarrow> plain_sys \<Rightarrow> plain_sys \<Rightarrow> bool"
    for open_panics limit opens execs where
  open_ok: "\<not> pl_panicked s \<Longrightarrow> i < length (pl_pcs s) \<Longrightarrow> pl_pcs s ! i = PlStart \<Longrightarrow> opens i \<Longrightarrow>
    plain_step open_panics limit opens execs s (s\<lparr>pl_pcs := (pl_pcs s)[i := PlOpened]\<rparr>)"
| open_failed: "\<not> pl_panicked s \<Longrightarrow> i < length (pl_pcs s) \<Longrightarrow> pl_pcs s ! i = PlStart \<Longrightarrow> \<not> opens i \<Longrightarrow>
    plain_step open_panics limit opens execs s
      (if open_panics then s\<lparr>pl_panicked := True\<rparr> else s\<lparr>pl_pcs := (pl_pcs s)[i := PlDone]\<rparr>)"
| connect: "\<not> pl_panicked s \<Longrightarrow> i < length (pl_pcs s) \<Longrightarrow> pl_pcs s ! i = PlOpened \<Longrightarrow> pl_conns s < limit \<Longrightarrow>
    plain_step open_panics limit opens execs s (s\<lparr>pl_conns := pl_conns s + 1, pl_pcs := (pl_pcs s)[i := PlConnected]\<rparr>)"
| refused: "\<not> pl_panicked s \<Longrightarrow> i < length (pl_pcs s) \<Longrightarrow> pl_pcs s ! i = PlOpened \<Longrightarrow> \<not> pl_conns s < limit \<Longrightarrow>
    plain_step open_panics limit opens execs s (s\<lparr>pl_panicked := True\<rparr>)"
| exec_ok: "\<not> pl_panicked s \<Longrightarrow> i < length (pl_pcs s) \<Longrightarrow> pl_pcs s ! i = PlConnected \<Longrightarrow> execs i \<Longrightarrow>
    plain_step open_panics limit opens execs s (s\<lparr>pl_queries := pl_queries s + 1, pl_pcs := (pl_pcs s)[i := PlExecuted]\<rparr>)"
| exec_failed: "\<not> pl_panicked s \<Longrightarrow> i < length (pl_pcs s) \<Longrightarrow> pl_pcs s ! i = PlConnected \<Longrightarrow> \<not> execs i \<Longrightarrow>
    plain_step open_panics limit opens execs s (s\<lparr>pl_panicked := True\<rparr>)"
| closes: "\<not> pl_panicked s \<Longrightarrow> i < length (pl_pcs s) \<Longrightarrow> pl_pcs s ! i = PlExecuted \<Longrightarrow>
    plain_step open_panics limit opens execs s (s\<lparr>pl_conns := pl_conns s - 1, pl_pcs := (pl_pcs s)[i := PlDone]\<rparr>)"

definition plain_init :: "nat \<Rightarrow> plain_sys" where
  "plain_init n = \<lparr>pl_conns = 0, pl_queries = 0, pl_panicked = False, pl_pcs = replicate n PlStart\<rparr>"

definition plain_final :: "plain_sys \<Rightarrow> bool" where
  "plain_final s \<longleftrightarrow> pl_panicked s \<or> list_all (\<lambda>pc. pc = PlDone) (pl_pcs s)"

text \<open>\<open>benchmarkPlain1\<close> starts fifty goroutines; \<open>main\<close> runs \<open>benchmarkPlain(152)\<close> and nothing else (\<open>dbPool\<close> stays nil).\<close>

definition benchmarkPlain1 :: plain_sys where
  "benchmarkPlain1 = plain_init 50"

definition pool_main :: plain_sys where
  "pool_main = plain_init 152"

subsection \<open>Invariant and progress\<close>

fun holds_conn :: "plain_pc \<Rightarrow> bool" where
  "holds_conn PlConnected = True"
| "holds_conn PlExecuted = True"
| "holds_conn _ = False"

fun queried :: "plain_pc \<Rightarrow> bool" where
  "queried PlExecuted = True"
| "queried PlDone = True"
| "queried _ = False"

fun plain_left :: "plain_pc \<Rightarrow> nat" where
  "plain_left PlStart = 4"
| "plain_left PlOpened = 3"
| "plain_left PlConnected = 2"
| "plain_left PlExecuted = 1"
| "plain_left PlDone = 0"

definition plain_inv :: "nat \<Rightarrow> nat \<Rightarrow> (nat \<Rightarrow> bool) \<Rightarrow> (nat \<Rightarrow> bool) \<Rightarrow> plain_sys \<Rightarrow> bool" where
  "plain_inv n limit opens execs s \<longleftrightarrow>
     length (pl_pcs s) = n \<and> pl_conns s = tally holds_conn (pl_pcs s) \<and> pl_conns s \<le> limit \<and>
     ((\<forall>i < n. opens i) \<longrightarrow> pl_queries s = tally queried (pl_pcs s)) \<and>
     ((\<forall>i < n. opens i \<and> execs i) \<and> pl_panicked s \<longrightarrow> limit < n)"

definition plain_variant :: "plain_sys \<Rightarrow> nat" where
  "plain_variant s = weight plain_left (pl_pcs s) + (if pl_panicked s then 0 else 1)"

lemma plain_init_inv: "plain_inv n limit opens execs (plain_init n)"
  by (simp add: plain_inv_def plain_init_def)

lemma plain_step_inv:
  assumes "plain_inv n limit opens execs s" and "plain_step p limit opens execs s t"
  shows "plain_inv n limit opens execs t"
  using assms(2)
proof cases
  case (open_ok i)
  with assms(1) tally_update [OF open_ok(3), of holds_conn PlOpened] tally_update [OF open_ok(3), of queried PlOpened]
  show ?thesis by (simp add: plain_inv_def)
next
  case (open_failed i)
  with assms(1) tally_update [OF open_failed(3), of holds_conn PlDone]
  show ?thesis by (auto simp: plain_inv_def)
next
  case (connect i)
  with assms(1) tally_update [OF connect(3), of holds_conn PlConnected] tally_update [OF connect(3), of queried PlConnected]
  show ?thesis by (simp add: plain_inv_def)
next
  case (refused i)
  have "tally holds_conn (pl_pcs s) < length (pl_pcs s)"
    using tally_le_length [of holds_conn "pl_pcs s"] tally_all [of holds_conn "pl_pcs s"] refused(3,4)
    by (fastforce simp: list_all_length)
  with refused assms(1) show ?thesis by (simp add: plain_inv_def)
next
  case (exec_ok i)
  with assms(1) tally_update [OF exec_ok(3), of holds_conn PlExecuted] tally_update [OF exec_ok(3), of queried PlExecuted]
  show ?thesis by (simp add: plain_inv_def)
next
  case (exec_failed i)
  with assms(1) show ?thesis by (auto simp: plain_inv_def)
next
  case (closes i)
  have "tally holds_conn ((pl_pcs s)[i := PlDone]) = tally holds_conn (pl_pcs s) - 1"
    using tally_update [OF closes(3), of holds_conn PlDone] closes(4) by simp
  with closes assms(1) tally_update [OF closes(3), of queried PlDone]
  show ?thesis by (auto simp: plain_inv_def)
qed

lemma plain_step_variant: "plain_step p limit opens execs s t \<Longrightarrow> plain_variant t < plain_variant s"
  by (induction rule: plain_step.induct) (auto simp: plain_variant_def intro!: weight_update_less)

lemma plain_progress: "\<not> plain_final s \<Longrightarrow> \<exists>t. plain_step p limit opens execs s t"
proof -
  assume "\<not> plain_final s"
  then obtain i where i: "\<not> pl_panicked s" "i < length (pl_pcs s)" "pl_pcs s ! i \<noteq> PlDone"
    by (auto simp: plain_final_def list_all_length)
  then show ?thesis
  proof (cases "pl_pcs s ! i")
    case PlStart
    with i show ?thesis by (cases "opens i") (blast intro: open_ok open_failed)+
  next
    case PlOpened
    with i show ?thesis by (cases "pl_conns s < limit") (blast intro: connect refused)+
  next
    case PlConnected
    with i show ?thesis by (cases "execs i") (blast intro: exec_ok exec_failed)+
  qed (use i in \<open>blast intro: closes\<close>)+
qed

interpretation plain: live_system "\<lambda>s. s = plain_init n" "plain_step p limit opens execs" "plain_inv n limit opens execs" plain_variant plain_final
  for n p limit opens execs
  by unfold_locales (auto intro: plain_init_inv plain_step_inv plain_step_variant plain_progress)

subsection \<open>A run that takes every connection\<close>

definition plain_taken :: "nat \<Rightarrow> nat \<Rightarrow> plain_sys" where
  "plain_taken n k = \<lparr>pl_conns = k, pl_queries = 0, pl_panicked = False,
     pl_pcs = replicate k PlConnected @ replicate (n - k) PlStart\<rparr>"

lemma taken_opens:
  assumes "k < n" and "opens k"
  shows "plain_step p limit opens execs (plain_taken n k)
    ((plain_taken n k)\<lparr>pl_pcs := replicate k PlConnected @ PlOpened # replicate (n - k - 1) PlStart\<rparr>)"
proof -
  have "pl_pcs (plain_taken n k) = replicate k PlConnected @ PlStart # replicate (n - k - 1) PlStart"
    using assms(1) by (cases "n - k") (simp_all add: plain_taken_def)
  then show ?thesis using plain_step.open_ok [of "plain_taken n k" k opens p limit execs] assms
    by (simp add: plain_taken_def list_update_append nth_append)
qed

lemma taken_connects:
  assumes "k < n" and "k < limit"
  shows "plain_step p limit opens execs
    ((plain_taken n k)\<lparr>pl_pcs := replicate k PlConnected @ PlOpened # replicate (n - k - 1) PlStart\<rparr>) (plain_taken n (Suc k))"
  using plain_step.connect [of "(plain_taken n k)\<lparr>pl_pcs := replicate k PlConnected @ PlOpened # replicate (n - k - 1) PlStart\<rparr>" k limit p opens execs] assms
    replicate_app_Cons_same [of k PlConnected "replicate (n - Suc k) PlStart"]
  by (simp add: plain_taken_def nth_append list_update_append)

lemma taken_reached:
  "(\<forall>i < n. opens i) \<Longrightarrow> k \<le> n \<Longrightarrow> k \<le> limit \<Longrightarrow> (plain_step p limit opens execs)\<^sup>*\<^sup>* (plain_init n) (plain_taken n k)"
proof (induction k)
  case 0
  then show ?case by (simp add: plain_init_def plain_taken_def)
next
  case (Suc k)
  then have "(plain_step p limit opens execs)\<^sup>*\<^sup>* (plain_init n) (plain_taken n k)" by simp
  also have "plain_step p limit opens execs (plain_taken n k)
    ((plain_taken n k)\<lparr>pl_pcs := replicate k PlConnected @ PlOpened # replicate (n - k - 1) PlStart\<rparr>)"
    using Suc.prems by (intro taken_opens) auto
  also have "plain_step p limit opens execs \<dots> (plain_taken n (Suc k))" using Suc.prems by (intro taken_connects) auto
  finally show ?case .
qed

lemma taken_panics:
  assumes "limit < n" and "opens limit"
  shows "plain_step p limit opens execs
    ((plain_taken n limit)\<lparr>pl_pcs := replicate limit PlConnected @ PlOpened # replicate (n - limit - 1) PlStart\<rparr>)
    ((plain_taken n limit)\<lparr>pl_pcs := replicate limit PlConnected @ PlOpened # replicate (n - limit - 1) PlStart, pl_panicked := True\<rparr>)"
  using plain_step.refused [of "(plain_taken n limit)\<lparr>pl_pcs := replicate limit PlConnected @ PlOpened # replicate (n - limit - 1) PlStart\<rparr>" limit limit p opens execs] assms
  by (simp add: plain_taken_def nth_append)

lemma plain_panics_iff:
  assumes "\<forall>i < n. opens i \<and> execs i"
  shows "(\<exists>s. (plain_step p limit opens execs)\<^sup>*\<^sup>* (plain_init n) s \<and> pl_panicked s) \<longleftrightarrow> limit < n"
proof
  assume "\<exists>s. (plain_step p limit opens execs)\<^sup>*\<^sup>* (plain_init n) s \<and> pl_panicked s"
  then obtain s where "(plain_step p limit opens execs)\<^sup>*\<^sup>* (plain_init n) s" "pl_panicked s" by blast
  moreover have "plain_inv n limit opens execs s" using plain.reachable_inv [OF refl calculation(1)] .
  ultimately show "limit < n" using assms by (simp add: plain_inv_def)
next
  assume less: "limit < n"
  have "(plain_step p limit opens execs)\<^sup>*\<^sup>* (plain_init n) (plain_taken n limit)" by (rule taken_reached) (use assms less in auto)
  also note taken_opens [OF less, of opens p limit execs]
  also note taken_panics [OF less, of opens p execs]
  finally show "\<exists>s. (plain_step p limit opens execs)\<^sup>*\<^sup>* (plain_init n) s \<and> pl_panicked s" using assms less by force
qed

subsection \<open>A run that takes one connection at a time\<close>

definition plain_served :: "nat \<Rightarrow> nat \<Rightarrow> plain_pc \<Rightarrow> nat \<Rightarrow> nat \<Rightarrow> plain_sys" where
  "plain_served n k pc conns queries = \<lparr>pl_conns = conns, pl_queries = queries, pl_panicked = False,
     pl_pcs = replicate k PlDone @ pc # replicate (n - k - 1) PlStart\<rparr>"

lemma served_next:
  assumes "opens k" and "execs k" and "0 < limit"
  shows "(plain_step p limit opens execs)\<^sup>*\<^sup>* (plain_served n k PlStart 0 q) (plain_served n k PlDone 0 (Suc q))"
proof -
  have "(plain_step p limit opens execs)\<^sup>*\<^sup>* (plain_served n k PlStart 0 q) (plain_served n k PlStart 0 q)" ..
  also have "plain_step p limit opens execs \<dots> (plain_served n k PlOpened 0 q)"
    using plain_step.open_ok [of "plain_served n k PlStart 0 q" k opens p limit execs] assms by (simp add: plain_served_def nth_append list_update_append)
  also have "plain_step p limit opens execs \<dots> (plain_served n k PlConnected 1 q)"
    using plain_step.connect [of "plain_served n k PlOpened 0 q" k limit p opens execs] assms by (simp add: plain_served_def nth_append list_update_append)
  also have "plain_step p limit opens execs \<dots> (plain_served n k PlExecuted 1 (Suc q))"
    using plain_step.exec_ok [of "plain_served n k PlConnected 1 q" k execs p limit opens] assms by (simp add: plain_served_def nth_append list_update_append)
  also have "plain_step p limit opens execs \<dots> (plain_served n k PlDone 0 (Suc q))"
    using plain_step.closes [of "plain_served n k PlExecuted 1 (Suc q)" k p limit opens execs] by (simp add: plain_served_def nth_append list_update_append)
  finally show ?thesis .
qed

lemma served_reached:
  assumes "\<forall>i < n. opens i \<and> execs i" and "0 < limit" and "k < n"
  shows "(plain_step p limit opens execs)\<^sup>*\<^sup>* (plain_init n) (plain_served n k PlDone 0 (Suc k))"
  using assms(3)
proof (induction k)
  case 0
  then have "plain_init n = plain_served n 0 PlStart 0 0" by (cases n) (simp_all add: plain_init_def plain_served_def)
  with served_next [of opens 0 execs limit p n 0] assms 0 show ?case by simp
next
  case (Suc k)
  then have "plain_served n k PlDone 0 (Suc k) = plain_served n (Suc k) PlStart 0 (Suc k)"
    using replicate_app_Cons_same [of k PlDone] by (cases "n - k - 1") (simp_all add: plain_served_def)
  with Suc served_next [of opens "Suc k" execs limit p n "Suc k"] assms(1,2) show ?case by (metis Suc_lessD rtranclp_trans)
qed

text \<open>Without a connection nothing is executed.\<close>

lemma no_connection_no_query:
  "(plain_step p 0 opens execs)\<^sup>*\<^sup>* (plain_init n) s \<Longrightarrow> pl_queries s = 0"
proof (induction rule: rtranclp_induct)
  case base
  show ?case by (simp add: plain_init_def)
next
  case (step s t)
  have "plain_inv n 0 opens execs s" by (rule plain.reachable_inv [OF refl step.hyps(1)])
  then have "tally holds_conn (pl_pcs s) = 0" by (simp add: plain_inv_def)
  then have none: "pl_pcs s ! i \<noteq> PlConnected" if "i < length (pl_pcs s)" for i
    using tally_pos [OF that, of holds_conn] by auto
  from step.hyps(2) step.IH none show ?case by cases (auto split: if_splits)
qed

lemma plain_done:
  assumes "\<forall>i < n. opens i" and "(plain_step p limit opens execs)\<^sup>*\<^sup>* (plain_init n) s" and "plain_final s" and "\<not> pl_panicked s"
  shows "pl_conns s = 0 \<and> pl_queries s = n"
proof -
  have inv: "plain_inv n limit opens execs s" using plain.reachable_inv [OF refl assms(2)] .
  have "list_all (\<lambda>pc. pc = PlDone) (pl_pcs s)" using assms(3,4) by (simp add: plain_final_def)
  then have "pl_pcs s = replicate n PlDone" using inv by (auto simp: plain_inv_def list_all_iff intro: replicate_eqI)
  with inv assms(1) show ?thesis by (simp add: plain_inv_def)
qed

subsection \<open>Properties\<close>

text \<open>
  C20. How many connections the unpooled benchmarks need, when every handle opens and every statement that has a connection
  succeeds. A run in which the process dies of a panic exists if and only if the server grants fewer connections than there
  are goroutines (152 in \<open>main\<close>, 50 in \<open>benchmarkPlain1\<close>); a run in which all goroutines finish exists if and only if the server
  grants one connection at all, because each goroutine gives its connection back; and when they have finished, every statement was
  executed once and no connection is left open.
\<close>

theorem plain_connection_limit:
  assumes "0 < n" and "\<forall>i < n. opens i \<and> execs i"
  shows "((\<exists>s. (plain_step p limit opens execs)\<^sup>*\<^sup>* (plain_init n) s \<and> pl_panicked s) \<longleftrightarrow> limit < n) \<and>
    ((\<exists>s. (plain_step p limit opens execs)\<^sup>*\<^sup>* (plain_init n) s \<and> plain_final s \<and> \<not> pl_panicked s) \<longleftrightarrow> 0 < limit) \<and>
    (\<forall>s. (plain_step p limit opens execs)\<^sup>*\<^sup>* (plain_init n) s \<and> plain_final s \<and> \<not> pl_panicked s \<longrightarrow>
       pl_conns s = 0 \<and> pl_queries s = n)"
proof -
  have finished: "pl_conns s = 0 \<and> pl_queries s = n"
    if "(plain_step p limit opens execs)\<^sup>*\<^sup>* (plain_init n) s \<and> plain_final s \<and> \<not> pl_panicked s" for s
    using plain_done [of n opens p limit execs s] assms(2) that by blast
  have "0 < limit"
    if s: "(plain_step p limit opens execs)\<^sup>*\<^sup>* (plain_init n) s \<and> plain_final s \<and> \<not> pl_panicked s" for s
  proof (rule ccontr)
    assume "\<not> 0 < limit"
    with s have "(plain_step p 0 opens execs)\<^sup>*\<^sup>* (plain_init n) s" by simp
    from no_connection_no_query [OF this] finished [OF s] assms(1) show False by simp
  qed
  moreover have "\<exists>s. (plain_step p limit opens execs)\<^sup>*\<^sup>* (plain_init n) s \<and> plain_final s \<and> \<not> pl_panicked s" if "0 < limit"
  proof -
    have "(plain_step p limit opens execs)\<^sup>*\<^sup>* (plain_init n) (plain_served n (n - 1) PlDone 0 (Suc (n - 1)))"
      using served_reached [OF assms(2) that, of "n - 1" p] assms(1) by simp
    moreover have "plain_final (plain_served n (n - 1) PlDone 0 (Suc (n - 1)))" "\<not> pl_panicked (plain_served n (n - 1) PlDone 0 (Suc (n - 1)))"
      using assms(1) by (simp_all add: plain_served_def plain_final_def list_all_iff)
    ultimately show ?thesis by blast
  qed
  ultimately show ?thesis using plain_panics_iff [OF assms(2), of p limit] finished by blast
qed

theorem plain_connection_limit_witness:
  "(\<exists>s. (plain_step False 151 (\<lambda>_. True) (\<lambda>_. True))\<^sup>*\<^sup>* (plain_init 152) s \<and> pl_panicked s) \<and>
   (\<exists>s. (plain_step False 151 (\<lambda>_. True) (\<lambda>_. True))\<^sup>*\<^sup>* (plain_init 152) s \<and> plain_final s \<and> \<not> pl_panicked s)"
  using plain_connection_limit [of 152 "\<lambda>_. True" "\<lambda>_. True" False 151] by simp

text \<open>
  With enough connections the unpooled benchmarks finish. If the server grants one per goroutine and nothing fails,
  every run has at most \<open>4 n + 1\<close> steps, can be continued until all goroutines are done, and then every
  query was executed once and no connection is left open.
\<close>

theorem plain_benchmark_finishes:
  assumes "\<forall>i < n. opens i \<and> execs i" and "n \<le> limit" and "(plain_step p limit opens execs ^^ m) (plain_init n) s"
  shows "m \<le> 4 * n + 1 \<and> \<not> pl_panicked s \<and>
    (\<exists>t. (plain_step p limit opens execs)\<^sup>*\<^sup>* s t \<and> plain_final t) \<and>
    (plain_final s \<longrightarrow> pl_queries s = n \<and> pl_conns s = 0)"
proof -
  have run: "(plain_step p limit opens execs)\<^sup>*\<^sup>* (plain_init n) s" by (rule relpowp_imp_rtranclp [OF assms(3)])
  have inv: "plain_inv n limit opens execs s" using plain.reachable_inv [OF refl run] .
  have "weight plain_left (replicate n PlStart) = 4 * n" by (induction n) simp_all
  then have "plain_variant (plain_init n) = 4 * n + 1" by (simp add: plain_variant_def plain_init_def)
  then have "m \<le> 4 * n + 1" using plain.run_length [OF assms(3) plain_init_inv] by simp
  moreover have np: "\<not> pl_panicked s" using inv assms(1,2) by (auto simp: plain_inv_def)
  moreover have "pl_queries s = n \<and> pl_conns s = 0" if "plain_final s"
    using plain_done [OF _ run that np] assms(1) by blast
  ultimately show ?thesis using plain.reaches_final [OF refl run] by blast
qed

theorem plain_benchmark_finishes_witness:
  "\<exists>t. (plain_step False 152 (\<lambda>_. True) (\<lambda>_. True))\<^sup>*\<^sup>* (plain_init 152) t \<and> plain_final t"
  using plain_benchmark_finishes [of 152 "\<lambda>_. True" "\<lambda>_. True" 152 0 False "plain_init 152"] by simp

text \<open>What that means for the program: \<open>main\<close> needs a server that grants 152 connections, \<open>benchmarkPlain1\<close> one that grants 50.\<close>

theorem unpooled_mains:
  "((\<exists>s. (plain_step False limit (\<lambda>_. True) (\<lambda>_. True))\<^sup>*\<^sup>* pool_main s \<and> pl_panicked s) \<longleftrightarrow> limit < 152) \<and>
   ((\<exists>s. (plain_step True limit (\<lambda>_. True) (\<lambda>_. True))\<^sup>*\<^sup>* benchmarkPlain1 s \<and> pl_panicked s) \<longleftrightarrow> limit < 50)"
  unfolding pool_main_def benchmarkPlain1_def by (simp add: plain_panics_iff)

end
