(* ===== verification/Ticket_Booking.thy ===== *)
theory Ticket_Booking
  imports Go_Runs
begin

text \<open>
  \<open>pessimistic_locking/main.go\<close>: \<open>bookTicket\<close> starts goroutines that decrement the global
  \<open>tickets\<close> under a mutex. The decrement is modelled as the load and the store it is, so that the
  absence of lost updates is a consequence of the mutex; the counter wraps at 64 bits.
\<close>

datatype tb_pc = TStart | TLocked | TLoaded int | TStored | TUnlocked | TFinished

datatype book_pc = Looping nat | Added nat | LoopDone

record tb_sys =
  tickets :: int
  tb_mutex :: "nat option"
  tb_wg :: int
  booker :: book_pc
  tb_threads :: "tb_pc list"

text \<open>
  The first three rules are the loop of \<open>bookTicket\<close> for \<open>n\<close> users (\<open>n = 1000\<close> in the source), the
  others the statements of \<open>reduceTicketCount\<close> in goroutine \<open>i\<close>.
\<close>

inductive tb_step :: "nat \<Rightarrow> tb_sys \<Rightarrow> tb_sys \<Rightarrow> bool" for n where
  book_add: "booker s = Looping i \<Longrightarrow> i < n \<Longrightarrow>
    tb_step n s (s\<lparr>tb_wg := tb_wg s + 1, booker := Added i\<rparr>)"
| book_go: "booker s = Added i \<Longrightarrow>
    tb_step n s (s\<lparr>booker := Looping (Suc i), tb_threads := tb_threads s @ [TStart]\<rparr>)"
| book_end: "booker s = Looping i \<Longrightarrow> \<not> i < n \<Longrightarrow> tb_step n s (s\<lparr>booker := LoopDone\<rparr>)"
| lock: "i < length (tb_threads s) \<Longrightarrow> tb_threads s ! i = TStart \<Longrightarrow> tb_mutex s = None \<Longrightarrow>
    tb_step n s (s\<lparr>tb_mutex := Some i, tb_threads := (tb_threads s)[i := TLocked]\<rparr>)"
| load: "i < length (tb_threads s) \<Longrightarrow> tb_threads s ! i = TLocked \<Longrightarrow>
    tb_step n s (s\<lparr>tb_threads := (tb_threads s)[i := TLoaded (tickets s)]\<rparr>)"
| store: "i < length (tb_threads s) \<Longrightarrow> tb_threads s ! i = TLoaded v \<Longrightarrow>
    tb_step n s (s\<lparr>tickets := wrap64 (v - 1), tb_threads := (tb_threads s)[i := TStored]\<rparr>)"
| unlock: "i < length (tb_threads s) \<Longrightarrow> tb_threads s ! i = TStored \<Longrightarrow>
    tb_step n s (s\<lparr>tb_mutex := None, tb_threads := (tb_threads s)[i := TUnlocked]\<rparr>)"
| wg_done: "i < length (tb_threads s) \<Longrightarrow> tb_threads s ! i = TUnlocked \<Longrightarrow>
    tb_step n s (s\<lparr>tb_wg := tb_wg s - 1, tb_threads := (tb_threads s)[i := TFinished]\<rparr>)"

definition tb_init :: "int \<Rightarrow> tb_sys" where
  "tb_init T = \<lparr>tickets = T, tb_mutex = None, tb_wg = 0, booker = Looping 0, tb_threads = []\<rparr>"

definition tb_done :: "nat \<Rightarrow> tb_sys \<Rightarrow> bool" where
  "tb_done n s \<longleftrightarrow>
     booker s = LoopDone \<and> length (tb_threads s) = n \<and> list_all (\<lambda>pc. pc = TFinished) (tb_threads s)"

subsection \<open>The invariant\<close>

fun in_cs :: "tb_pc \<Rightarrow> bool" where
  "in_cs TLocked = True"
| "in_cs (TLoaded _) = True"
| "in_cs TStored = True"
| "in_cs _ = False"

fun decremented :: "tb_pc \<Rightarrow> bool" where
  "decremented TStored = True"
| "decremented TUnlocked = True"
| "decremented TFinished = True"
| "decremented _ = False"

fun tb_spawned :: "nat \<Rightarrow> book_pc \<Rightarrow> nat" where
  "tb_spawned n (Looping i) = i"
| "tb_spawned n (Added i) = i"
| "tb_spawned n LoopDone = n"

fun tb_pending :: "book_pc \<Rightarrow> nat" where
  "tb_pending (Added _) = 1"
| "tb_pending _ = 0"

definition tb_locked_inv :: "tb_sys \<Rightarrow> bool" where
  "tb_locked_inv s \<longleftrightarrow>
     (\<forall>i < length (tb_threads s). in_cs (tb_threads s ! i) \<longleftrightarrow> tb_mutex s = Some i) \<and>
     (\<forall>i. tb_mutex s = Some i \<longrightarrow> i < length (tb_threads s)) \<and>
     (\<forall>i < length (tb_threads s). \<forall>v. tb_threads s ! i = TLoaded v \<longrightarrow> v = tickets s)"

definition tb_count_inv :: "int \<Rightarrow> nat \<Rightarrow> tb_sys \<Rightarrow> bool" where
  "tb_count_inv T n s \<longleftrightarrow>
     tickets s = wrap64 (T - int (tally decremented (tb_threads s))) \<and>
     tb_wg s = int (tally (\<lambda>pc. pc \<noteq> TFinished) (tb_threads s) + tb_pending (booker s)) \<and>
     length (tb_threads s) = tb_spawned n (booker s) \<and>
     (case booker s of Looping i \<Rightarrow> i \<le> n | Added i \<Rightarrow> i < n | LoopDone \<Rightarrow> True)"

definition tb_inv :: "int \<Rightarrow> nat \<Rightarrow> tb_sys \<Rightarrow> bool" where
  "tb_inv T n s \<longleftrightarrow> tb_locked_inv s \<and> tb_count_inv T n s"

lemma tb_init_inv: "in_int64 T \<Longrightarrow> tb_inv T n (tb_init T)"
  by (simp add: tb_inv_def tb_locked_inv_def tb_count_inv_def tb_init_def)

lemma tb_locked_excl:
  assumes "tb_locked_inv s" "i < length (tb_threads s)" "j < length (tb_threads s)"
    and "in_cs (tb_threads s ! i)" "in_cs (tb_threads s ! j)"
  shows "i = j"
  using assms by (auto simp: tb_locked_inv_def)

lemma tb_step_locked:
  assumes "tb_locked_inv s" and "tb_step n s t"
  shows "tb_locked_inv t"
  using assms(2)
proof cases
  case (store i v)
  have "\<not> in_cs (tb_threads s ! j)" if "j < length (tb_threads s)" "j \<noteq> i" for j
    using tb_locked_excl [OF assms(1) that(1) store(2)] that(2) store(3) by auto
  then have "tb_threads s ! j \<noteq> TLoaded w" if "j < length (tb_threads s)" "j \<noteq> i" for j w
    using that in_cs.simps(2) by metis
  with store assms(1) show ?thesis by (auto simp: tb_locked_inv_def nth_list_update)
qed (use assms(1) in \<open>auto simp: tb_locked_inv_def nth_list_update nth_append less_Suc_eq\<close>)

lemma tb_step_count:
  assumes "tb_locked_inv s" and "tb_count_inv T n s" and "tb_step n s t"
  shows "tb_count_inv T n t"
  using assms(3)
proof cases
  case (lock i)
  with assms(2) tally_update [OF lock(2), of decremented TLocked]
    tally_update [OF lock(2), of "\<lambda>pc. pc \<noteq> TFinished" TLocked]
  show ?thesis by (auto simp: tb_count_inv_def)
next
  case (load i)
  with assms(2) tally_update [OF load(2), of decremented "TLoaded (tickets s)"]
    tally_update [OF load(2), of "\<lambda>pc. pc \<noteq> TFinished" "TLoaded (tickets s)"]
  show ?thesis by (auto simp: tb_count_inv_def)
next
  case (store i v)
  then have "v = tickets s" using assms(1) by (auto simp: tb_locked_inv_def)
  with store assms(2) tally_update [OF store(2), of decremented TStored]
    tally_update [OF store(2), of "\<lambda>pc. pc \<noteq> TFinished" TStored]
  show ?thesis by (auto simp: tb_count_inv_def algebra_simps)
next
  case (unlock i)
  with assms(2) tally_update [OF unlock(2), of decremented TUnlocked]
    tally_update [OF unlock(2), of "\<lambda>pc. pc \<noteq> TFinished" TUnlocked]
  show ?thesis by (auto simp: tb_count_inv_def)
next
  case (wg_done i)
  with assms(2) tally_update [OF wg_done(2), of decremented TFinished]
    tally_update [OF wg_done(2), of "\<lambda>pc. pc \<noteq> TFinished" TFinished]
  show ?thesis by (auto simp: tb_count_inv_def)
qed (use assms(2) in \<open>auto simp: tb_count_inv_def\<close>)

lemma tb_step_inv: "tb_inv T n s \<Longrightarrow> tb_step n s t \<Longrightarrow> tb_inv T n t"
  using tb_step_locked tb_step_count by (auto simp: tb_inv_def)

subsection \<open>Progress and termination\<close>

fun tb_weight :: "tb_pc \<Rightarrow> nat" where
  "tb_weight TStart = 5"
| "tb_weight TLocked = 4"
| "tb_weight (TLoaded _) = 3"
| "tb_weight TStored = 2"
| "tb_weight TUnlocked = 1"
| "tb_weight TFinished = 0"

fun book_weight :: "nat \<Rightarrow> book_pc \<Rightarrow> nat" where
  "book_weight n (Looping i) = 7 * (n - i) + 1"
| "book_weight n (Added i) = 7 * (n - i)"
| "book_weight n LoopDone = 0"

definition tb_variant :: "nat \<Rightarrow> tb_sys \<Rightarrow> nat" where
  "tb_variant n s = book_weight n (booker s) + weight tb_weight (tb_threads s)"

lemma tb_step_variant:
  assumes "tb_inv T n s" and "tb_step n s t"
  shows "tb_variant n t < tb_variant n s"
  using assms(2)
proof cases
  case (book_go i)
  with assms(1) have "i < n" by (simp add: tb_inv_def tb_count_inv_def)
  then have "n - i = Suc (n - Suc i)" by simp
  with book_go show ?thesis by (simp add: tb_variant_def)
qed (auto simp: tb_variant_def weight_update_less)

lemma tb_step_progress:
  assumes "tb_inv T n s" and "\<not> tb_done n s"
  shows "\<exists>t. tb_step n s t"
proof (cases "booker s")
  case (Looping i)
  then show ?thesis by (cases "i < n") (blast intro: tb_step.book_add tb_step.book_end)+
next
  case (Added i)
  then show ?thesis by (blast intro: tb_step.book_go)
next
  case LoopDone
  with assms obtain i where i: "i < length (tb_threads s)" "tb_threads s ! i \<noteq> TFinished"
    by (auto simp: tb_done_def tb_inv_def tb_count_inv_def list_all_length)
  have cs: "\<exists>t. tb_step n s t" if "j < length (tb_threads s)" "in_cs (tb_threads s ! j)" for j
    using that by (cases "tb_threads s ! j") (auto intro: tb_step.load tb_step.store tb_step.unlock)
  show ?thesis
  proof (cases "tb_threads s ! i")
    case TStart
    show ?thesis
    proof (cases "tb_mutex s")
      case None
      with i(1) TStart show ?thesis by (blast intro: tb_step.lock)
    next
      case (Some j)
      with assms(1) have "j < length (tb_threads s)" "in_cs (tb_threads s ! j)"
        by (auto simp: tb_inv_def tb_locked_inv_def)
      then show ?thesis by (rule cs)
    qed
  next
    case TUnlocked
    with i(1) show ?thesis by (blast intro: tb_step.wg_done)
  qed (use i cs [of i] in auto)
qed

interpretation tb: live_system "\<lambda>s. in_int64 T \<and> s = tb_init T" "tb_step n" "tb_inv T n" "tb_variant n" "tb_done n"
  for T n
  by unfold_locales (auto intro: tb_init_inv tb_step_inv tb_step_variant tb_step_progress)

subsection \<open>An atomic counter\<close>

text \<open>The specification: a user that was not served yet takes one ticket, in one step.\<close>

inductive counter_step :: "int \<times> nat set \<Rightarrow> int \<times> nat set \<Rightarrow> bool" where
  take_ticket: "i \<notin> served \<Longrightarrow> counter_step (c, served) (wrap64 (c - 1), insert i served)"

definition tb_abs :: "tb_sys \<Rightarrow> int \<times> nat set" where
  "tb_abs s = (tickets s, {i. i < length (tb_threads s) \<and> decremented (tb_threads s ! i)})"

lemma served_update:
  "i < length pcs \<Longrightarrow> {j. j < length pcs \<and> P (pcs[i := pc] ! j)} =
    (if P pc then insert i {j. j < length pcs \<and> P (pcs ! j)} else {j. j < length pcs \<and> P (pcs ! j)} - {i})"
  by (auto simp: nth_list_update)

text \<open>The store is the moment at which the decrement happens; all other steps are invisible.\<close>

lemma tb_step_refines:
  assumes "tb_inv T n s" and "tb_step n s t"
  shows "tb_abs t = tb_abs s \<or> counter_step (tb_abs s) (tb_abs t)"
  using assms(2)
proof cases
  case (store i v)
  then have "v = tickets s" using assms(1) by (auto simp: tb_inv_def tb_locked_inv_def)
  with store counter_step.take_ticket [of i "snd (tb_abs s)" "tickets s"] show ?thesis
    by (simp add: tb_abs_def served_update)
qed (auto simp: tb_abs_def served_update nth_append less_Suc_eq)

interpretation tb_ref: refinement "\<lambda>s. in_int64 T \<and> s = tb_init T" "tb_step n" "tb_inv T n" counter_step tb_abs
  for T n
  by unfold_locales (rule tb_step_refines)

subsection \<open>Properties\<close>

text \<open>
  No decrement is lost: whatever the interleaving, in every reachable state \<open>tickets\<close> is the
  initial number less the goroutines that have performed their store, and at most one goroutine is
  between \<open>Lock\<close> and \<open>Unlock\<close>.
\<close>

theorem tickets_no_lost_update:
  assumes "in_int64 T" and "(tb_step n)\<^sup>*\<^sup>* (tb_init T) s"
  shows "tickets s = wrap64 (T - int (tally decremented (tb_threads s))) \<and>
    (\<forall>i j. i < length (tb_threads s) \<and> j < length (tb_threads s) \<and>
       in_cs (tb_threads s ! i) \<and> in_cs (tb_threads s ! j) \<longrightarrow> i = j)"
proof -
  have "tb_inv T n s" using tb.reachable_inv [of T "tb_init T" n s] assms by simp
  then show ?thesis using tb_locked_excl by (auto simp: tb_inv_def tb_count_inv_def)
qed

text \<open>One user of five tickets, up to its store.\<close>

definition tb_one :: "int \<Rightarrow> nat option \<Rightarrow> int \<Rightarrow> book_pc \<Rightarrow> tb_pc list \<Rightarrow> tb_sys" where
  "tb_one k m w b ps = \<lparr>tickets = k, tb_mutex = m, tb_wg = w, booker = b, tb_threads = ps\<rparr>"

lemma tb_one_run: "(tb_step 1)\<^sup>*\<^sup>* (tb_init 5) (tb_one 4 (Some 0) 1 (Looping 1) [TStored])"
proof -
  have "tb_step 1 (tb_init 5) (tb_one 5 None 1 (Added 0) [])"
    using tb_step.book_add [of "tb_init 5" 0 1] by (simp add: tb_init_def tb_one_def)
  moreover have "tb_step 1 (tb_one 5 None 1 (Added 0) []) (tb_one 5 None 1 (Looping 1) [TStart])"
    using tb_step.book_go [of "tb_one 5 None 1 (Added 0) []" 0 1] by (simp add: tb_one_def)
  moreover have "tb_step 1 (tb_one 5 None 1 (Looping 1) [TStart]) (tb_one 5 (Some 0) 1 (Looping 1) [TLocked])"
    using tb_step.lock [of 0 "tb_one 5 None 1 (Looping 1) [TStart]" 1] by (simp add: tb_one_def)
  moreover have "tb_step 1 (tb_one 5 (Some 0) 1 (Looping 1) [TLocked])
      (tb_one 5 (Some 0) 1 (Looping 1) [TLoaded 5])"
    using tb_step.load [of 0 "tb_one 5 (Some 0) 1 (Looping 1) [TLocked]" 1] by (simp add: tb_one_def)
  moreover have "tb_step 1 (tb_one 5 (Some 0) 1 (Looping 1) [TLoaded 5])
      (tb_one 4 (Some 0) 1 (Looping 1) [TStored])"
    using tb_step.store [of 0 "tb_one 5 (Some 0) 1 (Looping 1) [TLoaded 5]" 5 1]
    by (simp add: tb_one_def wrap64_def)
  ultimately show ?thesis by (meson converse_rtranclp_into_rtranclp rtranclp.rtrancl_refl)
qed

theorem tickets_no_lost_update_witness:
  "tickets (tb_one 4 (Some 0) 1 (Looping 1) [TStored]) = 4 \<and>
   tickets (tb_one 4 (Some 0) 1 (Looping 1) [TStored]) = wrap64 (5 - int (tally decremented [TStored]))"
  using tickets_no_lost_update [OF _ tb_one_run] by (simp add: in_int64_def tb_one_def)

text \<open>
  \<open>bookTicket\<close> for the source's thousand tickets and thousand users always finishes within
  7001 steps, and then no ticket is left and the wait group is zero.
\<close>

theorem tickets_all_booked:
  assumes "(tb_step 1000 ^^ m) (tb_init 1000) s"
  shows "m \<le> 7001 \<and> ((\<nexists>t. tb_step 1000 s t) \<longrightarrow> tickets s = 0 \<and> tb_wg s = 0) \<and>
    (\<exists>t. (tb_step 1000)\<^sup>*\<^sup>* s t \<and> tickets t = 0 \<and> tb_wg t = 0)"
proof -
  have init: "in_int64 1000 \<and> tb_init 1000 = tb_init 1000" by (simp add: in_int64_def)
  have run: "(tb_step 1000)\<^sup>*\<^sup>* (tb_init 1000) s" using assms by (rule relpowp_imp_rtranclp)
  have "tb_variant 1000 (tb_init 1000) = 7001" by (simp add: tb_variant_def tb_init_def)
  then have "m \<le> 7001"
    using tb.run_length [OF assms tb_init_inv [of 1000 1000]] by (simp add: in_int64_def)
  moreover have "tickets t = 0 \<and> tb_wg t = 0"
    if "(tb_step 1000)\<^sup>*\<^sup>* (tb_init 1000) t" "tb_done 1000 t" for t
  proof -
    have all: "tb_threads t = replicate 1000 TFinished"
      using that(2) by (auto simp: tb_done_def list_all_iff intro: replicate_eqI)
    have "tb_inv 1000 1000 t" using tb.reachable_inv [OF init that(1)] .
    then show ?thesis
      using that(2) by (simp add: all tb_inv_def tb_count_inv_def tb_done_def wrap64_def)
  qed
  ultimately show ?thesis
    using tb.stuck_final [OF init run] tb.reaches_final [OF init run] run
    by (meson rtranclp_trans)
qed

theorem tickets_all_booked_witness:
  "\<exists>t. (tb_step 1000)\<^sup>*\<^sup>* (tb_init 1000) t \<and> tickets t = 0 \<and> tb_wg t = 0"
  using tickets_all_booked [of 0 "tb_init 1000"] by simp

text \<open>
  C16. The mutex makes the decrement atomic: every run of \<open>bookTicket\<close>, with its loads and stores
  interleaved in any way, is a run of the atomic counter; when all is done the counter has served every
  user exactly once.
\<close>

theorem tickets_linearizable:
  assumes "in_int64 T" and "(tb_step n)\<^sup>*\<^sup>* (tb_init T) s"
  shows "counter_step\<^sup>*\<^sup>* (T, {}) (tb_abs s) \<and> (tb_done n s \<longrightarrow> tb_abs s = (wrap64 (T - int n), {..<n}))"
proof -
  have init: "in_int64 T \<and> tb_init T = tb_init T" using assms(1) by simp
  have "tb_abs s = (wrap64 (T - int n), {..<n})" if "tb_done n s"
  proof -
    have all: "tb_threads s = replicate n TFinished"
      using that by (auto simp: tb_done_def list_all_iff intro: replicate_eqI)
    have "tb_inv T n s" using tb.reachable_inv [OF init assms(2)] .
    then show ?thesis by (auto simp: all tb_abs_def tb_inv_def tb_count_inv_def)
  qed
  moreover have "tb_abs (tb_init T) = (T, {})" by (simp add: tb_abs_def tb_init_def)
  ultimately show ?thesis using tb_ref.run_refines [OF init assms(2)] by simp
qed

theorem tickets_linearizable_witness:
  "counter_step\<^sup>*\<^sup>* (5, {}) (tb_abs (tb_one 4 (Some 0) 1 (Looping 1) [TStored])) \<and>
   tb_abs (tb_one 4 (Some 0) 1 (Looping 1) [TStored]) = (4, {0})"
  using tickets_linearizable [OF _ tb_one_run] by (auto simp: in_int64_def tb_abs_def tb_one_def)

end
