(* ===== verification/Enrichment_Race.thy ===== *)
theory Enrichment_Race
  imports Go_Runs
begin

text \<open>
  \<open>pessimistic_locking/obdIssue.go\<close>: two producers send on an unbuffered channel, the caller takes
  the first value or a timeout, and its deferred function sets \<open>isChannelClosed\<close> and closes the
  channel. The \<open>atomic.Bool\<close> is passed by value, so each producer tests the copy made when it was
  started. The state has the caller's position, the producers, the channel's closed flag and the
  panic that ends the process.
\<close>

text \<open>What a producer does after its sleep, given its copy of the flag: the value it sends, if any.\<close>

definition getEnrichedDataFromGovt :: "bool \<Rightarrow> string option" where
  "getEnrichedDataFromGovt isChanClosed = (if \<not> isChanClosed then Some ''NHIS data'' else None)"

definition getEnrichedDataFromIntegration :: "bool \<Rightarrow> string option" where
  "getEnrichedDataFromIntegration isChanClosed =
     (if \<not> isChanClosed then Some ''Integration data'' else None)"

definition producer :: "nat \<Rightarrow> bool \<Rightarrow> string option" where
  "producer i = (if i = 0 then getEnrichedDataFromGovt else getEnrichedDataFromIntegration)"

datatype prod_pc = PSleeping bool | PSending string | PFinished

datatype caller_pc = MSpawn nat | MSelect | MReturning string | MStored string | MReturned string

record obd_sys =
  caller :: caller_pc
  producers :: "prod_pc list"
  isChannelClosed :: bool
  dataCh_closed :: bool
  obd_panic :: "panic option"

definition obd_init :: obd_sys where
  "obd_init = \<lparr>caller = MSpawn 0, producers = [], isChannelClosed = False, dataCh_closed = False,
     obd_panic = None\<rparr>"

inductive obd_step :: "obd_sys \<Rightarrow> obd_sys \<Rightarrow> bool" where
  spawn: "obd_panic s = None \<Longrightarrow> caller s = MSpawn i \<Longrightarrow> i < 2 \<Longrightarrow>
    obd_step s (s\<lparr>caller := (if i = 1 then MSelect else MSpawn (Suc i)),
                  producers := producers s @ [PSleeping (isChannelClosed s)]\<rparr>)"
| wake_send: "obd_panic s = None \<Longrightarrow> i < length (producers s) \<Longrightarrow> producers s ! i = PSleeping b \<Longrightarrow>
    producer i b = Some d \<Longrightarrow>
    obd_step s (s\<lparr>producers := (producers s)[i := PSending d]\<rparr>)"
| wake_skip: "obd_panic s = None \<Longrightarrow> i < length (producers s) \<Longrightarrow> producers s ! i = PSleeping b \<Longrightarrow>
    producer i b = None \<Longrightarrow>
    obd_step s (s\<lparr>producers := (producers s)[i := PFinished]\<rparr>)"
| deliver: "obd_panic s = None \<Longrightarrow> i < length (producers s) \<Longrightarrow> producers s ! i = PSending d \<Longrightarrow>
    caller s = MSelect \<Longrightarrow> \<not> dataCh_closed s \<Longrightarrow>
    obd_step s (s\<lparr>caller := MReturning d, producers := (producers s)[i := PFinished]\<rparr>)"
| timeout: "obd_panic s = None \<Longrightarrow> caller s = MSelect \<Longrightarrow>
    obd_step s (s\<lparr>caller := MReturning ''timeout''\<rparr>)"
| deferred_store: "obd_panic s = None \<Longrightarrow> caller s = MReturning d \<Longrightarrow>
    obd_step s (s\<lparr>isChannelClosed := True, caller := MStored d\<rparr>)"
| deferred_close: "obd_panic s = None \<Longrightarrow> caller s = MStored d \<Longrightarrow>
    obd_step s (s\<lparr>dataCh_closed := True, caller := MReturned d\<rparr>)"
| send_on_closed: "obd_panic s = None \<Longrightarrow> i < length (producers s) \<Longrightarrow> producers s ! i = PSending d \<Longrightarrow>
    dataCh_closed s \<Longrightarrow>
    obd_step s (s\<lparr>obd_panic := Some SendOnClosedChannel\<rparr>)"

subsection \<open>Invariant\<close>

text \<open>
  The copies are all false, since both producers start before the caller can return; only a
  delivered producer is finished, and the caller takes one value at most.
\<close>

fun before_return :: "caller_pc \<Rightarrow> bool" where
  "before_return (MSpawn _) = True"
| "before_return MSelect = True"
| "before_return _ = False"

fun caller_value :: "caller_pc \<Rightarrow> string option" where
  "caller_value (MReturning d) = Some d"
| "caller_value (MStored d) = Some d"
| "caller_value (MReturned d) = Some d"
| "caller_value _ = None"

definition obd_caller_inv :: "obd_sys \<Rightarrow> bool" where
  "obd_caller_inv s \<longleftrightarrow>
     (case caller s of MSpawn i \<Rightarrow> i < 2 \<and> length (producers s) = i | _ \<Rightarrow> length (producers s) = 2) \<and>
     (dataCh_closed s \<longleftrightarrow> (\<exists>d. caller s = MReturned d)) \<and>
     (before_return (caller s) \<longrightarrow> \<not> isChannelClosed s) \<and>
     (\<forall>d. caller_value (caller s) = Some d \<longrightarrow>
        d \<in> {''NHIS data'', ''Integration data'', ''timeout''}) \<and>
     (\<forall>p. obd_panic s = Some p \<longrightarrow> p = SendOnClosedChannel)"

definition obd_prod_inv :: "obd_sys \<Rightarrow> bool" where
  "obd_prod_inv s \<longleftrightarrow>
     list_all (\<lambda>pc. case pc of PSleeping b \<Rightarrow> \<not> b
                   | PSending d \<Rightarrow> d \<in> {''NHIS data'', ''Integration data''} | PFinished \<Rightarrow> True) (producers s) \<and>
     tally (\<lambda>pc. pc = PFinished) (producers s) \<le> (if before_return (caller s) then 0 else 1)"

definition obd_inv :: "obd_sys \<Rightarrow> bool" where
  "obd_inv s \<longleftrightarrow> obd_caller_inv s \<and> obd_prod_inv s"

lemma producer_False: "\<exists>d \<in> {''NHIS data'', ''Integration data''}. producer i False = Some d"
  by (simp add: producer_def getEnrichedDataFromGovt_def getEnrichedDataFromIntegration_def)

lemma producer_data: "producer i b = Some d \<Longrightarrow> d \<in> {''NHIS data'', ''Integration data''}"
  by (auto simp: producer_def getEnrichedDataFromGovt_def getEnrichedDataFromIntegration_def split: if_splits)

lemma obd_step_prod:
  assumes "obd_caller_inv s" and "obd_prod_inv s" and "obd_step s t"
  shows "obd_prod_inv t"
  using assms(3)
proof cases
  case (spawn i)
  with assms(1,2) show ?thesis by (auto simp: obd_prod_inv_def obd_caller_inv_def)
next
  case (wake_send i b d)
  with assms(2) producer_data [OF wake_send(5)] tally_update [OF wake_send(3), of "\<lambda>pc. pc = PFinished" "PSending d"]
  show ?thesis by (auto simp: obd_prod_inv_def intro!: list_all_update)
next
  case (wake_skip i b)
  then have "\<not> b" using assms(2) by (auto simp: obd_prod_inv_def list_all_length)
  with wake_skip(5) producer_False [of i] show ?thesis by simp
next
  case (deliver i d)
  with assms(2) tally_update [OF deliver(3), of "\<lambda>pc. pc = PFinished" PFinished]
  show ?thesis by (auto simp: obd_prod_inv_def intro!: list_all_update)
qed (use assms(2) in \<open>auto simp: obd_prod_inv_def split: if_splits\<close>)

lemma obd_step_caller:
  assumes "obd_caller_inv s" and "obd_prod_inv s" and "obd_step s t"
  shows "obd_caller_inv t"
  using assms(3)
proof cases
  case (deliver i d)
  then have "d \<in> {''NHIS data'', ''Integration data''}"
    using assms(2) by (auto simp: obd_prod_inv_def list_all_length)
  with deliver assms(1) show ?thesis by (auto simp: obd_caller_inv_def)
qed (use assms(1) in \<open>auto simp: obd_caller_inv_def less_2_cases_iff split: caller_pc.splits\<close>)

lemma obd_step_inv: "obd_inv s \<Longrightarrow> obd_step s t \<Longrightarrow> obd_inv t"
  using obd_step_prod obd_step_caller by (auto simp: obd_inv_def)

subsection \<open>Every complete run ends in the panic\<close>

fun caller_weight :: "caller_pc \<Rightarrow> nat" where
  "caller_weight (MSpawn i) = (if i = 0 then 10 else 7)"
| "caller_weight MSelect = 4"
| "caller_weight (MReturning _) = 3"
| "caller_weight (MStored _) = 2"
| "caller_weight (MReturned _) = 1"

fun prod_weight :: "prod_pc \<Rightarrow> nat" where
  "prod_weight (PSleeping _) = 2"
| "prod_weight (PSending _) = 1"
| "prod_weight PFinished = 0"

definition obd_variant :: "obd_sys \<Rightarrow> nat" where
  "obd_variant s =
     caller_weight (caller s) + weight prod_weight (producers s) + (if obd_panic s = None then 1 else 0)"

lemma obd_step_variant: "obd_inv s \<Longrightarrow> obd_step s t \<Longrightarrow> obd_variant t < obd_variant s"
proof (erule obd_step.cases)
  fix u i d
  assume "s = u" "t = u\<lparr>caller := MReturning d, producers := (producers u)[i := PFinished]\<rparr>"
    "i < length (producers u)" "producers u ! i = PSending d" "caller u = MSelect"
  then show ?thesis
    using weight_update_less [of i "producers u" prod_weight PFinished] by (simp add: obd_variant_def)
qed (auto simp: obd_variant_def weight_update_less less_2_cases_iff)

lemma obd_step_progress:
  assumes "obd_inv s" and "\<not> obd_panic s = Some SendOnClosedChannel"
  shows "\<exists>t. obd_step s t"
proof -
  have run: "obd_panic s = None"
    using assms by (cases "obd_panic s") (auto simp: obd_inv_def obd_caller_inv_def)
  show ?thesis
  proof (cases "caller s")
    case (MSpawn i)
    with assms(1) have "i < 2" by (simp add: obd_inv_def obd_caller_inv_def)
    from obd_step.spawn [OF run MSpawn this] show ?thesis by blast
  next
    case (MReturned d)
    with assms(1) have closed: "dataCh_closed s" and two: "length (producers s) = 2"
      and "tally (\<lambda>pc. pc = PFinished) (producers s) \<le> 1"
      by (auto simp: obd_inv_def obd_caller_inv_def obd_prod_inv_def)
    then have "\<not> list_all (\<lambda>pc. pc = PFinished) (producers s)"
      unfolding tally_all [symmetric] by simp
    then obtain i where i: "i < length (producers s)" "producers s ! i \<noteq> PFinished"
      by (auto simp: list_all_length)
    show ?thesis
    proof (cases "producers s ! i")
      case (PSleeping b)
      then show ?thesis
        using obd_step.wake_send [OF run i(1)] obd_step.wake_skip [OF run i(1)]
        by (cases "producer i b") blast+
    next
      case (PSending d)
      from obd_step.send_on_closed [OF run i(1) this closed] show ?thesis by blast
    qed (use i(2) in simp)
  qed (blast intro: obd_step.timeout obd_step.deferred_store obd_step.deferred_close run)+
qed

lemma obd_init_inv: "obd_inv obd_init"
  by (simp add: obd_inv_def obd_caller_inv_def obd_prod_inv_def obd_init_def)

interpretation obd: live_system "\<lambda>s. s = obd_init" obd_step obd_inv obd_variant
  "\<lambda>s. obd_panic s = Some SendOnClosedChannel"
  by unfold_locales (auto intro: obd_init_inv obd_step_inv obd_step_variant obd_step_progress)

subsection \<open>Properties\<close>

text \<open>
  C31. The flag does not protect the channel. Each producer tests its own copy, which is false for
  ever, so every call leads to a send on the closed channel: no run is longer than 11 steps, and a
  run that cannot go on has panicked (as long as the process lives, whatever the scheduling and
  whether or not the caller timed out).
\<close>

theorem obd_always_panics:
  assumes "(obd_step ^^ m) obd_init s"
  shows "m \<le> 11 \<and> ((\<nexists>t. obd_step s t) \<longrightarrow> obd_panic s = Some SendOnClosedChannel) \<and>
    (\<exists>t. obd_step\<^sup>*\<^sup>* s t \<and> obd_panic t = Some SendOnClosedChannel)"
proof -
  have run: "obd_step\<^sup>*\<^sup>* obd_init s" using assms by (rule relpowp_imp_rtranclp)
  have "obd_variant obd_init = 11" by (simp add: obd_variant_def obd_init_def)
  then have "m \<le> 11" using obd.run_length [OF assms obd_init_inv] by simp
  with obd.stuck_final [OF refl run] obd.reaches_final [OF refl run] show ?thesis by blast
qed

theorem obd_always_panics_witness:
  "\<exists>t. obd_step\<^sup>*\<^sup>* obd_init t \<and> obd_panic t = Some SendOnClosedChannel"
  using obd_always_panics [of 0 obd_init] by simp

text \<open>
  What the caller returns is one of the two producers' values or \<open>timeout\<close>, and it has closed
  the channel exactly when it has returned.
\<close>

theorem obd_result:
  assumes "obd_step\<^sup>*\<^sup>* obd_init s"
  shows "(\<exists>d. caller s = MReturned d) = dataCh_closed s \<and>
    (\<forall>d. caller s = MReturned d \<longrightarrow> d \<in> {''NHIS data'', ''Integration data'', ''timeout''})"
proof -
  have "obd_caller_inv s" using obd.reachable_inv [OF refl assms] by (simp add: obd_inv_def)
  then show ?thesis by (auto simp: obd_caller_inv_def)
qed

text \<open>The run in which the caller times out.\<close>

definition obd_at :: "caller_pc \<Rightarrow> prod_pc list \<Rightarrow> bool \<Rightarrow> bool \<Rightarrow> obd_sys" where
  "obd_at c ps f cl =
     \<lparr>caller = c, producers = ps, isChannelClosed = f, dataCh_closed = cl, obd_panic = None\<rparr>"

lemma obd_timeout_run:
  "obd_step\<^sup>*\<^sup>* obd_init (obd_at (MReturned ''timeout'') [PSleeping False, PSleeping False] True True)"
proof -
  let ?ps = "[PSleeping False, PSleeping False]"
  have "obd_step obd_init (obd_at (MSpawn 1) [PSleeping False] False False)"
    using obd_step.spawn [of obd_init 0] by (simp add: obd_init_def obd_at_def)
  moreover have "obd_step (obd_at (MSpawn 1) [PSleeping False] False False) (obd_at MSelect ?ps False False)"
    using obd_step.spawn [of "obd_at (MSpawn 1) [PSleeping False] False False" 1] by (simp add: obd_at_def)
  moreover have "obd_step (obd_at MSelect ?ps False False) (obd_at (MReturning ''timeout'') ?ps False False)"
    using obd_step.timeout [of "obd_at MSelect ?ps False False"] by (simp add: obd_at_def)
  moreover have "obd_step (obd_at (MReturning ''timeout'') ?ps False False)
      (obd_at (MStored ''timeout'') ?ps True False)"
    using obd_step.deferred_store [of "obd_at (MReturning ''timeout'') ?ps False False" "''timeout''"]
    by (simp add: obd_at_def)
  moreover have "obd_step (obd_at (MStored ''timeout'') ?ps True False)
      (obd_at (MReturned ''timeout'') ?ps True True)"
    using obd_step.deferred_close [of "obd_at (MStored ''timeout'') ?ps True False" "''timeout''"]
    by (simp add: obd_at_def)
  ultimately show ?thesis by (meson converse_rtranclp_into_rtranclp rtranclp.rtrancl_refl)
qed

theorem obd_result_witness:
  "dataCh_closed (obd_at (MReturned ''timeout'') [PSleeping False, PSleeping False] True True)"
  using obd_result [OF obd_timeout_run] by (simp add: obd_at_def)

end
