(* ===== verification/Enrichment_Main.thy ===== *)
theory Enrichment_Main
  imports Enrichment_Race
begin

text \<open>
  \<open>main\<close> of \<open>pessimistic_locking/main.go\<close>: a thousand goroutines, each of which runs one enrichment
  (a copy of the system of \<open>Enrichment_Race\<close>), prints what it returned and calls \<open>wg.Done\<close>; \<open>main\<close>
  waits for all of them and returns. A panic in any producer ends the process, and so does the
  return of \<open>main\<close>, which does not wait for the producers: the process is a race between the two.
\<close>

subsection \<open>The system\<close>

text \<open>A goroutine is its enrichment and whether it has printed the result and called \<open>wg.Done\<close>.\<close>

record om_sys =
  om_calls :: "(obd_sys \<times> bool) list"
  om_wg :: int
  om_printed :: "string list"
  om_exited :: bool

definition om_panicked :: "om_sys \<Rightarrow> bool" where
  "om_panicked s \<longleftrightarrow> list_ex (\<lambda>c. obd_panic (fst c) \<noteq> None) (om_calls s)"

definition om_running :: "om_sys \<Rightarrow> bool" where
  "om_running s \<longleftrightarrow> \<not> om_exited s \<and> \<not> om_panicked s"

inductive om_step :: "nat \<Rightarrow> om_sys \<Rightarrow> om_sys \<Rightarrow> bool" for n where
  om_spawn: "om_running s \<Longrightarrow> length (om_calls s) < n \<Longrightarrow>
    om_step n s (s\<lparr>om_wg := om_wg s + 1, om_calls := om_calls s @ [(obd_init, False)]\<rparr>)"
| om_enrich: "om_running s \<Longrightarrow> i < length (om_calls s) \<Longrightarrow> om_calls s ! i = (c, b) \<Longrightarrow> obd_step c c' \<Longrightarrow>
    om_step n s (s\<lparr>om_calls := (om_calls s)[i := (c', b)]\<rparr>)"
| om_print: "om_running s \<Longrightarrow> i < length (om_calls s) \<Longrightarrow> om_calls s ! i = (c, False) \<Longrightarrow>
    caller c = MReturned d \<Longrightarrow>
    om_step n s (s\<lparr>om_printed := om_printed s @ [d], om_wg := om_wg s - 1, om_calls := (om_calls s)[i := (c, True)]\<rparr>)"
| om_exit: "om_running s \<Longrightarrow> length (om_calls s) = n \<Longrightarrow> om_wg s = 0 \<Longrightarrow>
    om_step n s (s\<lparr>om_exited := True\<rparr>)"

definition om_init :: om_sys where
  "om_init = \<lparr>om_calls = [], om_wg = 0, om_printed = [], om_exited = False\<rparr>"

definition om_over :: "om_sys \<Rightarrow> bool" where
  "om_over s \<longleftrightarrow> om_exited s \<or> om_panicked s"

subsection \<open>Invariant and variant\<close>

definition om_counts :: "nat \<Rightarrow> om_sys \<Rightarrow> bool" where
  "om_counts n s \<longleftrightarrow>
     length (om_calls s) \<le> n \<and>
     om_wg s = int (tally (\<lambda>c. \<not> snd c) (om_calls s)) \<and>
     length (om_printed s) = tally snd (om_calls s) \<and>
     (om_exited s \<longrightarrow> length (om_calls s) = n \<and> om_wg s = 0 \<and> \<not> om_panicked s)"

definition om_values :: "om_sys \<Rightarrow> bool" where
  "om_values s \<longleftrightarrow>
     list_all (\<lambda>c. obd_inv (fst c)) (om_calls s) \<and>
     set (om_printed s) \<subseteq> {''NHIS data'', ''Integration data'', ''timeout''}"

definition call_weight :: "obd_sys \<times> bool \<Rightarrow> nat" where
  "call_weight c = obd_variant (fst c) + (if snd c then 0 else 1)"

definition om_variant :: "nat \<Rightarrow> om_sys \<Rightarrow> nat" where
  "om_variant n s =
     13 * (n - length (om_calls s)) + weight call_weight (om_calls s) + (if om_exited s then 0 else 1)"

lemma om_step_counts:
  assumes "om_counts n s" and "om_step n s t"
  shows "om_counts n t"
  using assms(2)
proof cases
  case om_spawn
  with assms(1) show ?thesis by (auto simp: om_counts_def om_running_def)
next
  case (om_enrich i c b c')
  with assms(1) tally_update [OF om_enrich(3), of "\<lambda>c. \<not> snd c" "(c', b)"] tally_update [OF om_enrich(3), of snd "(c', b)"]
  show ?thesis by (auto simp: om_counts_def om_running_def split: if_splits)
next
  case (om_print i c d)
  with assms(1) tally_update [OF om_print(3), of "\<lambda>c. \<not> snd c" "(c, True)"] tally_update [OF om_print(3), of snd "(c, True)"]
  show ?thesis by (auto simp: om_counts_def om_running_def)
next
  case om_exit
  with assms(1) show ?thesis by (auto simp: om_counts_def om_running_def om_panicked_def)
qed

lemma om_step_values:
  assumes "om_values s" and "om_step n s t"
  shows "om_values t"
  using assms(2)
proof cases
  case om_spawn
  with assms(1) show ?thesis by (simp add: om_values_def obd_init_inv)
next
  case (om_enrich i c b c')
  then have "obd_inv c" using assms(1) by (auto simp: om_values_def list_all_length)
  then have "obd_inv c'" using om_enrich(5) by (rule obd_step_inv)
  with om_enrich assms(1) show ?thesis by (auto simp: om_values_def intro!: list_all_update)
next
  case (om_print i c d)
  then have "obd_inv c" using assms(1) by (auto simp: om_values_def list_all_length)
  with om_print assms(1) show ?thesis
    by (auto simp: om_values_def obd_inv_def obd_caller_inv_def intro!: list_all_update)
next
  case om_exit
  with assms(1) show ?thesis by (simp add: om_values_def)
qed

lemma om_step_variant:
  assumes "om_values s" and "om_step n s t"
  shows "om_variant n t < om_variant n s"
  using assms(2)
proof cases
  case om_spawn
  then show ?thesis by (simp add: om_variant_def call_weight_def obd_variant_def obd_init_def)
next
  case (om_enrich i c b c')
  then have "obd_inv c" using assms(1) by (auto simp: om_values_def list_all_length)
  from obd_step_variant [OF this om_enrich(5)] om_enrich show ?thesis
    by (simp add: om_variant_def call_weight_def weight_update_less)
next
  case (om_print i c d)
  then show ?thesis by (simp add: om_variant_def call_weight_def weight_update_less)
qed (simp add: om_variant_def om_running_def)

lemma om_step_progress:
  assumes "om_counts n s" and "om_values s" and "\<not> om_over s"
  shows "\<exists>t. om_step n s t"
proof (cases "length (om_calls s) < n \<or> om_wg s = 0")
  case True
  have "om_running s" using assms(3) by (simp add: om_running_def om_over_def)
  then show ?thesis
    using True assms(1) om_step.om_spawn [of s n] om_step.om_exit [of s n] unfolding om_counts_def by fastforce
next
  case False
  then have "0 < tally (\<lambda>c. \<not> snd c) (om_calls s)" using assms(1) by (simp add: om_counts_def)
  then obtain i where i: "i < length (om_calls s)" "\<not> snd (om_calls s ! i)" by (auto simp: tally_pos_iff)
  then obtain c where c: "om_calls s ! i = (c, False)" by (cases "om_calls s ! i") auto
  have run: "om_running s" using assms(3) by (simp add: om_running_def om_over_def)
  have "obd_inv c" "obd_panic c = None"
    using assms(2) run i(1) c by (auto simp: om_values_def om_running_def om_panicked_def list_all_length list_ex_length)
  then obtain c' where "obd_step c c'" using obd_step_progress by fastforce
  from om_step.om_enrich [OF run i(1) c this] show ?thesis by blast
qed

interpretation om: live_system "\<lambda>s. s = om_init" "om_step n" "\<lambda>s. om_counts n s \<and> om_values s" "om_variant n" om_over for n
proof unfold_locales
  fix s
  show "s = om_init \<Longrightarrow> om_counts n s \<and> om_values s" by (simp add: om_init_def om_counts_def om_values_def)
qed (auto intro: om_step_counts om_step_values om_step_variant om_step_progress)

subsection \<open>Both ends are possible\<close>

text \<open>A run of one enrichment is a run of the process, as long as the others have not panicked.\<close>

lemma om_lift_run:
  assumes "obd_step\<^sup>*\<^sup>* c c'" and "om_calls s = cs @ [(c, False)]" and "\<not> om_exited s"
    and "list_all (\<lambda>c. obd_panic (fst c) = None) cs"
  shows "(om_step n)\<^sup>*\<^sup>* s (s\<lparr>om_calls := cs @ [(c', False)]\<rparr>)"
  using assms(1)
proof (induction rule: rtranclp_induct)
  case base
  have "s\<lparr>om_calls := cs @ [(c, False)]\<rparr> = s" using assms(2) by simp
  then show ?case by simp
next
  case (step u v)
  let ?u = "s\<lparr>om_calls := cs @ [(u, False)]\<rparr>"
  have "obd_panic u = None" using step.hyps(2) by (auto elim: obd_step.cases)
  then have "om_running ?u"
    using assms(3,4) by (auto simp: om_running_def om_panicked_def list_ex_iff list_all_iff)
  then have "om_step n ?u (s\<lparr>om_calls := cs @ [(v, False)]\<rparr>)"
    using om_step.om_enrich [of ?u "length cs" u False v n] step.hyps(2) by simp
  with step.IH show ?case by (rule run_then_step)
qed

text \<open>The first producer is received while the second still sleeps.\<close>

lemma obd_received_run:
  "obd_step\<^sup>*\<^sup>* obd_init (obd_at (MReturned ''NHIS data'') [PFinished, PSleeping False] True True)"
proof -
  have "obd_step\<^sup>*\<^sup>* obd_init obd_init" ..
  also have "obd_step obd_init (obd_at (MSpawn 1) [PSleeping False] False False)"
    using obd_step.spawn [of obd_init 0] by (simp add: obd_init_def obd_at_def)
  also have "obd_step (obd_at (MSpawn 1) [PSleeping False] False False)
      (obd_at MSelect [PSleeping False, PSleeping False] False False)"
    using obd_step.spawn [of "obd_at (MSpawn 1) [PSleeping False] False False" 1] by (simp add: obd_at_def)
  also have "obd_step (obd_at MSelect [PSleeping False, PSleeping False] False False)
      (obd_at MSelect [PSending ''NHIS data'', PSleeping False] False False)"
    using obd_step.wake_send [of "obd_at MSelect [PSleeping False, PSleeping False] False False" 0 False]
    by (simp add: obd_at_def producer_def getEnrichedDataFromGovt_def)
  also have "obd_step (obd_at MSelect [PSending ''NHIS data'', PSleeping False] False False)
      (obd_at (MReturning ''NHIS data'') [PFinished, PSleeping False] False False)"
    using obd_step.deliver [of "obd_at MSelect [PSending ''NHIS data'', PSleeping False] False False" 0]
    by (simp add: obd_at_def)
  also have "obd_step (obd_at (MReturning ''NHIS data'') [PFinished, PSleeping False] False False)
      (obd_at (MStored ''NHIS data'') [PFinished, PSleeping False] True False)"
    using obd_step.deferred_store [of "obd_at (MReturning ''NHIS data'') [PFinished, PSleeping False] False False"]
    by (simp add: obd_at_def)
  also have "obd_step (obd_at (MStored ''NHIS data'') [PFinished, PSleeping False] True False)
      (obd_at (MReturned ''NHIS data'') [PFinished, PSleeping False] True True)"
    using obd_step.deferred_close [of "obd_at (MStored ''NHIS data'') [PFinished, PSleeping False] True False"]
    by (simp add: obd_at_def)
  finally show ?thesis .
qed

text \<open>\<open>k\<close> goroutines have printed; the late producers of all of them still sleep.\<close>

definition om_quiet :: "nat \<Rightarrow> om_sys" where
  "om_quiet k =
     \<lparr>om_calls = replicate k (obd_at (MReturned ''NHIS data'') [PFinished, PSleeping False] True True, True),
      om_wg = 0, om_printed = replicate k ''NHIS data'', om_exited = False\<rparr>"

lemma om_quiet_running: "om_running (om_quiet k)"
  by (simp add: om_running_def om_panicked_def om_quiet_def obd_at_def list_ex_iff)

lemma om_quiet_calls: "list_all (\<lambda>c. obd_panic (fst c) = None) (om_calls (om_quiet k))"
  by (simp add: om_quiet_def obd_at_def list_all_iff)

lemma om_quiet_spawned:
  assumes "k < n" and "obd_step\<^sup>*\<^sup>* obd_init c"
  shows "(om_step n)\<^sup>*\<^sup>* (om_quiet k)
    ((om_quiet k)\<lparr>om_wg := 1, om_calls := om_calls (om_quiet k) @ [(c, False)]\<rparr>)"
proof -
  let ?s = "(om_quiet k)\<lparr>om_wg := 1, om_calls := om_calls (om_quiet k) @ [(obd_init, False)]\<rparr>"
  have "om_step n (om_quiet k) ?s"
    using om_step.om_spawn [OF om_quiet_running, of k n] assms(1) by (simp add: om_quiet_def)
  moreover have "(om_step n)\<^sup>*\<^sup>* ?s (?s\<lparr>om_calls := om_calls (om_quiet k) @ [(c, False)]\<rparr>)"
    by (rule om_lift_run [OF assms(2) _ _ om_quiet_calls]) (simp_all add: om_quiet_def)
  ultimately show ?thesis by (simp add: converse_rtranclp_into_rtranclp)
qed

lemma om_quiet_next:
  assumes "k < n"
  shows "(om_step n)\<^sup>*\<^sup>* (om_quiet k) (om_quiet (Suc k))"
proof -
  let ?c = "obd_at (MReturned ''NHIS data'') [PFinished, PSleeping False] True True"
  let ?s = "(om_quiet k)\<lparr>om_wg := 1, om_calls := om_calls (om_quiet k) @ [(?c, False)]\<rparr>"
  have "om_running ?s"
    by (simp add: om_running_def om_panicked_def om_quiet_def obd_at_def list_ex_iff)
  then have "om_step n ?s (om_quiet (Suc k))"
    using om_step.om_print [of ?s k ?c "''NHIS data''" n]
    by (simp add: om_quiet_def obd_at_def nth_append list_update_append replicate_append_same [symmetric])
  with om_quiet_spawned [OF assms obd_received_run] show ?thesis by (rule run_then_step)
qed

lemma om_quiet_reached: "k \<le> n \<Longrightarrow> (om_step n)\<^sup>*\<^sup>* om_init (om_quiet k)"
proof (induction k)
  case 0
  have "om_init = om_quiet 0" by (simp add: om_init_def om_quiet_def)
  then show ?case by simp
next
  case (Suc k)
  then show ?case using om_quiet_next [of k n] by (simp add: rtranclp_trans [of _ om_init "om_quiet k"])
qed

lemma om_can_exit:
  "(om_step n)\<^sup>*\<^sup>* om_init ((om_quiet n)\<lparr>om_exited := True\<rparr>)"
proof -
  have "om_step n (om_quiet n) ((om_quiet n)\<lparr>om_exited := True\<rparr>)"
    by (rule om_step.om_exit [OF om_quiet_running]) (simp_all add: om_quiet_def)
  with om_quiet_reached [OF order_refl] show ?thesis by (rule run_then_step)
qed

lemma om_can_panic:
  assumes "0 < n"
  shows "\<exists>u. (om_step n)\<^sup>*\<^sup>* om_init u \<and> om_panicked u \<and> om_printed u = []"
proof -
  obtain c where c: "obd_step\<^sup>*\<^sup>* obd_init c" "obd_panic c = Some SendOnClosedChannel"
    using obd.reaches_final [OF refl rtranclp.rtrancl_refl] by blast
  let ?u = "(om_quiet 0)\<lparr>om_wg := 1, om_calls := om_calls (om_quiet 0) @ [(c, False)]\<rparr>"
  have "(om_step n)\<^sup>*\<^sup>* (om_quiet 0) ?u" by (rule om_quiet_spawned [OF assms c(1)])
  then have "(om_step n)\<^sup>*\<^sup>* om_init ?u" by (simp add: om_init_def om_quiet_def)
  moreover have "om_panicked ?u \<and> om_printed ?u = []" using c(2) by (simp add: om_panicked_def om_quiet_def)
  ultimately show ?thesis by blast
qed

subsection \<open>Properties\<close>

text \<open>
  C32. The whole process is a race. Every run of \<open>main\<close> with \<open>n\<close> requests has at most \<open>13 n + 1\<close>
  steps, and one that cannot go on has either returned from \<open>main\<close>, with exactly one printed line
  for every request, each an enrichment or \<open>timeout\<close>, or died of a send on a closed channel. Both
  happen: it may print a result for every request and exit, and, if there is a request at all, it
  may die before it printed anything.
\<close>

theorem obd_main_outcomes:
  assumes "(om_step n ^^ m) om_init s"
  shows "m \<le> 13 * n + 1 \<and>
    ((\<nexists>t. om_step n s t) \<longrightarrow>
       (om_exited s \<and> \<not> om_panicked s \<and> length (om_printed s) = n \<and>
          set (om_printed s) \<subseteq> {''NHIS data'', ''Integration data'', ''timeout''}) \<or>
       (\<not> om_exited s \<and> (\<exists>c \<in> set (om_calls s). obd_panic (fst c) = Some SendOnClosedChannel))) \<and>
    (\<exists>u. (om_step n)\<^sup>*\<^sup>* om_init u \<and> om_exited u \<and> om_printed u = replicate n ''NHIS data'') \<and>
    (0 < n \<longrightarrow> (\<exists>u. (om_step n)\<^sup>*\<^sup>* om_init u \<and> om_panicked u \<and> om_printed u = []))"
proof -
  have run: "(om_step n)\<^sup>*\<^sup>* om_init s" using assms by (rule relpowp_imp_rtranclp)
  have inv: "om_counts n s" "om_values s" using om.reachable_inv [OF refl run] by blast+
  have "m \<le> 13 * n + 1"
    using om.run_length [OF assms om.init_inv [OF refl]] by (simp add: om_variant_def om_init_def)
  moreover have "length (om_printed s) = n" if "om_exited s"
    using inv(1) that tally_all [of snd "om_calls s"] tally_pos_iff [of "\<lambda>c. \<not> snd c" "om_calls s"]
    by (auto simp: om_counts_def list_all_length)
  moreover have "\<exists>c \<in> set (om_calls s). obd_panic (fst c) = Some SendOnClosedChannel" if "om_panicked s"
    using inv(2) that by (fastforce simp: om_panicked_def om_values_def list_ex_iff list_all_iff obd_inv_def obd_caller_inv_def)
  moreover have "\<exists>u. (om_step n)\<^sup>*\<^sup>* om_init u \<and> om_exited u \<and> om_printed u = replicate n ''NHIS data''"
    using om_can_exit [of n] by (rule exI [of _ "(om_quiet n)\<lparr>om_exited := True\<rparr>", OF conjI]) (simp add: om_quiet_def)
  ultimately show ?thesis
    using om.stuck_final [OF refl run] om_can_panic inv unfolding om_over_def om_counts_def om_values_def by blast
qed

theorem obd_main_outcomes_witness:
  "(\<exists>u. (om_step 1000)\<^sup>*\<^sup>* om_init u \<and> om_exited u \<and> om_printed u = replicate 1000 ''NHIS data'') \<and>
   (\<exists>u. (om_step 1000)\<^sup>*\<^sup>* om_init u \<and> om_panicked u \<and> om_printed u = [])"
  using obd_main_outcomes [of 0 1000 om_init] by simp

end
