(* ===== verification/Go_Http.thy ===== *)
theory Go_Http
  imports Go_Prelude
begin

text \<open>
  What the handlers use of \<open>net/http\<close> and \<open>encoding/json\<close>. A response writer keeps the status
  line, the headers and the chunks written. The first \<open>WriteHeader\<close> decides the status (a later
  call is ignored), \<open>Write\<close> without one sends status 200, and a write fails when the client is gone,
  which is an argument of the operation. A JSON body is kept as a value: \<open>json.Marshal\<close> of a struct is
  the object of its tagged fields.
\<close>

datatype json =
    JNull
  | JBool bool
  | JNum int
  | JStr string
  | JTime time
  | JArr "json list"
  | JObj "(string \<times> json) list"

datatype chunk = Text string | Json json

record response =
  rw_status :: "nat option"
  rw_header :: "(string \<times> string) list"
  rw_body :: "chunk list"

definition new_response :: response where
  "new_response = \<lparr>rw_status = None, rw_header = [], rw_body = []\<rparr>"

definition write_header :: "nat \<Rightarrow> response \<Rightarrow> response" where
  "write_header code w = (if rw_status w = None then w\<lparr>rw_status := Some code\<rparr> else w)"

definition add_header :: "string \<Rightarrow> string \<Rightarrow> response \<Rightarrow> response" where
  "add_header k v w = (if rw_status w = None then w\<lparr>rw_header := rw_header w @ [(k, v)]\<rparr> else w)"

definition write_chunk :: "bool \<Rightarrow> chunk \<Rightarrow> response \<Rightarrow> bool \<times> response" where
  "write_chunk up c w =
     (let w1 = write_header 200 w in
      if up then (True, w1\<lparr>rw_body := rw_body w1 @ [c]\<rparr>) else (False, w1))"

text \<open>
  The two closing sequences of the handlers: a status with a text, and a JSON answer that, when its write
  fails, tries to report the failure (too late for the status).
\<close>

definition http_text :: "bool \<Rightarrow> nat \<Rightarrow> string \<Rightarrow> response \<Rightarrow> response" where
  "http_text up code msg w = snd (write_chunk up (Text msg) (write_header code w))"

definition http_json :: "bool \<Rightarrow> json \<Rightarrow> response \<Rightarrow> response" where
  "http_json up j w =
     (let w1 = write_header 200 (add_header ''content-type'' ''application/json'' w);
          (sent, w2) = write_chunk up (Json j) w1
      in if sent then w2 else http_text up 500 ''try again'' w2)"

text \<open>\<open>http.Error\<close>: the text as \<open>text/plain\<close>, with a line end.\<close>

definition http_error :: "bool \<Rightarrow> nat \<Rightarrow> string \<Rightarrow> response \<Rightarrow> response" where
  "http_error up code msg w =
     http_text up code (msg @ [CHR 0x0A])
       (add_header ''X-Content-Type-Options'' ''nosniff''
         (add_header ''Content-Type'' ''text/plain; charset=utf-8'' w))"

lemmas http_defs = write_header_def add_header_def write_chunk_def http_text_def http_json_def
  new_response_def Let_def

lemma http_text_status [simp]: "rw_status w = None \<Longrightarrow> rw_status (http_text up code msg w) = Some code"
  by (simp add: http_defs)

lemma http_text_body: "rw_body (http_text up code msg w) = (if up then rw_body w @ [Text msg] else rw_body w)"
  by (simp add: http_defs)

lemma http_json_status [simp]: "rw_status w = None \<Longrightarrow> rw_status (http_json up j w) = Some 200"
  by (simp add: http_defs)

lemma http_json_body: "rw_body (http_json up j w) = (if up then rw_body w @ [Json j] else rw_body w)"
  by (simp add: http_defs)

lemma http_error_status [simp]: "rw_status w = None \<Longrightarrow> rw_status (http_error up code msg w) = Some code"
  by (simp add: http_error_def add_header_def)

lemma new_response_fields [simp]:
  "rw_status new_response = None" "rw_body new_response = []" "rw_header new_response = []"
  by (simp_all add: new_response_def)

end
