(* ===== verification/Go_Sql.thy ===== *)
theory Go_Sql
  imports Go_Prelude "HOL-Library.Multiset"
begin

text \<open>
  The database as the programs see it through \<open>database/sql\<close>. The server is not part of the
  repository: a program is modelled over a parameter \<open>run\<close> that executes one of its statements on an
  abstract server state. What the statements of a program mean on its tables is read off their SQL
  text and is a definition of the component; that the server obeys it is the locale
  \<open>sql_service\<close>: a statement either fails and leaves the tables as they were, or has exactly its
  meaning. \<open>faulty_run\<close> is a server that meets the contract and fails whenever a schedule says so.
\<close>

datatype sql_val = VInt int | VStr string | VTime time | VNull

text \<open>The outcome of a statement: the rows of a query, the insert id of an \<open>insert\<close>.\<close>

record sql_result =
  res_rows :: "sql_val list list"
  res_last_id :: int
  res_affected :: int

definition rows_result :: "sql_val list list \<Rightarrow> sql_result" where
  "rows_result rs = \<lparr>res_rows = rs, res_last_id = 0, res_affected = 0\<rparr>"

definition exec_result :: "int \<Rightarrow> sql_result" where
  "exec_result i = \<lparr>res_rows = [], res_last_id = i, res_affected = 1\<rparr>"

lemma rows_result_rows [simp]: "res_rows (rows_result rs) = rs"
  by (simp add: rows_result_def)

lemma exec_result_fields [simp]: "res_last_id (exec_result i) = i" "res_rows (exec_result i) = []"
  "res_affected (exec_result i) = 1"
  by (simp_all add: exec_result_def)

text \<open>
  \<open>Scan\<close> into an \<open>int64\<close>, a \<open>string\<close> and a \<open>time.Time\<close>. \<open>NULL\<close> fits none of them. (A time scanned
  into a string would be formatted by the library; no statement here does that and the model
  refuses it.)
\<close>

fun scan_int :: "sql_val \<Rightarrow> int option" where
  "scan_int (VInt i) = Some i"
| "scan_int (VStr s) = (let (v, ok) = atoi s in if ok then Some v else None)"
| "scan_int _ = None"

fun scan_string :: "sql_val \<Rightarrow> string option" where
  "scan_string (VStr s) = Some s"
| "scan_string (VInt i) = Some (show_int i)"
| "scan_string _ = None"

fun scan_time :: "sql_val \<Rightarrow> time option" where
  "scan_time (VTime t) = Some t"
| "scan_time _ = None"

text \<open>The rows one by one; the first row that does not scan stops the loop with an error.\<close>

fun scan_rows :: "(sql_val list \<Rightarrow> 'r option) \<Rightarrow> sql_val list list \<Rightarrow> 'r list option" where
  "scan_rows f [] = Some []"
| "scan_rows f (r # rs) =
     (case f r of None \<Rightarrow> None | Some x \<Rightarrow> (case scan_rows f rs of None \<Rightarrow> None | Some xs \<Rightarrow> Some (x # xs)))"

text \<open>\<open>QueryRow\<close> and its \<open>Scan\<close>: \<open>None\<close> is a scan error, \<open>Some None\<close> is \<open>sql.ErrNoRows\<close>.\<close>

definition query_row :: "(sql_val list \<Rightarrow> 'r option) \<Rightarrow> sql_val list list \<Rightarrow> 'r option option" where
  "query_row f rs = (case rs of [] \<Rightarrow> Some None | r # _ \<Rightarrow> map_option Some (f r))"

lemma query_row_simps [simp]:
  "query_row f [] = Some None" "query_row f (r # rs) = map_option Some (f r)"
  by (simp_all add: query_row_def)

lemma scan_rows_map: "(\<And>x. x \<in> set xs \<Longrightarrow> f (g x) = Some (h x)) \<Longrightarrow> scan_rows f (map g xs) = Some (map h xs)"
  by (induction xs) simp_all

subsection \<open>Conversions the server decides\<close>

text \<open>
  How a string argument is stored in an integer column (or refused) and compared with one, how a
  time is rounded by a timestamp column, which strings a text column's collation takes for equal,
  how many characters a string has, and in which order an execution of a query without
  \<open>order by\<close> finds the rows (a permutation for each execution and number of rows). \<open>rules_ok\<close> is
  what the server's manual says of them.
\<close>

record mysql_rules =
  store_int :: "string \<Rightarrow> int option"
  eq_int :: "string \<Rightarrow> int \<Rightarrow> bool"
  store_time :: "time \<Rightarrow> time"
  collate_eq :: "string \<Rightarrow> string \<Rightarrow> bool"
  char_count :: "string \<Rightarrow> nat"
  scan_order :: "int \<Rightarrow> nat \<Rightarrow> nat list"

definition rules_ok :: "mysql_rules \<Rightarrow> bool" where
  "rules_ok R \<longleftrightarrow>
     (\<forall>i. - (2 ^ 31) \<le> i \<and> i < 2 ^ 31 \<longrightarrow> store_int R (show_int i) = Some i) \<and>
     (\<forall>i j. eq_int R (show_int i) j \<longleftrightarrow> i = j) \<and>
     (\<forall>t. \<bar>store_time R t - t\<bar> \<le> 500000000) \<and>
     (\<forall>s. collate_eq R s s) \<and>
     (\<forall>s. char_count R s \<le> length s) \<and>
     (\<forall>i n. mset (scan_order R i n) = mset [0..<n])"

definition reorder :: "mysql_rules \<Rightarrow> int \<Rightarrow> 'a list \<Rightarrow> 'a list" where
  "reorder R i xs = map ((!) xs) (scan_order R i (length xs))"

lemma mset_reorder [simp]: "rules_ok R \<Longrightarrow> mset (reorder R i xs) = mset xs"
proof -
  assume "rules_ok R"
  then have "mset (scan_order R i (length xs)) = mset [0..<length xs]" by (simp add: rules_ok_def)
  then have "mset (reorder R i xs) = mset (map ((!) xs) [0..<length xs])" unfolding reorder_def mset_map by simp
  then show ?thesis by (simp add: map_nth)
qed

lemma set_reorder [simp]: "rules_ok R \<Longrightarrow> set (reorder R i xs) = set xs"
  by (metis mset_reorder set_mset_mset)

lemma length_reorder [simp]: "rules_ok R \<Longrightarrow> length (reorder R i xs) = length xs"
  by (metis mset_reorder size_mset)

text \<open>An instance: decimal strings only, whole seconds, byte-wise equality.\<close>

definition plain_rules :: mysql_rules where
  "plain_rules =
     \<lparr>store_int = (\<lambda>s. let b = atoi_body s in
          if b = [] \<or> \<not> list_all is_digit b then None
          else Some (if atoi_neg s then - int (digits_val b) else int (digits_val b))),
      eq_int = (\<lambda>s j. let b = atoi_body s in
          b \<noteq> [] \<and> list_all is_digit b \<and>
          (if atoi_neg s then - int (digits_val b) else int (digits_val b)) = j),
      store_time = (\<lambda>t. (t + 500000000) div 1000000000 * 1000000000),
      collate_eq = (=), char_count = length, scan_order = (\<lambda>i n. [0..<n])\<rparr>"

lemma show_int_parts:
  "atoi_body (show_int i) = nat_digits (nat \<bar>i\<bar>)" "atoi_neg (show_int i) \<longleftrightarrow> i < 0"
proof -
  obtain c cs where c: "nat_digits (nat i) = c # cs" by (cases "nat_digits (nat i)") auto
  have "is_digit c" using nat_digits_hd_digit [of "nat i"] c by simp
  then have "c \<noteq> CHR ''-''" "c \<noteq> CHR ''+''" using not_is_digit_sign by auto
  then show "atoi_body (show_int i) = nat_digits (nat \<bar>i\<bar>)" "atoi_neg (show_int i) \<longleftrightarrow> i < 0"
    by (auto simp: show_int_def atoi_body_def atoi_neg_def c)
qed

lemma plain_rules_ok: "rules_ok plain_rules"
proof -
  have "\<bar>(t + 500000000) div 1000000000 * 1000000000 - t\<bar> \<le> 500000000" for t :: int
    using div_mult_mod_eq [of "t + 500000000" 1000000000]
      pos_mod_bound [of 1000000000 "t + 500000000"] pos_mod_sign [of 1000000000 "t + 500000000"]
    by linarith
  then show ?thesis
    by (auto simp: rules_ok_def plain_rules_def Let_def show_int_parts nat_digits_digits)
qed

subsection \<open>The contract of the server\<close>

locale sql_service =
  fixes run :: "'stmt \<Rightarrow> 'db \<Rightarrow> (string + sql_result) \<times> 'db"
    and tables :: "'db \<Rightarrow> 'tbl"
    and sem :: "'stmt \<Rightarrow> int \<Rightarrow> 'tbl \<Rightarrow> (sql_result \<times> 'tbl) option"
  assumes run_ok: "run q d = (Inr r, d') \<Longrightarrow> \<exists>i. sem q i (tables d) = Some (r, tables d')"
    and run_err: "run q d = (Inl e, d') \<Longrightarrow> tables d' = tables d"
begin

text \<open>A property of the tables that every statement's meaning keeps, every execution keeps.\<close>

lemma run_keeps:
  assumes "\<And>q i t r t'. P t \<Longrightarrow> sem q i t = Some (r, t') \<Longrightarrow> P t'" and "P (tables d)"
  shows "P (tables (snd (run q d)))"
  using assms run_ok [of q d] run_err [of q d]
  by (cases "run q d"; cases "fst (run q d)") (fastforce+)

text \<open>A query whose meaning leaves the tables alone leaves them alone.\<close>

lemma run_query:
  assumes "\<And>i t. sem q i t = Some (rows_result (f t), t)" and "run q d = (Inr r, d')"
  shows "r = rows_result (f (tables d)) \<and> tables d' = tables d"
  using run_ok [OF assms(2)] assms(1) by auto

end

subsection \<open>A server that meets the contract\<close>

text \<open>
  The state has the tables, the outcomes of the next statements (true: the statement fails) and
  the next automatic id.
\<close>

record 'tbl faulty_db =
  fd_tables :: 'tbl
  fd_faults :: "bool list"
  fd_next :: int

definition faulty_run ::
    "('stmt \<Rightarrow> int \<Rightarrow> 'tbl \<Rightarrow> (sql_result \<times> 'tbl) option) \<Rightarrow> 'stmt \<Rightarrow> 'tbl faulty_db \<Rightarrow>
     (string + sql_result) \<times> 'tbl faulty_db" where
  "faulty_run sem q d =
     (let d1 = d\<lparr>fd_faults := tl (fd_faults d), fd_next := fd_next d + 1\<rparr> in
      if fd_faults d \<noteq> [] \<and> hd (fd_faults d) then (Inl ''server unavailable'', d1)
      else (case sem q (fd_next d) (fd_tables d) of
              None \<Rightarrow> (Inl ''constraint violated'', d1)
            | Some (r, t) \<Rightarrow> (Inr r, d1\<lparr>fd_tables := t\<rparr>)))"

interpretation faulty: sql_service "faulty_run sem" fd_tables sem for sem
  by unfold_locales (auto simp: faulty_run_def Let_def split: if_splits option.splits)

lemma plain_reorder [simp]: "reorder plain_rules i xs = xs"
  by (simp add: reorder_def plain_rules_def map_nth)

definition fresh_db :: "'tbl \<Rightarrow> 'tbl faulty_db" where
  "fresh_db t = \<lparr>fd_tables = t, fd_faults = [], fd_next = 1\<rparr>"

end
