(* ===== verification/Go_Duration.thy ===== *)
theory Go_Duration
  imports Go_Prelude
begin

text \<open>
  \<open>Duration.String\<close> of the package \<open>time\<close>, and \<open>time.Since\<close> of a map entry that may be missing (its zero
  time is more than 292 years ago, so the difference saturates).
\<close>

subsection \<open>\<open>Duration.String\<close>\<close>

text \<open>The zero value of \<open>time.Time\<close>, the first instant of year 1, in nanoseconds of Unix time.\<close>

definition zero_time :: time where
  "zero_time = - 62135596800 * second"

text \<open>\<open>time.Since\<close> of an entry of a map, which is the zero time when it is missing.\<close>

definition since_entry :: "time \<Rightarrow> time option \<Rightarrow> duration" where
  "since_entry now e = time_sub now (case e of None \<Rightarrow> zero_time | Some t \<Rightarrow> t)"

definition strip_zeros :: "string \<Rightarrow> string" where
  "strip_zeros s = rev (dropWhile (\<lambda>c. c = CHR ''0'') (rev s))"

definition pad_digits :: "nat \<Rightarrow> nat \<Rightarrow> string" where
  "pad_digits prec n = replicate (prec - length (nat_digits n)) CHR ''0'' @ nat_digits n"

definition fmt_frac :: "nat \<Rightarrow> nat \<Rightarrow> string" where
  "fmt_frac prec u =
     (let ds = strip_zeros (pad_digits prec (u mod 10 ^ prec)) in
      if prec = 0 \<or> ds = [] then [] else CHR ''.'' # ds)"

definition duration_abs :: "nat \<Rightarrow> string" where
  "duration_abs u =
     (if u = 0 then ''0s''
      else if u < 1000 then nat_digits u @ ''ns''
      else if u < 1000000 then nat_digits (u div 10 ^ 3) @ fmt_frac 3 u @ [char_of (0xC2 :: nat), char_of (0xB5 :: nat)] @ ''s''
      else if u < 1000000000 then nat_digits (u div 10 ^ 6) @ fmt_frac 6 u @ ''ms''
      else
        (let sec = u div 10 ^ 9; min = sec div 60; h = min div 60 in
         (if min = 0 then []
          else (if h = 0 then [] else nat_digits h @ ''h'') @ nat_digits (min mod 60) @ ''m'') @
         nat_digits (sec mod 60) @ fmt_frac 9 u @ ''s''))"

definition duration_string :: "duration \<Rightarrow> string" where
  "duration_string d = (if d < 0 then CHR ''-'' # duration_abs (nat (- d)) else duration_abs (nat d))"

lemma digit_chars:
  "digit_char 0 = CHR ''0''" "digit_char (Suc 0) = CHR ''1''" "digit_char 2 = CHR ''2''" "digit_char 3 = CHR ''3''" "digit_char 4 = CHR ''4''"
  "digit_char 5 = CHR ''5''" "digit_char 6 = CHR ''6''" "digit_char 7 = CHR ''7''" "digit_char 8 = CHR ''8''" "digit_char 9 = CHR ''9''"
  by code_simp+

lemmas duration_eval = duration_string_def duration_abs_def fmt_frac_def strip_zeros_def pad_digits_def nat_digits.simps digit_chars
  Let_def

lemma longest_duration: "duration_string (2 ^ 63 - 1) = ''2562047h47m16.854775807s''"
  by (simp add: duration_eval)

lemma since_missing: "0 \<le> now \<Longrightarrow> since_entry now None = 2 ^ 63 - 1"
  by (simp add: since_entry_def time_sub_def zero_time_def second_def)

lemma since_connected: "in_int64 (now - t) \<Longrightarrow> since_entry now (Some t) = now - t"
  by (simp add: since_entry_def time_sub_def in_int64_def)

end
