(* ===== verification/Online_Indicator.thy ===== *)
theory Online_Indicator
  imports Go_Http Go_Sql Go_Duration
begin

text \<open>
  \<open>online_offline_indicator/main.go\<close>: heartbeats are upserts of a last timestamp, by HTTP
  (\<open>handleHearBeat\<close>) and by socket event (the handler in \<open>main\<close>); \<open>fetchOnlineOfflineStatus\<close>
  prints one line per user, online when the last heartbeat is at most ten seconds old. The handlers
  run over the server parameter of \<open>Go_Sql\<close>; \<open>oi_sem\<close> is the meaning of the two statements.
\<close>

subsection \<open>The statements\<close>

type_synonym oi_table = "(int \<times> time option) list"

datatype oi_stmt = OiPrepare | OiUpsert string time time | OiSelect

fun oi_upsert :: "int \<Rightarrow> time \<Rightarrow> time \<Rightarrow> oi_table \<Rightarrow> oi_table" where
  "oi_upsert k t u [] = [(k, Some t)]"
| "oi_upsert k t u ((k', v) # rest) =
     (if k' = k then (k', Some u) # rest else (k', v) # oi_upsert k t u rest)"

definition oi_row :: "int \<times> time option \<Rightarrow> sql_val list" where
  "oi_row r = [VInt (fst r), (case snd r of None \<Rightarrow> VNull | Some t \<Rightarrow> VTime t)]"

fun oi_sem :: "mysql_rules \<Rightarrow> oi_stmt \<Rightarrow> int \<Rightarrow> oi_table \<Rightarrow> (sql_result \<times> oi_table) option" where
  "oi_sem R OiPrepare i tbl = Some (rows_result [], tbl)"
| "oi_sem R (OiUpsert uid t u) i tbl =
     (case store_int R uid of
        None \<Rightarrow> None
      | Some k \<Rightarrow> Some (exec_result k, oi_upsert k (store_time R t) (store_time R u) tbl))"
| "oi_sem R OiSelect i tbl = Some (rows_result (map oi_row (reorder R i tbl)), tbl)"

subsection \<open>The handlers\<close>

type_synonym 'db oi_run = "oi_stmt \<Rightarrow> 'db \<Rightarrow> (string + sql_result) \<times> 'db"

definition handleHearBeat ::
    "'db oi_run \<Rightarrow> bool \<Rightarrow> time \<Rightarrow> string \<Rightarrow> 'db \<Rightarrow> response \<times> 'db" where
  "handleHearBeat run up currentTime userId d =
     (if userId = [] then (http_text up 400 ''user_id required'' new_response, d)
      else (case run OiPrepare d of
         (Inl err, d1) \<Rightarrow> (http_text up 500 ''error from db'' new_response, d1)
       | (Inr _, d1) \<Rightarrow>
           (case run (OiUpsert userId currentTime currentTime) d1 of
              (Inl err, d2) \<Rightarrow> (http_text up 500 ''error from db'' new_response, d2)
            | (Inr _, d2) \<Rightarrow> (http_text up 200 ''hb updated!'' new_response, d2))))"

text \<open>The socket event has no answer; the id is the connection's.\<close>

definition hearbeat_event :: "'db oi_run \<Rightarrow> time \<Rightarrow> string \<Rightarrow> 'db \<Rightarrow> 'db" where
  "hearbeat_event run currentTime connId d =
     (case run OiPrepare d of
        (Inl err, d1) \<Rightarrow> d1
      | (Inr _, d1) \<Rightarrow> snd (run (OiUpsert connId currentTime currentTime) d1))"

definition scan_user :: "sql_val list \<Rightarrow> (int \<times> time) option" where
  "scan_user r =
     (case r of
        [a, b] \<Rightarrow> (case (scan_int a, scan_time b) of (Some i, Some t) \<Rightarrow> Some (i, t) | _ \<Rightarrow> None)
      | _ \<Rightarrow> None)"

definition status_line :: "time \<Rightarrow> int \<times> time \<Rightarrow> string" where
  "status_line currentTime us =
     (if time_sub currentTime (snd us) \<le> second * 10
      then show_int (fst us) @ '' : '' @ ''online'' @ [CHR 0x0A]
      else show_int (fst us) @ '' : last seen '' @ duration_string (time_sub currentTime (snd us)) @ [CHR 0x0A])"

definition fetchOnlineOfflineStatus :: "'db oi_run \<Rightarrow> bool \<Rightarrow> time \<Rightarrow> 'db \<Rightarrow> response \<times> 'db" where
  "fetchOnlineOfflineStatus run up currentTime d =
     (case run OiSelect d of
        (Inl err, d1) \<Rightarrow> (http_text up 500 ''error from db'' new_response, d1)
      | (Inr r, d1) \<Rightarrow>
          (case scan_rows scan_user (res_rows r) of
             None \<Rightarrow> (http_text up 500 ''error from db'' new_response, d1)
           | Some users \<Rightarrow>
               (http_text up 200 (concat (map (status_line currentTime) users)) new_response, d1)))"

text \<open>The connect handler notes when a connection came up.\<close>

definition on_connect :: "time \<Rightarrow> string \<Rightarrow> (string \<rightharpoonup> time) \<Rightarrow> (string \<rightharpoonup> time)" where
  "on_connect now connId timeTaken = timeTaken(connId \<mapsto> now)"

text \<open>The disconnect handler prints how long the connection lasted.\<close>

definition on_disconnect :: "time \<Rightarrow> string \<Rightarrow> (string \<rightharpoonup> time) \<Rightarrow> string" where
  "on_disconnect now connId timeTaken = duration_string (since_entry now (timeTaken connId))"

subsection \<open>The table\<close>

lemma oi_upsert_lookup:
  "map_of (oi_upsert k t u tbl) j =
    (if j = k then Some (if map_of tbl k = None then Some t else Some u) else map_of tbl j)"
  by (induction k t u tbl rule: oi_upsert.induct) auto

lemma oi_upsert_keys: "fst ` set (oi_upsert k t u tbl) = insert k (fst ` set tbl)"
  by (induction k t u tbl rule: oi_upsert.induct) (simp_all add: insert_commute)

lemma oi_upsert_distinct: "distinct (map fst tbl) \<Longrightarrow> distinct (map fst (oi_upsert k t u tbl))"
proof (induction tbl)
  case (Cons r tbl)
  with oi_upsert_keys [of k t u tbl] show ?case by (cases r) auto
qed simp

lemma scan_user_row: "scan_user (oi_row (k, Some t)) = Some (k, t)"
  by (simp add: scan_user_def oi_row_def)

lemma scan_user_null: "scan_user (oi_row (k, None)) = None"
  by (simp add: scan_user_def oi_row_def)

lemma scan_users:
  "scan_rows scan_user (map oi_row tbl) =
    (if None \<in> snd ` set tbl then None else Some (map (\<lambda>(k, t). (k, the t)) tbl))"
proof (induction tbl)
  case (Cons r tbl)
  show ?case
  proof (cases r)
    case (Pair k t)
    with Cons show ?thesis by (cases t) (auto simp: scan_user_row scan_user_null)
  qed
qed simp

subsection \<open>The handlers over any server that obeys the contract\<close>

locale indicator_server = sql_service run tables "oi_sem R"
  for run :: "oi_stmt \<Rightarrow> 'db \<Rightarrow> (string + sql_result) \<times> 'db" and tables :: "'db \<Rightarrow> oi_table" and R
begin

lemma prepare_tables: "run OiPrepare d = (x, d1) \<Longrightarrow> tables d1 = tables d"
  using run_ok [of OiPrepare d] run_err [of OiPrepare d] by (cases x) auto

lemma heartbeat_ok:
  assumes "handleHearBeat run up t uid d = (w, d')" and "rw_status w = Some 200"
  shows "\<exists>k. store_int R uid = Some k \<and>
    tables d' = oi_upsert k (store_time R t) (store_time R t) (tables d)"
proof -
  obtain r1 d1 r2 where prep: "run OiPrepare d = (r1, d1)"
    and ups: "run (OiUpsert uid t t) d1 = (Inr r2, d')"
    using assms by (auto simp: handleHearBeat_def split: if_splits prod.splits sum.splits)
  obtain i where "oi_sem R (OiUpsert uid t t) i (tables d1) = Some (r2, tables d')"
    using run_ok [OF ups] by blast
  then show ?thesis using prepare_tables [OF prep] by (auto split: option.splits)
qed

lemma heartbeat_failed:
  assumes "handleHearBeat run up t uid d = (w, d')" and "rw_status w \<noteq> Some 200"
  shows "tables d' = tables d"
  using assms prepare_tables [of d]
  by (auto simp: handleHearBeat_def split: if_splits prod.splits sum.splits dest!: run_err)

lemma status_ok:
  assumes "fetchOnlineOfflineStatus run True now d = (w, d')" and "rw_status w = Some 200"
  shows "\<exists>i. rw_body w = [Text (concat (map (\<lambda>(k, t). status_line now (k, the t)) (reorder R i (tables d))))] \<and> tables d' = tables d"
proof -
  obtain r where q: "run OiSelect d = (Inr r, d')" and scan: "scan_rows scan_user (res_rows r) \<noteq> None"
    using assms by (auto simp: fetchOnlineOfflineStatus_def split: prod.splits sum.splits option.splits)
  obtain i where "oi_sem R OiSelect i (tables d) = Some (r, tables d')"
    using run_ok [OF q] by blast
  then have "(rows_result (map oi_row (reorder R i (tables d))), tables d) = (r, tables d')"
    unfolding oi_sem.simps option.inject .
  note eqs = this [unfolded prod.inject]
  have r: "r = rows_result (map oi_row (reorder R i (tables d)))" by (rule eqs [THEN conjunct1, symmetric])
  have same: "tables d' = tables d" by (rule eqs [THEN conjunct2, symmetric])
  have "scan_rows scan_user (res_rows r) = Some (map (\<lambda>(k, t). (k, the t)) (reorder R i (tables d)))"
    using scan unfolding r by (simp add: scan_users split: if_splits)
  then have "w = http_text True 200
      (concat (map (status_line now) (map (\<lambda>(k, t). (k, the t)) (reorder R i (tables d))))) new_response"
    using assms(1) q by (simp add: fetchOnlineOfflineStatus_def)
  then have "rw_body w = [Text (concat (map (\<lambda>(k, t). status_line now (k, the t)) (reorder R i (tables d))))]"
    by (simp add: http_text_body comp_def split_def)
  with same show ?thesis by blast
qed

lemma status_no_null:
  assumes "rules_ok R" and "fetchOnlineOfflineStatus run True now d = (w, d')" and "rw_status w = Some 200"
  shows "None \<notin> snd ` set (tables d)"
proof -
  obtain r where q: "run OiSelect d = (Inr r, d')" and scan: "scan_rows scan_user (res_rows r) \<noteq> None"
    using assms(2,3) by (auto simp: fetchOnlineOfflineStatus_def split: prod.splits sum.splits option.splits)
  obtain i where "oi_sem R OiSelect i (tables d) = Some (r, tables d')" using run_ok [OF q] by blast
  then have "rows_result (map oi_row (reorder R i (tables d))) = r"
    unfolding oi_sem.simps option.inject prod.inject by (rule conjunct1)
  then have "None \<notin> snd ` set (reorder R i (tables d))" using scan by (auto simp: scan_users split: if_splits)
  then show ?thesis by (simp add: assms(1))
qed

lemma status_server_error:
  assumes "fetchOnlineOfflineStatus run up now d = (w, d')" and "rw_status w \<noteq> Some 200"
  shows "rw_status w = Some 500 \<and> tables d' = tables d"
  using assms run_ok [of OiSelect d] run_err [of OiSelect d]
  by (auto simp: fetchOnlineOfflineStatus_def split: prod.splits sum.splits option.splits)

end

interpretation oi_faulty: indicator_server "faulty_run (oi_sem R)" fd_tables R for R
  by (simp add: indicator_server_def faulty.sql_service_axioms)

lemma status_line_online: "now - t \<le> 10 * second \<Longrightarrow> status_line now (k, t) = show_int k @ '' : online'' @ [CHR 0x0A]"
  by (simp add: status_line_def time_sub_le_iff second_def)

lemma status_line_offline:
  "now - t > 10 * second \<Longrightarrow>
    status_line now (k, t) = show_int k @ '' : last seen '' @ duration_string (time_sub now t) @ [CHR 0x0A]"
  by (simp add: status_line_def time_sub_le_iff second_def)

subsection \<open>Properties\<close>

text \<open>
  A heartbeat answered with status 200 decides the next status page: the page has the user's
  line, online if the page is served within 9.5 seconds of the heartbeat and \<open>last seen\<close> after more
  than 10.5 seconds (between the two it depends on how the timestamp column rounds).
\<close>

theorem heartbeat_then_status:
  assumes "indicator_server run tables R" and "rules_ok R"
    and "- (2 ^ 31) \<le> k \<and> k < 2 ^ 31"
    and "handleHearBeat run up t (show_int k) d = (w, d1)" and "rw_status w = Some 200"
    and "fetchOnlineOfflineStatus run True now d1 = (w', d2)" and "rw_status w' = Some 200"
  shows "\<exists>line pre post. rw_body w' = [Text (pre @ line @ post)] \<and>
    (now - t \<le> 9500000000 \<longrightarrow> line = show_int k @ '' : online'' @ [CHR 0x0A]) \<and>
    (now - t > 10500000000 \<longrightarrow> (\<exists>dur. line = show_int k @ '' : last seen '' @ duration_string dur @ [CHR 0x0A]))"
proof -
  let ?st = "store_time R t"
  have "store_int R (show_int k) = Some k" using assms(2,3) by (simp add: rules_ok_def)
  then have tbl: "tables d1 = oi_upsert k ?st ?st (tables d)"
    using indicator_server.heartbeat_ok [OF assms(1,4,5)] by auto
  then have "map_of (tables d1) k = Some (Some ?st)" by (simp add: oi_upsert_lookup)
  then have row: "(k, Some ?st) \<in> set (tables d1)" by (rule map_of_SomeD)
  obtain i where "rw_body w' = [Text (concat (map (\<lambda>(k, t). status_line now (k, the t)) (reorder R i (tables d1))))]"
    using indicator_server.status_ok [OF assms(1,6,7)] by blast
  moreover obtain us vs where split: "reorder R i (tables d1) = us @ (k, Some ?st) # vs"
    using row assms(2) by (metis set_reorder in_set_conv_decomp)
  ultimately have "rw_body w' = [Text (concat (map (\<lambda>(k, t). status_line now (k, the t)) (us @ (k, Some ?st) # vs)))]" by simp
  then obtain pre post where body: "rw_body w' = [Text (pre @ status_line now (k, ?st) @ post)]"
    by (simp add: split)
  have "\<bar>?st - t\<bar> \<le> 500000000" using assms(2) by (simp add: rules_ok_def)
  then have "now - t \<le> 9500000000 \<Longrightarrow> now - ?st \<le> 10 * second"
    "now - t > 10500000000 \<Longrightarrow> now - ?st > 10 * second"
    by (simp_all add: second_def)
  then show ?thesis
    by (intro exI [of _ "status_line now (k, ?st)"] exI [of _ pre] exI [of _ post])
      (auto simp: body status_line_online status_line_offline)
qed

theorem heartbeat_then_status_witness:
  "\<exists>w d1 w' d2 line pre post.
    handleHearBeat (faulty_run (oi_sem plain_rules)) True 0 (show_int 7) (fresh_db []) = (w, d1) \<and>
    fetchOnlineOfflineStatus (faulty_run (oi_sem plain_rules)) True 3000000000 d1 = (w', d2) \<and>
    rw_body w' = [Text (pre @ line @ post)] \<and> line = show_int 7 @ '' : online'' @ [CHR 0x0A]"
proof -
  let ?run = "faulty_run (oi_sem plain_rules)"
  have s7: "store_int plain_rules (show_int 7) = Some 7" using plain_rules_ok by (simp add: rules_ok_def)
  have ne: "show_int 7 \<noteq> []" by (simp add: show_int_def)
  obtain w d1 where w: "handleHearBeat ?run True 0 (show_int 7) (fresh_db []) = (w, d1)"
    "rw_status w = Some 200" "fd_tables d1 = [(7, Some (store_time plain_rules 0))]" "fd_faults d1 = []"
    by (simp add: handleHearBeat_def ne faulty_run_def fresh_db_def s7)
  obtain w' d2 where w': "fetchOnlineOfflineStatus ?run True 3000000000 d1 = (w', d2)" "rw_status w' = Some 200"
    using w(3,4) by (simp add: fetchOnlineOfflineStatus_def faulty_run_def Let_def scan_user_row)
  show ?thesis
    using heartbeat_then_status [OF oi_faulty.indicator_server_axioms plain_rules_ok _ w(1,2) w'] w(1) w'(1)
    by auto
qed

text \<open>
  A heartbeat that is not answered with 200 (no \<open>user_id\<close>, a failing server, an id the table
  cannot store) leaves the table as it was; one that is changes that user's timestamp only.
\<close>

theorem heartbeat_frame:
  assumes "indicator_server run tables R" and "handleHearBeat run up t uid d = (w, d')"
  shows "(rw_status w \<noteq> Some 200 \<longrightarrow> tables d' = tables d) \<and>
    (uid = [] \<longrightarrow> rw_status w = Some 400) \<and>
    (store_int R uid = None \<longrightarrow> rw_status w \<noteq> Some 200) \<and>
    (\<forall>k j. store_int R uid = Some k \<and> j \<noteq> k \<longrightarrow> map_of (tables d') j = map_of (tables d) j)"
proof -
  note ok = indicator_server.heartbeat_ok [OF assms]
  note failed = indicator_server.heartbeat_failed [OF assms]
  have "uid = [] \<longrightarrow> rw_status w = Some 400" using assms(2) by (auto simp: handleHearBeat_def)
  moreover have "map_of (tables d') j = map_of (tables d) j" if "store_int R uid = Some k" "j \<noteq> k" for k j
  proof (cases "rw_status w = Some 200")
    case True
    with ok that show ?thesis by (auto simp: oi_upsert_lookup)
  qed (use failed in simp)
  ultimately show ?thesis using ok failed by auto
qed

theorem heartbeat_frame_witness:
  "rw_status (fst (handleHearBeat (faulty_run (oi_sem plain_rules)) True 5 ''a'' (fresh_db []))) \<noteq> Some 200"
proof -
  have "store_int plain_rules ''a'' = None"
    by (simp add: plain_rules_def atoi_body_def is_digit_def Let_def)
  then show ?thesis
    using heartbeat_frame [OF oi_faulty.indicator_server_axioms [of plain_rules] surjective_pairing,
        of True 5 "''a''" "fresh_db []"] by blast
qed

end
