(* ===== verification/Load_Balancer.thy ===== *)
theory Load_Balancer
  imports Go_Runs Go_Http
begin

text \<open>
  \<open>LoadBalancer/main.go\<close>: the balancer's record, the choice of a backend, the relaying of bytes and
  the accept loop. \<open>lb_choose\<close> is the choice made by one request alone; \<open>lb_step\<close> is the same code
  cut at its reads and writes of the shared \<open>LastUsed\<close>, which the mutex does not cover, for any
  number of concurrent requests. Dialling and the two connections are parameters: what \<open>net.Dial\<close>
  answers, and the chunks each side delivers.
\<close>

record Backend =
  Host :: string
  Port :: string
  Total :: int

record LB =
  Servers :: "Backend list"
  LastUsed :: int

definition NewLB :: LB where
  "NewLB =
     \<lparr>Servers = [\<lparr>Host = ''localhost'', Port = ''8000'', Total = 0\<rparr>,
                 \<lparr>Host = ''localhost'', Port = ''9000'', Total = 0\<rparr>],
      LastUsed = 1\<rparr>"

definition bump_total :: "Backend \<Rightarrow> Backend" where
  "bump_total b = b\<lparr>Total := wrap64 (Total b + 1)\<rparr>"

definition lb_choose :: "LB \<Rightarrow> (Backend \<times> LB) go" where
  "lb_choose lb =
     go_bind (go_rem (wrap64 (LastUsed lb + 1)) (int (length (Servers lb)))) (\<lambda>k.
     go_bind (go_index (Servers lb) k) (\<lambda>b.
     go_bind (go_update (Servers lb) k (bump_total b)) (\<lambda>servers.
       Inr (bump_total b, \<lparr>Servers = servers, LastUsed = k\<rparr>))))"

subsection \<open>Relaying\<close>

text \<open>
  \<open>io.Copy\<close> reads chunks until the end of the source and writes each one; it returns the first read
  or write error. A failing write may have sent a part of its chunk. The two copies of a connection
  are goroutines; one that fails writes an error page to the client and then ends the process.
\<close>

datatype stream_end = EndOfStream | ReadError string

datatype copy_pc = Copying | CopyDone | CopyFailed string | Reported string

record copier =
  cp_todo :: "string list"
  cp_end :: stream_end
  cp_pc :: copy_pc

inductive copier_step :: "copier \<Rightarrow> string \<Rightarrow> copier \<Rightarrow> bool" where
  chunk: "cp_pc c = Copying \<Longrightarrow> cp_todo c = w # ws \<Longrightarrow> copier_step c w (c\<lparr>cp_todo := ws\<rparr>)"
| write_error: "cp_pc c = Copying \<Longrightarrow> cp_todo c = w # ws \<Longrightarrow>
    copier_step c (take k w) (c\<lparr>cp_todo := ws, cp_pc := CopyFailed e\<rparr>)"
| end_of_stream: "cp_pc c = Copying \<Longrightarrow> cp_todo c = [] \<Longrightarrow> cp_end c = EndOfStream \<Longrightarrow>
    copier_step c [] (c\<lparr>cp_pc := CopyDone\<rparr>)"
| read_error: "cp_pc c = Copying \<Longrightarrow> cp_todo c = [] \<Longrightarrow> cp_end c = ReadError e \<Longrightarrow>
    copier_step c [] (c\<lparr>cp_pc := CopyFailed e\<rparr>)"

definition unavailable :: string where
  "unavailable =
     ''HTTP/1.1 500 InternalServerError'' @ [CHR 0x0D, CHR 0x0A, CHR 0x0D, CHR 0x0A] @ ''backend server not avialable''"

record relay_sys =
  up :: copier
  down :: copier
  to_backend :: string
  to_client :: string
  dead :: "panic option"

inductive relay_step :: "relay_sys \<Rightarrow> relay_sys \<Rightarrow> bool" where
  copy_up: "dead s = None \<Longrightarrow> copier_step (up s) w c \<Longrightarrow>
    relay_step s (s\<lparr>up := c, to_backend := to_backend s @ w\<rparr>)"
| copy_down: "dead s = None \<Longrightarrow> copier_step (down s) w c \<Longrightarrow>
    relay_step s (s\<lparr>down := c, to_client := to_client s @ w\<rparr>)"
| report_up: "dead s = None \<Longrightarrow> cp_pc (up s) = CopyFailed e \<Longrightarrow>
    relay_step s (s\<lparr>up := (up s)\<lparr>cp_pc := Reported e\<rparr>, to_client := to_client s @ take k unavailable\<rparr>)"
| report_down: "dead s = None \<Longrightarrow> cp_pc (down s) = CopyFailed e \<Longrightarrow>
    relay_step s (s\<lparr>down := (down s)\<lparr>cp_pc := Reported e\<rparr>, to_client := to_client s @ take k unavailable\<rparr>)"
| die_up: "dead s = None \<Longrightarrow> cp_pc (up s) = Reported e \<Longrightarrow>
    relay_step s (s\<lparr>dead := Some (FatalExit (''err while coping '' @ e))\<rparr>)"
| die_down: "dead s = None \<Longrightarrow> cp_pc (down s) = Reported e \<Longrightarrow>
    relay_step s (s\<lparr>dead := Some (FatalExit (''err while coping '' @ e))\<rparr>)"

definition relay_init :: "string list \<times> stream_end \<Rightarrow> string list \<times> stream_end \<Rightarrow> relay_sys" where
  "relay_init client backend =
     \<lparr>up = \<lparr>cp_todo = fst client, cp_end = snd client, cp_pc = Copying\<rparr>,
      down = \<lparr>cp_todo = fst backend, cp_end = snd backend, cp_pc = Copying\<rparr>,
      to_backend = [], to_client = [], dead = None\<rparr>"

text \<open>
  \<open>Proxy\<close> for a request alone: the choice of the backend, the dial (\<open>Some err\<close> when it fails; \<open>k\<close>
  is how much of the error page the client's socket takes), and the state in which the two copying
  goroutines start.
\<close>

definition lb_Proxy ::
    "(string \<Rightarrow> string option) \<Rightarrow> nat \<Rightarrow> string list \<times> stream_end \<Rightarrow>
     (string \<Rightarrow> string list \<times> stream_end) \<Rightarrow> LB \<Rightarrow> (relay_sys \<times> LB) go" where
  "lb_Proxy dial k client answer lb =
     go_bind (lb_choose lb) (\<lambda>(backend, lb').
       let addr = Host backend @ '':'' @ Port backend;
           conn = relay_init client (answer addr) in
       case dial addr of
         Some err \<Rightarrow>
           Inr (conn\<lparr>to_client := take k unavailable,
                     dead := Some (FatalExit (''err while dailing on host:port '' @ addr @ '' => '' @ err))\<rparr>, lb')
       | None \<Rightarrow> Inr (conn, lb'))"

text \<open>The two backends' only handler: status 200 and a line of text.\<close>

definition sayHello_1 :: "bool \<Rightarrow> response" where
  "sayHello_1 taken = http_text taken 200 (''Hello from backend server 1'' @ [CHR 0x0A]) new_response"

definition sayHello_2 :: "bool \<Rightarrow> response" where
  "sayHello_2 taken = http_text taken 200 (''server 2: Keep Implementing'' @ [CHR 0x0A]) new_response"

subsection \<open>Concurrent requests\<close>

text \<open>
  A request's position: the read of \<open>LastUsed\<close>, its write, the critical section in which
  \<open>LastUsed\<close> is read once for the count (a load and a store of that server's total) and once for
  the copy, and the chosen backend. \<open>Picked c b\<close>
  was counted for server \<open>c\<close> and dials server \<open>b\<close>. A division by zero or an index out of range would end the process; no
  run has one (\<open>lb_never_panics\<close>), so there is no rule for it.
\<close>

datatype lb_pc =
    LStart
  | LLoaded int
  | LStored
  | LLocked
  | LTotalLoaded int int
  | LCounted int
  | LCopied int int
  | Picked int int

record lb_sys =
  balancer :: LB
  lb_mutex :: "nat option"
  lb_reqs :: "lb_pc list"

inductive lb_step :: "lb_sys \<Rightarrow> lb_sys \<Rightarrow> bool" where
  accept: "lb_step s (s\<lparr>lb_reqs := lb_reqs s @ [LStart]\<rparr>)"
| read_last: "i < length (lb_reqs s) \<Longrightarrow> lb_reqs s ! i = LStart \<Longrightarrow>
    lb_step s (s\<lparr>lb_reqs := (lb_reqs s)[i := LLoaded (LastUsed (balancer s))]\<rparr>)"
| write_last: "i < length (lb_reqs s) \<Longrightarrow> lb_reqs s ! i = LLoaded v \<Longrightarrow>
    go_rem (wrap64 (v + 1)) (int (length (Servers (balancer s)))) = Inr k \<Longrightarrow>
    lb_step s (s\<lparr>balancer := (balancer s)\<lparr>LastUsed := k\<rparr>, lb_reqs := (lb_reqs s)[i := LStored]\<rparr>)"
| lock: "i < length (lb_reqs s) \<Longrightarrow> lb_reqs s ! i = LStored \<Longrightarrow> lb_mutex s = None \<Longrightarrow>
    lb_step s (s\<lparr>lb_mutex := Some i, lb_reqs := (lb_reqs s)[i := LLocked]\<rparr>)"
| load_total: "i < length (lb_reqs s) \<Longrightarrow> lb_reqs s ! i = LLocked \<Longrightarrow>
    go_index (Servers (balancer s)) (LastUsed (balancer s)) = Inr b \<Longrightarrow>
    lb_step s (s\<lparr>lb_reqs := (lb_reqs s)[i := LTotalLoaded (LastUsed (balancer s)) (Total b)]\<rparr>)"
| store_total: "i < length (lb_reqs s) \<Longrightarrow> lb_reqs s ! i = LTotalLoaded c v \<Longrightarrow>
    go_index (Servers (balancer s)) c = Inr b \<Longrightarrow>
    go_update (Servers (balancer s)) c (b\<lparr>Total := wrap64 (v + 1)\<rparr>) = Inr servers \<Longrightarrow>
    lb_step s (s\<lparr>balancer := (balancer s)\<lparr>Servers := servers\<rparr>, lb_reqs := (lb_reqs s)[i := LCounted c]\<rparr>)"
| copy: "i < length (lb_reqs s) \<Longrightarrow> lb_reqs s ! i = LCounted c \<Longrightarrow>
    lb_step s (s\<lparr>lb_reqs := (lb_reqs s)[i := LCopied c (LastUsed (balancer s))]\<rparr>)"
| unlock: "i < length (lb_reqs s) \<Longrightarrow> lb_reqs s ! i = LCopied c b \<Longrightarrow>
    lb_step s (s\<lparr>lb_mutex := None, lb_reqs := (lb_reqs s)[i := Picked c b]\<rparr>)"

definition lb_init :: lb_sys where
  "lb_init = \<lparr>balancer = NewLB, lb_mutex = None, lb_reqs = []\<rparr>"

subsection \<open>One request at a time\<close>

lemma lb_choose_eq:
  assumes "0 < length (Servers lb)" and "0 \<le> LastUsed lb" and "LastUsed lb < 2 ^ 63 - 1"
  shows "lb_choose lb =
    (let k = (LastUsed lb + 1) mod int (length (Servers lb)) in
     Inr (bump_total (Servers lb ! nat k),
          \<lparr>Servers = (Servers lb)[nat k := bump_total (Servers lb ! nat k)], LastUsed = k\<rparr>))"
proof -
  have "wrap64 (LastUsed lb + 1) = LastUsed lb + 1" using assms(2,3) by (simp add: in_int64_def)
  then show ?thesis using assms by (simp add: lb_choose_def go_index_def go_update_def Let_def)
qed

text \<open>The balancer after \<open>m\<close> requests served one after the other, and the servers they got.\<close>

fun lb_serve :: "nat \<Rightarrow> LB \<Rightarrow> (int list \<times> LB) go" where
  "lb_serve 0 lb = Inr ([], lb)"
| "lb_serve (Suc m) lb =
     go_bind (lb_serve m lb) (\<lambda>(ks, lb1).
     go_bind (lb_choose lb1) (\<lambda>(_, lb2). Inr (ks @ [LastUsed lb2], lb2)))"

definition turns :: "nat \<Rightarrow> nat \<Rightarrow> nat \<Rightarrow> nat" where
  "turns n m j = (m + n - 1 - j) div n"

lemma mod_shift_zero: "j < n \<Longrightarrow> (m + (n - j)) mod n = 0 \<longleftrightarrow> m mod n = (j :: nat)"
proof -
  assume j: "j < n"
  let ?r = "m mod n"
  have r: "?r < n" using j by simp
  have eq: "(m + (n - j)) mod n = (?r + (n - j)) mod n" by (simp add: mod_add_left_eq)
  show ?thesis
  proof (cases "?r < j")
    case True
    then have "?r + (n - j) < n" "0 < ?r + (n - j)" using j by simp_all
    with eq True j show ?thesis by simp
  next
    case False
    then have "?r + (n - j) = n + (?r - j)" using j by simp
    then have "(m + (n - j)) mod n = (n + (?r - j)) mod n" by (simp only: eq)
    also have "\<dots> = (?r - j) mod n" by (rule mod_add_self1)
    also have "\<dots> = ?r - j" using r by simp
    finally have "(m + (n - j)) mod n = ?r - j" .
    with False show ?thesis by simp
  qed
qed

lemma turns_Suc:
  assumes "j < n"
  shows "turns n (Suc m) j = turns n m j + (if m mod n = j then 1 else 0)"
proof -
  let ?a = "m + n - 1 - j"
  have 1: "Suc m + n - 1 - j = Suc ?a" and "Suc ?a = m + (n - j)" using assms by simp_all
  then have 2: "Suc ?a mod n = 0 \<longleftrightarrow> m mod n = j" using mod_shift_zero [OF assms, of m] by (simp only:)
  show ?thesis
    unfolding turns_def 1 div_Suc 2 by (cases "m mod n = j") (simp_all only: if_True if_False refl Suc_eq_plus1 add_0_right)
qed

lemma turns_balanced: "j < n \<Longrightarrow> j' < n \<Longrightarrow> turns n m j \<le> turns n m j' + 1"
proof -
  assume j: "j < n" "j' < n"
  have "m + n - 1 - j \<le> (m + n - 1 - j') + n" using j by simp
  then have "(m + n - 1 - j) div n \<le> ((m + n - 1 - j') + n) div n" by (rule div_le_mono)
  also have "\<dots> = (m + n - 1 - j') div n + 1" using j by (intro div_add_self2) simp
  finally show ?thesis by (simp only: turns_def)
qed

text \<open>
  The state \<open>m\<close> requests after a balancer whose totals are zero and whose last server is the last
  of the list (as \<open>NewLB\<close> builds it).
\<close>

definition lb_after :: "LB \<Rightarrow> nat \<Rightarrow> LB" where
  "lb_after lb m =
     \<lparr>Servers = map (\<lambda>j. (Servers lb ! j)\<lparr>Total := int (turns (length (Servers lb)) m j)\<rparr>)
         [0..<length (Servers lb)],
      LastUsed = (int m + int (length (Servers lb)) - 1) mod int (length (Servers lb))\<rparr>"

definition lb_fresh :: "LB \<Rightarrow> bool" where
  "lb_fresh lb \<longleftrightarrow>
     0 < length (Servers lb) \<and> int (length (Servers lb)) < 2 ^ 63 \<and>
     LastUsed lb = int (length (Servers lb)) - 1 \<and>
     list_all (\<lambda>b. Total b = 0) (Servers lb)"

lemma lb_after_0: "lb_fresh lb \<Longrightarrow> lb_after lb 0 = lb"
proof -
  assume f: "lb_fresh lb"
  let ?n = "length (Servers lb)"
  have "turns ?n 0 j = 0" if "j < ?n" for j using that by (simp add: turns_def)
  moreover have "(Servers lb ! j)\<lparr>Total := 0\<rparr> = Servers lb ! j" if "j < ?n" for j
    using f that by (cases "Servers lb ! j") (auto simp: lb_fresh_def list_all_length)
  ultimately have "map (\<lambda>j. (Servers lb ! j)\<lparr>Total := int (turns ?n 0 j)\<rparr>) [0..<?n] = Servers lb"
    by (intro nth_equalityI) simp_all
  moreover have "- 1 mod int ?n = int ?n - 1" using f by (simp add: lb_fresh_def zmod_minus1)
  ultimately show ?thesis using f by (cases lb) (simp add: lb_after_def lb_fresh_def)
qed

lemma turns_le: "0 < n \<Longrightarrow> turns n m j \<le> m"
proof -
  assume n: "0 < n"
  have "(m + n - 1 - j) div n \<le> (m + n - 1) div n" by (rule div_le_mono) simp
  also have "\<dots> \<le> m"
  proof (cases m)
    case (Suc k)
    have "(m + n - 1) div n = (k + n) div n" using Suc by simp
    also have "\<dots> = Suc (k div n)" using div_add_self2 [of n k] n by simp
    also have "\<dots> \<le> m" using Suc div_le_dividend [of k n] by simp
    finally show ?thesis .
  qed (use n in simp)
  finally show ?thesis by (simp add: turns_def)
qed

lemma lb_choose_after:
  assumes "lb_fresh lb" and "int m < 2 ^ 63 - 1"
  shows "\<exists>b. lb_choose (lb_after lb m) = Inr (b, lb_after lb (Suc m)) \<and>
    LastUsed (lb_after lb (Suc m)) = int (m mod length (Servers lb)) \<and>
    Host b = Host (Servers lb ! (m mod length (Servers lb))) \<and> Port b = Port (Servers lb ! (m mod length (Servers lb)))"
proof -
  let ?n = "length (Servers lb)"
  let ?l = "lb_after lb m"
  have n: "0 < ?n" using assms(1) by (simp add: lb_fresh_def)
  have len: "length (Servers ?l) = ?n" by (simp add: lb_after_def)
  have last: "LastUsed (lb_after lb (Suc m)) = int (m mod ?n)"
    by (simp add: lb_after_def zmod_int)
  have "(LastUsed ?l + 1) mod int ?n = (int m + int ?n - 1 + 1) mod int ?n"
    by (simp add: lb_after_def mod_add_left_eq)
  then have k: "(LastUsed ?l + 1) mod int ?n = int (m mod ?n)" by (simp add: zmod_int)
  have bounds: "0 \<le> LastUsed ?l" "LastUsed ?l < 2 ^ 63 - 1"
  proof -
    have "0 \<le> LastUsed ?l" "LastUsed ?l < int ?n" using n by (simp_all add: lb_after_def)
    then show "0 \<le> LastUsed ?l" "LastUsed ?l < 2 ^ 63 - 1" using assms(1) by (auto simp: lb_fresh_def)
  qed
  let ?k = "m mod ?n"
  have kn: "?k < ?n" using n by simp
  have w: "wrap64 (int (turns ?n m ?k) + 1) = int (turns ?n m ?k) + 1"
    using assms(2) turns_le [OF n, of m ?k] by (simp add: in_int64_def)
  have "(Servers ?l)[?k := bump_total (Servers ?l ! ?k)] = Servers (lb_after lb (Suc m))"
    using kn by (intro nth_equalityI)
      (auto simp: lb_after_def nth_list_update bump_total_def turns_Suc w)
  then have "lb_choose ?l = Inr (bump_total (Servers ?l ! ?k), lb_after lb (Suc m))"
    using lb_choose_eq [of ?l] n len bounds k last
    by (simp add: Let_def)
  moreover have "Host (bump_total (Servers ?l ! ?k)) = Host (Servers lb ! ?k)" "Port (bump_total (Servers ?l ! ?k)) = Port (Servers lb ! ?k)"
    using kn by (simp_all add: lb_after_def bump_total_def)
  ultimately show ?thesis using last by blast
qed

lemma lb_serve_after:
  assumes "lb_fresh lb" and "int m < 2 ^ 63"
  shows "lb_serve m lb = Inr (map (\<lambda>i. int (i mod length (Servers lb))) [0..<m], lb_after lb m)"
  using assms(2)
proof (induction m)
  case (Suc m)
  with lb_choose_after [OF assms(1), of m] show ?case by (auto simp: lb_after_0 assms(1))
qed (simp add: lb_after_0 assms(1))

lemma NewLB_fresh: "lb_fresh NewLB"
  by (simp add: lb_fresh_def NewLB_def)

subsection \<open>Invariant of the concurrent balancer\<close>

fun lb_in_cs :: "lb_pc \<Rightarrow> bool" where
  "lb_in_cs LLocked = True"
| "lb_in_cs (LTotalLoaded _ _) = True"
| "lb_in_cs (LCounted _) = True"
| "lb_in_cs (LCopied _ _) = True"
| "lb_in_cs _ = False"

fun lb_counted :: "lb_pc \<Rightarrow> bool" where
  "lb_counted (LCounted _) = True"
| "lb_counted (LCopied _ _) = True"
| "lb_counted (Picked _ _) = True"
| "lb_counted _ = False"

text \<open>The server indices a position holds.\<close>

fun lb_indices :: "lb_pc \<Rightarrow> int set" where
  "lb_indices (LLoaded v) = {v}"
| "lb_indices (LTotalLoaded c _) = {c}"
| "lb_indices (LCounted c) = {c}"
| "lb_indices (LCopied c b) = {c, b}"
| "lb_indices (Picked c b) = {c, b}"
| "lb_indices _ = {}"

definition lb_total_sum :: "LB \<Rightarrow> int" where
  "lb_total_sum lb = (\<Sum>b \<leftarrow> Servers lb. Total b)"

definition lb_range_inv :: "lb_sys \<Rightarrow> bool" where
  "lb_range_inv s \<longleftrightarrow>
     (let n = int (length (Servers (balancer s))) in
      0 < n \<and> n < 2 ^ 63 \<and> 0 \<le> LastUsed (balancer s) \<and> LastUsed (balancer s) < n \<and>
      list_all (\<lambda>pc. lb_indices pc \<subseteq> {0..<n}) (lb_reqs s))"

definition lb_lock_inv :: "lb_sys \<Rightarrow> bool" where
  "lb_lock_inv s \<longleftrightarrow>
     (\<forall>i < length (lb_reqs s). lb_in_cs (lb_reqs s ! i) \<longleftrightarrow> lb_mutex s = Some i) \<and>
     (\<forall>i. lb_mutex s = Some i \<longrightarrow> i < length (lb_reqs s)) \<and>
     (\<forall>i < length (lb_reqs s). \<forall>c v. lb_reqs s ! i = LTotalLoaded c v \<longrightarrow>
        v = Total (Servers (balancer s) ! nat c))"

text \<open>Until \<open>2^63\<close> requests have come no total overflows, and none is lost.\<close>

definition lb_sum_inv :: "lb_sys \<Rightarrow> bool" where
  "lb_sum_inv s \<longleftrightarrow>
     (int (length (lb_reqs s)) < 2 ^ 63 \<longrightarrow>
        lb_total_sum (balancer s) = int (tally lb_counted (lb_reqs s)) \<and>
        list_all (\<lambda>b. 0 \<le> Total b) (Servers (balancer s)))"

definition lb_inv :: "lb_sys \<Rightarrow> bool" where
  "lb_inv s \<longleftrightarrow> lb_range_inv s \<and> lb_lock_inv s \<and> lb_sum_inv s"

lemma lb_range_index:
  assumes "lb_range_inv s" and "i < length (lb_reqs s)" and "c \<in> lb_indices (lb_reqs s ! i)"
  shows "0 \<le> c \<and> c < int (length (Servers (balancer s)))"
  using assms by (fastforce simp: lb_range_inv_def Let_def list_all_length)

lemma lb_step_range:
  assumes "lb_range_inv s" and "lb_step s t"
  shows "lb_range_inv t"
  using assms(2)
proof cases
  case (write_last i v k)
  have "0 \<le> v" "v < int (length (Servers (balancer s)))"
    using lb_range_index [OF assms(1) write_last(2), of v] write_last(3) by simp_all
  then have "0 \<le> k \<and> k < int (length (Servers (balancer s)))"
    using write_last(4) assms(1) by (auto simp: lb_range_inv_def Let_def in_int64_def)
  with assms(1) write_last show ?thesis by (auto simp: lb_range_inv_def Let_def intro!: list_all_update)
next
  case (store_total i c v b servers)
  have "0 \<le> c \<and> c < int (length (Servers (balancer s)))"
    using lb_range_index [OF assms(1) store_total(2), of c] store_total(3) by simp
  moreover have "length servers = length (Servers (balancer s))"
    using store_total(5) by (rule go_update_length)
  ultimately show ?thesis using assms(1) store_total
    by (auto simp: lb_range_inv_def Let_def intro!: list_all_update)
next
  case (copy i c)
  have "0 \<le> c \<and> c < int (length (Servers (balancer s)))"
    using lb_range_index [OF assms(1) copy(2), of c] copy(3) by simp
  with assms(1) copy show ?thesis by (auto simp: lb_range_inv_def Let_def intro!: list_all_update)
next
  case (unlock i c b)
  have "0 \<le> x \<and> x < int (length (Servers (balancer s)))" if "x \<in> {c, b}" for x
    using lb_range_index [OF assms(1) unlock(2), of x] unlock(3) that by simp
  with assms(1) unlock show ?thesis by (auto simp: lb_range_inv_def Let_def intro!: list_all_update)
qed (use assms(1) in \<open>auto simp: lb_range_inv_def Let_def intro!: list_all_update\<close>)

lemma lb_lock_excl:
  assumes "lb_lock_inv s" "i < length (lb_reqs s)" "j < length (lb_reqs s)"
    and "lb_in_cs (lb_reqs s ! i)" "lb_in_cs (lb_reqs s ! j)"
  shows "i = j"
  using assms by (auto simp: lb_lock_inv_def)

lemma lb_step_lock:
  assumes "lb_lock_inv s" and "lb_step s t"
  shows "lb_lock_inv t"
  using assms(2)
proof cases
  case (store_total i c v b servers)
  have "\<not> lb_in_cs (lb_reqs s ! j)" if "j < length (lb_reqs s)" "j \<noteq> i" for j
    using lb_lock_excl [OF assms(1) that(1) store_total(2)] that(2) store_total(3) by auto
  then have "lb_reqs s ! j \<noteq> LTotalLoaded c' w" if "j < length (lb_reqs s)" "j \<noteq> i" for j c' w
    using that lb_in_cs.simps(2) by metis
  with store_total assms(1) show ?thesis by (auto simp: lb_lock_inv_def nth_list_update)
qed (use assms(1) in \<open>auto simp: lb_lock_inv_def nth_list_update nth_append less_Suc_eq go_index_Inr_conv\<close>)

lemma lb_total_sum_update:
  assumes "k < length ss"
  shows "(\<Sum>b \<leftarrow> ss[k := x]. Total b) = (\<Sum>b \<leftarrow> ss. Total b) - Total (ss ! k) + (Total x :: int)"
  using assms
proof (induction ss arbitrary: k)
  case (Cons y ss)
  then show ?case by (cases k) auto
qed simp

lemma sum_list_member_le:
  assumes "list_all (\<lambda>b. 0 \<le> Total b) ss" and "k < length ss"
  shows "Total (ss ! k) \<le> (\<Sum>b \<leftarrow> ss. Total b :: int)"
proof -
  have "Total (ss ! k) \<in> set (map Total ss)" using assms(2) by simp
  then show ?thesis using assms(1) by (intro member_le_sum_list) (auto simp: list_all_iff)
qed

lemma lb_step_length: "lb_step s t \<Longrightarrow> length (lb_reqs s) \<le> length (lb_reqs t)"
  by (erule lb_step.cases) auto

lemma lb_step_sum:
  assumes "lb_range_inv s" and "lb_lock_inv s" and "lb_sum_inv s" and "lb_step s t"
  shows "lb_sum_inv t"
  using assms(4)
proof cases
  case (store_total i c v b servers)
  let ?ss = "Servers (balancer s)"
  have c: "0 \<le> c" "nat c < length ?ss" "b = ?ss ! nat c"
    using store_total(4) by (auto simp: go_index_Inr_conv)
  have v: "v = Total (?ss ! nat c)" using assms(2) store_total(2,3) by (auto simp: lb_lock_inv_def)
  have servers: "servers = ?ss[nat c := b\<lparr>Total := wrap64 (v + 1)\<rparr>]"
    using store_total(5) by (simp add: go_update_Inr_conv)
  have tal: "tally lb_counted (lb_reqs t) = Suc (tally lb_counted (lb_reqs s))"
    using tally_update [OF store_total(2), of lb_counted "LCounted c"] store_total(1,3) by simp
  show ?thesis
    unfolding lb_sum_inv_def
  proof (intro impI)
    assume small: "int (length (lb_reqs t)) < 2 ^ 63"
    then have old: "(\<Sum>b \<leftarrow> ?ss. Total b) = int (tally lb_counted (lb_reqs s))"
        "list_all (\<lambda>b. 0 \<le> Total b) ?ss"
      using assms(3) store_total(1) by (simp_all add: lb_sum_inv_def lb_total_sum_def)
    have "0 \<le> v" using old(2) c(2) v by (simp add: list_all_length)
    moreover have "v + 1 < 2 ^ 63"
    proof -
      have "v \<le> int (tally lb_counted (lb_reqs s))" using sum_list_member_le [OF old(2) c(2)] old(1) v by simp
      moreover have "Suc (tally lb_counted (lb_reqs s)) \<le> length (lb_reqs t)"
        using tally_le_length [of lb_counted "lb_reqs t"] tal by simp
      ultimately show ?thesis using small by linarith
    qed
    ultimately have w: "wrap64 (v + 1) = v + 1" by (simp add: in_int64_def)
    have "lb_total_sum (balancer t) = int (tally lb_counted (lb_reqs t))"
      unfolding tal using lb_total_sum_update [OF c(2), of "b\<lparr>Total := wrap64 (v + 1)\<rparr>"] old(1)
      by (simp add: store_total(1) servers lb_total_sum_def w) (simp add: v)
    moreover have "list_all (\<lambda>b. 0 \<le> Total b) (Servers (balancer t))"
      using old(2) \<open>0 \<le> v\<close> by (simp add: store_total(1) servers w list_all_update)
    ultimately show "lb_total_sum (balancer t) = int (tally lb_counted (lb_reqs t)) \<and>
        list_all (\<lambda>b. 0 \<le> Total b) (Servers (balancer t))" ..
  qed
next
  case (copy i c)
  with assms(3) tally_update [OF copy(2), of lb_counted "LCopied c (LastUsed (balancer s))"]
  show ?thesis by (simp add: lb_sum_inv_def)
next
  case (unlock i c b)
  with assms(3) tally_update [OF unlock(2), of lb_counted "Picked c b"] show ?thesis by (simp add: lb_sum_inv_def)
next
  case accept
  with assms(3) show ?thesis by (simp add: lb_sum_inv_def)
next
  case (read_last i)
  with assms(3) tally_update [OF read_last(2), of lb_counted "LLoaded (LastUsed (balancer s))"]
  show ?thesis by (simp add: lb_sum_inv_def)
next
  case (write_last i v k)
  with assms(3) tally_update [OF write_last(2), of lb_counted LStored]
  show ?thesis by (simp add: lb_sum_inv_def lb_total_sum_def)
next
  case (lock i)
  with assms(3) tally_update [OF lock(2), of lb_counted LLocked] show ?thesis by (simp add: lb_sum_inv_def)
next
  case (load_total i b)
  with assms(3) tally_update [OF load_total(2), of lb_counted "LTotalLoaded (LastUsed (balancer s)) (Total b)"]
  show ?thesis by (simp add: lb_sum_inv_def)
qed

lemma lb_init_inv: "lb_inv lb_init"
  by (simp add: lb_inv_def lb_range_inv_def lb_lock_inv_def lb_sum_inv_def lb_init_def NewLB_def lb_total_sum_def)

lemma lb_step_inv: "lb_inv s \<Longrightarrow> lb_step s t \<Longrightarrow> lb_inv t"
  unfolding lb_inv_def by (blast intro: lb_step_range lb_step_lock lb_step_sum)

interpretation lb: invariant_system "\<lambda>s. s = lb_init" lb_step lb_inv
  by unfold_locales (blast intro: lb_init_inv lb_step_inv)+

subsection \<open>The relay\<close>

inductive_cases copier_stepE: "copier_step c w d"

definition copier_rank :: "copier \<Rightarrow> nat" where
  "copier_rank c = length (cp_todo c) +
     (case cp_pc c of Copying \<Rightarrow> 3 | CopyFailed _ \<Rightarrow> 2 | _ \<Rightarrow> 0)"

lemma copier_step_rank: "copier_step c w d \<Longrightarrow> copier_rank d < copier_rank c"
  by (erule copier_stepE) (auto simp: copier_rank_def)

lemma copier_step_exists: "cp_pc c = Copying \<Longrightarrow> \<exists>w d. copier_step c w d"
proof (cases "cp_todo c")
  case Nil
  assume "cp_pc c = Copying"
  with Nil show ?thesis
    by (cases "cp_end c") (blast intro: copier_step.end_of_stream copier_step.read_error)+
qed (blast intro: copier_step.chunk)

text \<open>\<open>sent\<close> is what a copier that started on \<open>all\<close> has written.\<close>

definition copied :: "string \<Rightarrow> copier \<Rightarrow> string \<Rightarrow> bool" where
  "copied all c sent \<longleftrightarrow>
     (case cp_pc c of
        Copying \<Rightarrow> all = sent @ concat (cp_todo c)
      | CopyDone \<Rightarrow> all = sent
      | _ \<Rightarrow> \<exists>rest. all = sent @ rest)"

definition failing :: "copier \<Rightarrow> bool" where
  "failing c \<longleftrightarrow> (case cp_pc c of CopyFailed _ \<Rightarrow> True | Reported _ \<Rightarrow> True | _ \<Rightarrow> False)"

lemma copier_step_copied:
  assumes "copier_step c w d" and "copied all c sent"
  shows "copied all d (sent @ w)"
  using assms(1)
proof cases
  case (write_error w' ws k e)
  then have "all = (sent @ take k w') @ (drop k w' @ concat ws)" using assms(2) by (simp add: copied_def)
  with write_error show ?thesis unfolding copied_def by auto
qed (use assms(2) in \<open>auto simp: copied_def\<close>)

lemma copier_step_not_failing: "copier_step c w d \<Longrightarrow> \<not> failing c"
  by (erule copier_stepE) (auto simp: failing_def)

lemma copied_prefix: "copied all c sent \<Longrightarrow> \<exists>rest. all = sent @ rest"
  by (auto simp: copied_def split: copy_pc.splits)

definition relay_inv :: "string \<Rightarrow> string \<Rightarrow> relay_sys \<Rightarrow> bool" where
  "relay_inv request reply s \<longleftrightarrow>
     copied request (up s) (to_backend s) \<and>
     (failing (up s) \<or> failing (down s) \<or> copied reply (down s) (to_client s)) \<and>
     (dead s \<noteq> None \<longrightarrow> failing (up s) \<or> failing (down s))"

definition relay_rank :: "relay_sys \<Rightarrow> nat" where
  "relay_rank s = copier_rank (up s) + copier_rank (down s) + (if dead s = None then 1 else 0)"

definition relay_over :: "relay_sys \<Rightarrow> bool" where
  "relay_over s \<longleftrightarrow> dead s \<noteq> None \<or> cp_pc (up s) = CopyDone \<and> cp_pc (down s) = CopyDone"

lemma failing_simps [simp]:
  "cp_pc c = CopyFailed e \<Longrightarrow> failing c" "cp_pc c = Reported e \<Longrightarrow> failing c"
  by (simp_all add: failing_def)

lemma relay_step_inv: "relay_inv request reply s \<Longrightarrow> relay_step s t \<Longrightarrow> relay_inv request reply t"
proof (erule relay_step.cases, goal_cases)
  case (1 s' w c)
  then show ?case using copier_step_not_failing copier_step_copied by (auto simp: relay_inv_def)
next
  case (2 s' w c)
  then show ?case using copier_step_not_failing copier_step_copied by (auto simp: relay_inv_def)
qed (auto simp: relay_inv_def copied_def)

lemma relay_step_rank: "relay_step s t \<Longrightarrow> relay_rank t < relay_rank s"
  by (erule relay_step.cases) (auto simp: relay_rank_def copier_rank_def dest: copier_step_rank [unfolded copier_rank_def])

lemma relay_step_exists: "\<not> relay_over s \<Longrightarrow> \<exists>t. relay_step s t"
proof -
  assume "\<not> relay_over s"
  then have d: "dead s = None" and c: "cp_pc (up s) \<noteq> CopyDone \<or> cp_pc (down s) \<noteq> CopyDone"
    by (auto simp: relay_over_def)
  have u: "\<exists>t. relay_step s t" if "cp_pc (up s) \<noteq> CopyDone"
    using that d copier_step_exists [of "up s"] relay_step.intros(1,3,5) by (cases "cp_pc (up s)") blast+
  have "\<exists>t. relay_step s t" if "cp_pc (down s) \<noteq> CopyDone"
    using that d copier_step_exists [of "down s"] relay_step.intros(2,4,6) by (cases "cp_pc (down s)") blast+
  with u c show ?thesis by blast
qed

lemma relay_init_inv: "relay_inv (concat (fst client)) (concat (fst backend)) (relay_init client backend)"
  by (simp add: relay_inv_def relay_init_def copied_def)

interpretation relay: live_system
    "\<lambda>s. \<exists>client backend. concat (fst client) = request \<and> concat (fst backend) = reply \<and> s = relay_init client backend"
    relay_step "relay_inv request reply" relay_rank relay_over
  for request reply :: string
  by unfold_locales
    (use relay_init_inv in \<open>blast\<close>, blast intro: relay_step_inv, blast intro: relay_step_rank, blast intro: relay_step_exists)

text \<open>A run that cannot go on has delivered everything, unless the process has ended.\<close>

lemma relay_run_end:
  assumes "relay_step\<^sup>*\<^sup>* (relay_init client backend) s" and "\<nexists>t. relay_step s t" and "dead s = None"
  shows "to_backend s = concat (fst client) \<and> to_client s = concat (fst backend)"
proof -
  have "relay_inv (concat (fst client)) (concat (fst backend)) s"
    using relay.run_inv [OF assms(1) relay_init_inv] .
  moreover have "relay_over s" using relay.stuck_final [OF _ assms(1,2)] by blast
  ultimately show ?thesis using assms(3) by (auto simp: relay_over_def relay_inv_def copied_def failing_def)
qed

text \<open>
  What the client gets: the bytes of the backend, into which each copy that failed has written what the socket took of
  its error page.
\<close>

definition reported :: "copier \<Rightarrow> bool" where
  "reported c \<longleftrightarrow> (case cp_pc c of Reported e \<Rightarrow> True | _ \<Rightarrow> False)"

definition error_pages :: "nat list \<Rightarrow> string" where
  "error_pages ks = concat (map (\<lambda>k. take k unavailable) ks)"

definition client_mix :: "string \<Rightarrow> relay_sys \<Rightarrow> bool" where
  "client_mix reply s \<longleftrightarrow>
     (\<exists>sent ks. to_client s \<in> shuffles sent (error_pages ks) \<and> copied reply (down s) sent \<and>
        length ks = tally reported [up s, down s])"

lemma shuffles_append_left: "zs \<in> shuffles xs ys \<Longrightarrow> zs @ w \<in> shuffles (xs @ w) ys"
proof (induction xs ys arbitrary: zs rule: shuffles.induct)
  case (1 ys)
  have "ys @ w \<in> shuffles w ys" by (induction ys) (cases w; auto intro: Cons_in_shuffles_rightI)+
  with 1 show ?case by simp
next
  case (3 x xs y ys)
  then show ?case by (auto simp: Cons_in_shuffles_iff)
qed auto

lemma shuffles_append_right: "zs \<in> shuffles xs ys \<Longrightarrow> zs @ w \<in> shuffles xs (ys @ w)"
  using shuffles_append_left [of zs ys xs w] by (simp add: shuffles_commutes)

lemma copier_step_reported: "copier_step c w d \<Longrightarrow> \<not> reported c \<and> \<not> reported d"
  by (erule copier_stepE) (auto simp: reported_def)

lemma reported_pc [simp]:
  "cp_pc c = Reported e \<Longrightarrow> reported c" "cp_pc c = CopyFailed e \<Longrightarrow> \<not> reported c"
  by (simp_all add: reported_def)

lemma client_mix_page:
  assumes "client_mix reply s" and "down t = down s \<or> copied reply (down s) = copied reply (down t)"
    and "to_client t = to_client s @ take k unavailable" and "tally reported [up t, down t] = Suc (tally reported [up s, down s])"
  shows "client_mix reply t"
proof -
  obtain sent ks where mix: "to_client s \<in> shuffles sent (error_pages ks)" "copied reply (down s) sent"
    "length ks = tally reported [up s, down s]" using assms(1) by (auto simp: client_mix_def)
  have "to_client t \<in> shuffles sent (error_pages (ks @ [k]))"
    using shuffles_append_right [OF mix(1), of "take k unavailable"] assms(3) by (simp add: error_pages_def)
  moreover have "copied reply (down t) sent" using mix(2) assms(2) by auto
  moreover have "length (ks @ [k]) = tally reported [up t, down t]" using mix(3) assms(4) by simp
  ultimately show ?thesis unfolding client_mix_def by blast
qed

lemma client_mix_step: "client_mix reply s \<Longrightarrow> relay_step s t \<Longrightarrow> client_mix reply t"
proof (erule relay_step.cases, goal_cases)
  case (1 s' w c)
  then show ?case using copier_step_reported [of "up s'" w c] by (auto simp: client_mix_def)
next
  case (2 s' w c)
  then obtain sent ks where mix: "to_client s' \<in> shuffles sent (error_pages ks)" "copied reply (down s') sent"
    "length ks = tally reported [up s', down s']" by (auto simp: client_mix_def)
  have "to_client s' @ w \<in> shuffles (sent @ w) (error_pages ks)" by (rule shuffles_append_left [OF mix(1)])
  with 2 mix copier_step_copied [of "down s'" w c reply sent] copier_step_reported [of "down s'" w c] show ?case
    unfolding client_mix_def by (intro exI [of _ "sent @ w"] exI [of _ ks]) simp
next
  case (3 s' e k)
  then show ?case by (intro client_mix_page [of reply s' t k]) (simp_all add: reported_def)
next
  case (4 s' e k)
  then show ?case by (intro client_mix_page [of reply s' t k]) (auto simp: reported_def copied_def fun_eq_iff)
qed (auto simp: client_mix_def)

lemma client_mix_run: "relay_step\<^sup>*\<^sup>* (relay_init client backend) s \<Longrightarrow> client_mix (concat (fst backend)) s"
proof (induction rule: rtranclp_induct)
  case base
  show ?case by (auto simp: client_mix_def relay_init_def copied_def reported_def error_pages_def)
qed (rule client_mix_step)

lemma reported_failing: "reported c \<Longrightarrow> failing c"
  by (auto simp: reported_def failing_def split: copy_pc.splits)

text \<open>
  The cases \<open>lb_step\<close> has no rule for, a division by zero and an index out of range, do not occur in any run.
\<close>

lemma lb_never_panics:
  assumes "lb_step\<^sup>*\<^sup>* lb_init s" and "i < length (lb_reqs s)"
  shows "lb_reqs s ! i = LLoaded v \<Longrightarrow> \<exists>k. go_rem (wrap64 (v + 1)) (int (length (Servers (balancer s)))) = Inr k"
    and "\<exists>b. go_index (Servers (balancer s)) (LastUsed (balancer s)) = Inr b"
    and "lb_reqs s ! i = LTotalLoaded c t \<Longrightarrow> \<exists>b. go_index (Servers (balancer s)) c = Inr b"
proof -
  have inv: "lb_range_inv s" using lb.reachable_inv [OF refl assms(1)] by (simp add: lb_inv_def)
  then have range: "0 < length (Servers (balancer s))" "0 \<le> LastUsed (balancer s)"
    "LastUsed (balancer s) < int (length (Servers (balancer s)))" by (auto simp: lb_range_inv_def Let_def)
  then show "\<exists>b. go_index (Servers (balancer s)) (LastUsed (balancer s)) = Inr b" by (auto simp: go_index_Inr_conv)
  show "lb_reqs s ! i = LLoaded v \<Longrightarrow> \<exists>k. go_rem (wrap64 (v + 1)) (int (length (Servers (balancer s)))) = Inr k"
    using range(1) by (auto simp: go_rem_def)
  show "\<exists>b. go_index (Servers (balancer s)) c = Inr b" if "lb_reqs s ! i = LTotalLoaded c t"
    using lb_range_index [OF inv assms(2), of c] that by (auto simp: go_index_Inr_conv)
qed

subsection \<open>Properties\<close>

text \<open>
  C21. Requests served one after the other go round the servers in order: request \<open>i\<close> of a new
  balancer gets server \<open>i mod n\<close>, the totals count exactly the requests of each server, and no two
  totals ever differ by more than one.
\<close>

theorem lb_round_robin:
  assumes "lb_fresh lb" and "int m < 2 ^ 63"
  shows "\<exists>lb'. lb_serve m lb = Inr (map (\<lambda>i. int (i mod length (Servers lb))) [0..<m], lb') \<and>
    (\<forall>j j'. j < length (Servers lb) \<and> j' < length (Servers lb) \<longrightarrow>
       Total (Servers lb' ! j) = int (turns (length (Servers lb)) m j) \<and>
       Total (Servers lb' ! j) \<le> Total (Servers lb' ! j') + 1)"
  using lb_serve_after [OF assms] turns_balanced [of _ "length (Servers lb)" _ m]
  by (force simp: lb_after_def)

theorem lb_round_robin_witness:
  "\<exists>lb'. lb_serve 5 NewLB = Inr ([0, 1, 0, 1, 0], lb') \<and>
    Total (Servers lb' ! 0) = 3 \<and> Total (Servers lb' ! 1) = 2"
proof -
  obtain lb' where s: "lb_serve 5 NewLB = Inr (map (\<lambda>i. int (i mod length (Servers NewLB))) [0..<5], lb')"
    and t: "\<forall>j j'. j < length (Servers NewLB) \<and> j' < length (Servers NewLB) \<longrightarrow>
      Total (Servers lb' ! j) = int (turns (length (Servers NewLB)) 5 j) \<and>
      Total (Servers lb' ! j) \<le> Total (Servers lb' ! j') + 1"
    using lb_round_robin [OF NewLB_fresh, of 5] by auto
  have two: "length (Servers NewLB) = 2" by (simp add: NewLB_def)
  have "map (\<lambda>i. int (i mod 2)) [0..<5] = [0, 1, 0, 1, 0 :: int]" by code_simp
  moreover have "turns 2 5 0 = 3" "turns 2 5 1 = 2" by (simp_all add: turns_def)
  ultimately have "lb_serve 5 NewLB = Inr ([0, 1, 0, 1, 0], lb')"
      "Total (Servers lb' ! 0) = 3" "Total (Servers lb' ! 1) = 2"
    using s t [rule_format, of 0 0] t [rule_format, of 1 1] unfolding two by simp_all
  then show ?thesis by blast
qed

text \<open>
  C13. The relay is transparent: whatever the interleaving and the failures, the backend receives a
  prefix of the client's bytes, and the client a prefix of the backend's bytes as long as no copy has failed. After
  that the error pages are mixed into what the client gets: it is a shuffle of a prefix of the backend's bytes and of what the
  socket took of one error page for each failed copy that has written its page. Every run that cannot go on has either ended the
  process (only after a copy failed) or delivered exactly the client's bytes to the backend and exactly the
  backend's bytes to the client.
\<close>

theorem lb_relay_transparent:
  assumes "relay_step\<^sup>*\<^sup>* (relay_init client backend) s"
  shows "(\<exists>rest. concat (fst client) = to_backend s @ rest) \<and>
    (\<exists>sent rest ks. concat (fst backend) = sent @ rest \<and>
       to_client s \<in> shuffles sent (concat (map (\<lambda>k. take k unavailable) ks)) \<and>
       length ks \<le> (if failing (up s) then 1 else 0) + (if failing (down s) then 1 else 0)) \<and>
    (dead s \<noteq> None \<longrightarrow> failing (up s) \<or> failing (down s)) \<and>
    ((\<nexists>t. relay_step s t) \<longrightarrow>
       dead s \<noteq> None \<or> to_backend s = concat (fst client) \<and> to_client s = concat (fst backend))"
proof -
  have inv: "relay_inv (concat (fst client)) (concat (fst backend)) s"
    using relay.run_inv [OF assms relay_init_inv] .
  obtain sent ks where mix: "to_client s \<in> shuffles sent (error_pages ks)" "copied (concat (fst backend)) (down s) sent"
    "length ks = tally reported [up s, down s]" using client_mix_run [OF assms] by (auto simp: client_mix_def)
  have "length ks \<le> (if failing (up s) then 1 else 0) + (if failing (down s) then 1 else 0)"
    using mix(3) reported_failing [of "up s"] reported_failing [of "down s"] by auto
  with mix copied_prefix [OF mix(2)] have "\<exists>sent rest ks. concat (fst backend) = sent @ rest \<and>
       to_client s \<in> shuffles sent (concat (map (\<lambda>k. take k unavailable) ks)) \<and>
       length ks \<le> (if failing (up s) then 1 else 0) + (if failing (down s) then 1 else 0)"
    unfolding error_pages_def by blast
  moreover have "\<exists>rest. concat (fst client) = to_backend s @ rest" "dead s \<noteq> None \<longrightarrow> failing (up s) \<or> failing (down s)"
    using inv by (auto simp: relay_inv_def dest: copied_prefix)
  ultimately show ?thesis using relay_run_end [OF assms] by blast
qed

text \<open>The run of a request and an answer of one chunk each.\<close>

definition relay_served :: "string \<Rightarrow> string \<Rightarrow> relay_sys" where
  "relay_served x y =
     \<lparr>up = \<lparr>cp_todo = [], cp_end = EndOfStream, cp_pc = CopyDone\<rparr>, down = \<lparr>cp_todo = [], cp_end = EndOfStream, cp_pc = CopyDone\<rparr>,
      to_backend = x, to_client = y, dead = None\<rparr>"

lemma relay_served_run: "relay_step\<^sup>*\<^sup>* (relay_init ([x], EndOfStream) ([y], EndOfStream)) (relay_served x y)"
proof -
  let ?c = "([x], EndOfStream)" and ?b = "([y], EndOfStream)"
  let ?cp = "\<lambda>t p. \<lparr>cp_todo = t, cp_end = EndOfStream, cp_pc = p\<rparr>"
  let ?s = "\<lambda>u d b c. \<lparr>up = u, down = d, to_backend = b, to_client = c, dead = None\<rparr>"
  have 0: "relay_init ?c ?b = ?s (?cp [x] Copying) (?cp [y] Copying) [] []"
    by (simp add: relay_init_def)
  have "relay_step\<^sup>*\<^sup>* (relay_init ?c ?b) (relay_init ?c ?b)" ..
  also have "relay_step (relay_init ?c ?b) (?s (?cp [] Copying) (?cp [y] Copying) x [])"
    unfolding 0 using copy_up [OF _ chunk, of "relay_init ?c ?b" x "[]"] by (simp add: 0)
  also have "relay_step \<dots> (?s (?cp [] Copying) (?cp [] Copying) x y)"
    using copy_down [OF _ chunk, of "?s (?cp [] Copying) (?cp [y] Copying) x []" y "[]"] by simp
  also have "relay_step \<dots> (?s (?cp [] CopyDone) (?cp [] Copying) x y)"
    using copy_up [OF _ end_of_stream, of "?s (?cp [] Copying) (?cp [] Copying) x y"] by simp
  also have "relay_step \<dots> (relay_served x y)"
    using copy_down [OF _ end_of_stream, of "?s (?cp [] CopyDone) (?cp [] Copying) x y"] by (simp add: relay_served_def)
  finally show ?thesis .
qed

lemma relay_served_over: "\<nexists>t. relay_step (relay_served x y) t" "dead (relay_served x y) = None"
  by (auto simp: relay_served_def elim!: relay_step.cases copier_stepE)

theorem lb_relay_transparent_witness:
  "\<exists>s. relay_step\<^sup>*\<^sup>* (relay_init ([''GET /''], EndOfStream) ([''HELLO''], EndOfStream)) s \<and>
    (\<nexists>t. relay_step s t) \<and> dead s = None \<and> to_backend s = ''GET /'' \<and> to_client s = ''HELLO''"
  using lb_relay_transparent [OF relay_served_run] relay_served_run relay_served_over
  by (intro exI [of _ "relay_served ''GET /'' ''HELLO''"]) simp

text \<open>
  Concurrent requests never lose a count, although \<open>LastUsed\<close> is read and written outside the
  mutex: in every reachable state the totals add up to the number of requests that have counted
  (up to \<open>2^63\<close> requests), \<open>LastUsed\<close> stays in range, and at most one request is between \<open>Lock\<close> and
  \<open>Unlock\<close>.
\<close>

theorem lb_no_lost_count:
  assumes "lb_step\<^sup>*\<^sup>* lb_init s" and "int (length (lb_reqs s)) < 2 ^ 63"
  shows "lb_total_sum (balancer s) = int (tally lb_counted (lb_reqs s)) \<and>
    0 \<le> LastUsed (balancer s) \<and> LastUsed (balancer s) < int (length (Servers (balancer s))) \<and>
    (\<forall>i j. i < length (lb_reqs s) \<and> j < length (lb_reqs s) \<and>
      lb_in_cs (lb_reqs s ! i) \<and> lb_in_cs (lb_reqs s ! j) \<longrightarrow> i = j)"
proof -
  have "lb_inv s" using lb.reachable_inv [OF refl assms(1)] .
  with assms(2) show ?thesis
    by (auto simp: lb_inv_def lb_sum_inv_def lb_range_inv_def Let_def intro: lb_lock_excl)
qed

text \<open>A run in which two requests meet: the first counts for server 0, the second then moves \<open>LastUsed\<close>.\<close>

definition lb_at :: "int \<Rightarrow> int \<Rightarrow> int \<Rightarrow> nat option \<Rightarrow> lb_pc list \<Rightarrow> lb_sys" where
  "lb_at t0 t1 k mu reqs =
     \<lparr>balancer = \<lparr>Servers = [\<lparr>Host = ''localhost'', Port = ''8000'', Total = t0\<rparr>,
                              \<lparr>Host = ''localhost'', Port = ''9000'', Total = t1\<rparr>], LastUsed = k\<rparr>,
      lb_mutex = mu, lb_reqs = reqs\<rparr>"

lemma lb_race_run:
  "lb_step\<^sup>*\<^sup>* lb_init (lb_at 1 0 1 None [Picked 0 1, LStored])"
proof -
  have "lb_step\<^sup>*\<^sup>* lb_init lb_init" ..
  also have "lb_step lb_init (lb_at 0 0 1 None [LStart])"
    using accept [of lb_init] by (simp add: lb_init_def NewLB_def lb_at_def)
  also have "lb_step (lb_at 0 0 1 None [LStart]) (lb_at 0 0 1 None [LStart, LStart])"
    using accept [of "lb_at 0 0 1 None [LStart]"] by (simp add: lb_at_def)
  also have "lb_step \<dots> (lb_at 0 0 1 None [LLoaded 1, LStart])"
    using read_last [of 0 "lb_at 0 0 1 None [LStart, LStart]"] by (simp add: lb_at_def)
  also have "lb_step \<dots> (lb_at 0 0 0 None [LStored, LStart])"
    using write_last [of 0 "lb_at 0 0 1 None [LLoaded 1, LStart]" 1 0] by (simp add: lb_at_def in_int64_def)
  also have "lb_step \<dots> (lb_at 0 0 0 (Some 0) [LLocked, LStart])"
    using lock [of 0 "lb_at 0 0 0 None [LStored, LStart]"] by (simp add: lb_at_def)
  also have "lb_step \<dots> (lb_at 0 0 0 (Some 0) [LTotalLoaded 0 0, LStart])"
    using load_total [of 0 "lb_at 0 0 0 (Some 0) [LLocked, LStart]"] by (simp add: lb_at_def go_index_def)
  also have "lb_step \<dots> (lb_at 1 0 0 (Some 0) [LCounted 0, LStart])"
    using store_total [of 0 "lb_at 0 0 0 (Some 0) [LTotalLoaded 0 0, LStart]"]
    by (simp add: lb_at_def go_index_def go_update_def in_int64_def)
  also have "lb_step \<dots> (lb_at 1 0 0 (Some 0) [LCounted 0, LLoaded 0])"
    using read_last [of 1 "lb_at 1 0 0 (Some 0) [LCounted 0, LStart]"] by (simp add: lb_at_def)
  also have "lb_step \<dots> (lb_at 1 0 1 (Some 0) [LCounted 0, LStored])"
    using write_last [of 1 "lb_at 1 0 0 (Some 0) [LCounted 0, LLoaded 0]" 0 1] by (simp add: lb_at_def in_int64_def)
  also have "lb_step \<dots> (lb_at 1 0 1 (Some 0) [LCopied 0 1, LStored])"
    using copy [of 0 "lb_at 1 0 1 (Some 0) [LCounted 0, LStored]" 0] by (simp add: lb_at_def)
  also have "lb_step \<dots> (lb_at 1 0 1 None [Picked 0 1, LStored])"
    using unlock [of 0 "lb_at 1 0 1 (Some 0) [LCopied 0 1, LStored]" 0 1] by (simp add: lb_at_def)
  finally show ?thesis .
qed

theorem lb_no_lost_count_witness:
  "lb_total_sum (balancer (lb_at 1 0 1 None [Picked 0 1, LStored])) = 1"
  using lb_no_lost_count [OF lb_race_run] by (simp add: lb_at_def)

text \<open>
  But a request can be counted for one server and sent to another: \<open>LastUsed\<close> is read twice in
  the critical section while other requests write it outside, so a state is reachable in which the
  first request was counted for server 0 and dials server 1.
\<close>

theorem lb_miscount:
  "\<exists>s. lb_step\<^sup>*\<^sup>* lb_init s \<and> lb_reqs s ! 0 = Picked 0 1 \<and>
    Total (Servers (balancer s) ! 0) = 1 \<and> Total (Servers (balancer s) ! 1) = 0"
  using lb_race_run by (intro exI [of _ "lb_at 1 0 1 None [Picked 0 1, LStored]"]) (simp add: lb_at_def)

text \<open>
  An unreachable backend: the client gets (what its socket takes of) the error page, nothing is
  sent upstream, the whole process exits, and the request has been counted all the same.
\<close>

theorem lb_dial_failure:
  assumes "lb_choose lb = Inr (b, lb')" and "dial (Host b @ '':'' @ Port b) = Some err"
  shows "\<exists>s. lb_Proxy dial k client answer lb = Inr (s, lb') \<and> to_client s = take k unavailable \<and>
    to_backend s = [] \<and> (\<exists>msg. dead s = Some (FatalExit msg)) \<and> (\<nexists>t. relay_step s t)"
  using assms by (auto simp: lb_Proxy_def Let_def relay_init_def elim!: relay_step.cases)

theorem lb_dial_failure_witness:
  "\<exists>s lb'. lb_Proxy (\<lambda>_. Some ''connection refused'') 5 ([''GET /''], EndOfStream) (\<lambda>_. ([], EndOfStream)) NewLB = Inr (s, lb') \<and>
    to_client s = ''HTTP/'' \<and> to_backend s = [] \<and> Total (Servers lb' ! 0) = 1"
proof -
  obtain b lb' where c: "lb_choose NewLB = Inr (b, lb')" and t: "Total (Servers lb' ! 0) = 1"
    using lb_choose_eq [of NewLB] by (auto simp: NewLB_def bump_total_def in_int64_def)
  show ?thesis
    using lb_dial_failure [OF c, of "\<lambda>_. Some ''connection refused''" "''connection refused''" 5] t
    by (fastforce simp: unavailable_def)
qed

end
