(* ===== verification/Slack_Tables.thy ===== *)
theory Slack_Tables
  imports Go_Sql
begin

text \<open>
  The data of \<open>slack/main.go\<close>: its structs, the four tables, the statements the program sends and
  what they mean (read off the SQL text and the \<open>create table\<close> statements kept with the program:
  automatic ids, foreign keys, \<open>varchar(25)\<close>, \<open>text\<close>). \<open>slack_wf\<close> is the integrity the tables
  have and every statement keeps.
\<close>

record User =
  uId :: int
  UserName :: string
  LastTimestamp :: time

record Channel =
  ChannelID :: int
  ChannelType :: string
  ChannelName :: string

record Membership =
  MembershipID :: int
  mem_ChannelID :: int
  UserID :: int

record Message =
  MessageID :: int
  SenderID :: int
  msg_ChannelID :: int
  Msg :: string
  CreatedAt :: time

record slack_tables =
  users :: "User list"
  channels :: "Channel list"
  memberships :: "Membership list"
  messages :: "Message list"

subsection \<open>Statements\<close>

datatype slack_stmt =
    SelUserIdName string
  | SelUserId string
  | SelChannels int int
  | SelMessages int
  | SelMembers string
  | SelUserName string
  | SelUsers
  | InsUser string time
  | InsChannel string string
  | InsMessage sql_val sql_val string time
  | InsMembership int int
  | PrepareUpsert
  | UpsertUser string string time time

text \<open>An automatic id is a new positive number of an \<open>int\<close> column.\<close>

definition fresh_id :: "int \<Rightarrow> int list \<Rightarrow> bool" where
  "fresh_id i ids \<longleftrightarrow> 0 < i \<and> i < 2 ^ 31 \<and> i \<notin> set ids"

fun store_arg :: "mysql_rules \<Rightarrow> sql_val \<Rightarrow> int option" where
  "store_arg R (VInt k) = (if - (2 ^ 31) \<le> k \<and> k < 2 ^ 31 then Some k else None)"
| "store_arg R (VStr s) = store_int R s"
| "store_arg R _ = None"

definition user_row :: "User \<Rightarrow> sql_val list" where
  "user_row u = [VInt (uId u), VStr (UserName u), VTime (LastTimestamp u)]"

definition channel_row :: "Channel \<Rightarrow> sql_val list" where
  "channel_row c = [VInt (ChannelID c), VStr (ChannelType c), VStr (ChannelName c)]"

definition membership_row :: "Membership \<Rightarrow> sql_val list" where
  "membership_row m = [VInt (MembershipID m), VInt (mem_ChannelID m), VInt (UserID m)]"

definition message_row :: "Message \<Rightarrow> sql_val list" where
  "message_row m =
     [VInt (MessageID m), VInt (SenderID m), VInt (msg_ChannelID m), VStr (Msg m), VTime (CreatedAt m)]"

text \<open>The join that looks for a channel two users share: one row per pair of memberships.\<close>

definition shared_channels :: "int \<Rightarrow> int \<Rightarrow> slack_tables \<Rightarrow> Channel list" where
  "shared_channels a b T =
     concat (map (\<lambda>c. concat (map (\<lambda>m1. concat (map (\<lambda>m2.
         if mem_ChannelID m1 = ChannelID c \<and> mem_ChannelID m2 = ChannelID c \<and> UserID m1 = a \<and> UserID m2 = b
         then [c] else []) (memberships T))) (memberships T))) (channels T))"

definition newest :: "nat \<Rightarrow> int \<Rightarrow> Message list \<Rightarrow> Message list" where
  "newest n c ms = take n (sort_key (\<lambda>m. - CreatedAt m) (filter (\<lambda>m. msg_ChannelID m = c) ms))"

fun upsert_user :: "int \<Rightarrow> string \<Rightarrow> time \<Rightarrow> time \<Rightarrow> User list \<Rightarrow> User list" where
  "upsert_user k n t t' [] = [\<lparr>uId = k, UserName = n, LastTimestamp = t\<rparr>]"
| "upsert_user k n t t' (u # us) =
     (if uId u = k then u\<lparr>LastTimestamp := t'\<rparr> # us else u # upsert_user k n t t' us)"

fun slack_sem :: "mysql_rules \<Rightarrow> slack_stmt \<Rightarrow> int \<Rightarrow> slack_tables \<Rightarrow> (sql_result \<times> slack_tables) option" where
  "slack_sem R (SelUserIdName n) i T =
     Some (rows_result (map (\<lambda>u. [VInt (uId u), VStr (UserName u)])
       (reorder R i (filter (\<lambda>u. collate_eq R n (UserName u)) (users T)))), T)"
| "slack_sem R (SelUserId n) i T =
     Some (rows_result (map (\<lambda>u. [VInt (uId u)])
       (reorder R i (filter (\<lambda>u. collate_eq R n (UserName u)) (users T)))), T)"
| "slack_sem R (SelChannels a b) i T =
     Some (rows_result (map channel_row (reorder R i (shared_channels a b T))), T)"
| "slack_sem R (SelMessages c) i T =
     Some (rows_result (map message_row (newest 10 c (reorder R i (messages T)))), T)"
| "slack_sem R (SelMembers c) i T =
     Some (rows_result (map membership_row
       (reorder R i (filter (\<lambda>m. eq_int R c (mem_ChannelID m)) (memberships T)))), T)"
| "slack_sem R (SelUserName k) i T =
     Some (rows_result (map (\<lambda>u. [VStr (UserName u)])
       (reorder R i (filter (\<lambda>u. eq_int R k (uId u)) (users T)))), T)"
| "slack_sem R SelUsers i T = Some (rows_result (map user_row (reorder R i (users T))), T)"
| "slack_sem R (InsUser n t) i T =
     (if fresh_id i (map uId (users T))
      then Some (exec_result i,
        T\<lparr>users := users T @ [\<lparr>uId = i, UserName = n, LastTimestamp = store_time R t\<rparr>]\<rparr>)
      else None)"
| "slack_sem R (InsChannel ty n) i T =
     (if fresh_id i (map ChannelID (channels T)) \<and> char_count R ty \<le> 25 \<and> char_count R n \<le> 25
      then Some (exec_result i,
        T\<lparr>channels := channels T @ [\<lparr>ChannelID = i, ChannelType = ty, ChannelName = n\<rparr>]\<rparr>)
      else None)"
| "slack_sem R (InsMessage s c m t) i T =
     (case (store_arg R s, store_arg R c) of
        (Some s', Some c') \<Rightarrow>
          if fresh_id i (map MessageID (messages T)) \<and> s' \<in> set (map uId (users T)) \<and>
             c' \<in> set (map ChannelID (channels T)) \<and> length m < 2 ^ 16
          then Some (exec_result i,
            T\<lparr>messages := messages T @
              [\<lparr>MessageID = i, SenderID = s', msg_ChannelID = c', Msg = m, CreatedAt = store_time R t\<rparr>]\<rparr>)
          else None
      | _ \<Rightarrow> None)"
| "slack_sem R (InsMembership c u) i T =
     (if fresh_id i (map MembershipID (memberships T)) \<and> u \<in> set (map uId (users T)) \<and>
         c \<in> set (map ChannelID (channels T))
      then Some (exec_result i,
        T\<lparr>memberships := memberships T @ [\<lparr>MembershipID = i, mem_ChannelID = c, UserID = u\<rparr>]\<rparr>)
      else None)"
| "slack_sem R PrepareUpsert i T = Some (rows_result [], T)"
| "slack_sem R (UpsertUser k n t t') i T =
     (case store_int R k of
        None \<Rightarrow> None
      | Some k' \<Rightarrow>
          if k' = 0 then
            (if fresh_id i (map uId (users T))
             then Some (exec_result i,
               T\<lparr>users := upsert_user i n (store_time R t) (store_time R t') (users T)\<rparr>)
             else None)
          else Some (exec_result k',
            T\<lparr>users := upsert_user k' n (store_time R t) (store_time R t') (users T)\<rparr>))"

text \<open>When an insert goes through, and what it leaves.\<close>

lemma slack_sem_insert_convs:
  "slack_sem R (InsChannel ty n) i T = Some (r, T') \<longleftrightarrow>
     fresh_id i (map ChannelID (channels T)) \<and> char_count R ty \<le> 25 \<and> char_count R n \<le> 25 \<and> r = exec_result i \<and>
     T' = T\<lparr>channels := channels T @ [\<lparr>ChannelID = i, ChannelType = ty, ChannelName = n\<rparr>]\<rparr>"
  "slack_sem R (InsMembership c u) i T = Some (r, T') \<longleftrightarrow>
     fresh_id i (map MembershipID (memberships T)) \<and> u \<in> set (map uId (users T)) \<and>
     c \<in> set (map ChannelID (channels T)) \<and> r = exec_result i \<and>
     T' = T\<lparr>memberships := memberships T @ [\<lparr>MembershipID = i, mem_ChannelID = c, UserID = u\<rparr>]\<rparr>"
  "slack_sem R (InsMessage s cv m t) i T = Some (r, T') \<longleftrightarrow>
     (\<exists>s' c'. store_arg R s = Some s' \<and> store_arg R cv = Some c' \<and>
        fresh_id i (map MessageID (messages T)) \<and> s' \<in> set (map uId (users T)) \<and>
        c' \<in> set (map ChannelID (channels T)) \<and> length m < 2 ^ 16 \<and> r = exec_result i \<and>
        T' = T\<lparr>messages := messages T @
          [\<lparr>MessageID = i, SenderID = s', msg_ChannelID = c', Msg = m, CreatedAt = store_time R t\<rparr>]\<rparr>)"
  by (auto split: option.splits)

subsection \<open>Integrity\<close>

definition slack_wf :: "slack_tables \<Rightarrow> bool" where
  "slack_wf T \<longleftrightarrow>
     distinct (map uId (users T)) \<and> 0 \<notin> set (map uId (users T)) \<and>
     distinct (map ChannelID (channels T)) \<and> list_all (\<lambda>c. 0 < ChannelID c) (channels T) \<and>
     distinct (map MembershipID (memberships T)) \<and> distinct (map MessageID (messages T)) \<and>
     list_all (\<lambda>m. mem_ChannelID m \<in> set (map ChannelID (channels T)) \<and> UserID m \<in> set (map uId (users T)))
       (memberships T) \<and>
     list_all (\<lambda>m. msg_ChannelID m \<in> set (map ChannelID (channels T)) \<and> SenderID m \<in> set (map uId (users T)))
       (messages T)"

definition no_tables :: slack_tables where
  "no_tables = \<lparr>users = [], channels = [], memberships = [], messages = []\<rparr>"

lemma no_tables_wf [simp]: "slack_wf no_tables"
  by (simp add: slack_wf_def no_tables_def)

lemma upsert_user_ids: "set (map uId (upsert_user k n t t' us)) = insert k (set (map uId us))"
  by (induction us) auto

lemma upsert_user_distinct: "distinct (map uId us) \<Longrightarrow> distinct (map uId (upsert_user k n t t' us))"
proof (induction us)
  case (Cons u us)
  with upsert_user_ids [of k n t t' us] show ?case by auto
qed simp

lemma upsert_user_wf:
  assumes "slack_wf T" and "k \<noteq> 0"
  shows "slack_wf (T\<lparr>users := upsert_user k n t t' (users T)\<rparr>)"
  using assms upsert_user_ids [of k n t t' "users T"] upsert_user_distinct [of "users T" k n t t']
  unfolding slack_wf_def by (auto simp: list_all_iff)

lemma slack_sem_wf:
  assumes "slack_wf T" and "slack_sem R q i T = Some (r, T')"
  shows "slack_wf T'"
proof (cases q)
  case (UpsertUser k n t t')
  with assms show ?thesis
    by (auto split: option.splits if_splits intro: upsert_user_wf simp: fresh_id_def)
qed (use assms in \<open>auto simp: slack_wf_def fresh_id_def list_all_iff split: if_splits option.splits\<close>)

lemma shared_channels_set:
  "c \<in> set (shared_channels a b T) \<longleftrightarrow>
    c \<in> set (channels T) \<and>
    (\<exists>m1 \<in> set (memberships T). mem_ChannelID m1 = ChannelID c \<and> UserID m1 = a) \<and>
    (\<exists>m2 \<in> set (memberships T). mem_ChannelID m2 = ChannelID c \<and> UserID m2 = b)"
  by (auto simp: shared_channels_def)

lemma membership_user: "slack_wf T \<Longrightarrow> m \<in> set (memberships T) \<Longrightarrow> UserID m \<in> set (map uId (users T))"
  by (simp add: slack_wf_def list_all_iff)

lemma membership_channel:
  "slack_wf T \<Longrightarrow> m \<in> set (memberships T) \<Longrightarrow> mem_ChannelID m \<in> set (map ChannelID (channels T))"
  by (simp add: slack_wf_def list_all_iff)

lemma shared_channels_unknown:
  assumes "slack_wf T" and "a \<notin> set (map uId (users T)) \<or> b \<notin> set (map uId (users T))"
  shows "shared_channels a b T = []"
proof -
  have "c \<notin> set (shared_channels a b T)" for c
    using membership_user [OF assms(1)] assms(2) unfolding shared_channels_set by blast
  then show ?thesis by (cases "shared_channels a b T") auto
qed

subsection \<open>The newest messages\<close>

lemma newest_length: "length (newest n c ms) \<le> n"
  by (simp add: newest_def)

lemma newest_mem: "m \<in> set (newest n c ms) \<Longrightarrow> m \<in> set ms \<and> msg_ChannelID m = c"
  by (auto simp: newest_def dest: in_set_takeD)

lemma newest_sorted: "sorted_wrt (\<lambda>m m'. CreatedAt m' \<le> CreatedAt m) (newest n c ms)"
proof -
  have "sorted (map (\<lambda>m. - CreatedAt m) (newest n c ms))"
    by (simp add: newest_def take_map [symmetric] sorted_wrt_take)
  then show ?thesis by (simp add: sorted_wrt_map)
qed

text \<open>A message of the channel that is left out is not newer than any that is shown, and then the page is full.\<close>

lemma newest_left_out:
  assumes "m \<in> set ms" and "msg_ChannelID m = c" and "m \<notin> set (newest n c ms)"
  shows "length (newest n c ms) = n \<and> (\<forall>m' \<in> set (newest n c ms). CreatedAt m \<le> CreatedAt m')"
proof -
  let ?all = "sort_key (\<lambda>m. - CreatedAt m) (filter (\<lambda>m. msg_ChannelID m = c) ms)"
  have "m \<in> set ?all" using assms(1,2) by simp
  then have m: "m \<in> set (drop n ?all)" using assms(3) unfolding newest_def
    by (metis Un_iff append_take_drop_id set_append)
  then have "n < length ?all" using not_less by fastforce
  then have "length (newest n c ms) = n" by (simp add: newest_def)
  moreover have "sorted (map (\<lambda>m. - CreatedAt m) (take n ?all @ drop n ?all))" by simp
  ultimately show ?thesis using m unfolding newest_def map_append sorted_append by fastforce
qed

end
