(* ===== verification/Slack_Server.thy ===== *)
theory Slack_Server
  imports Go_Http Go_Duration Slack_Tables "HOL-Library.List_Lexorder" "HOL-Library.Char_ord"
begin

text \<open>
  The handlers of \<open>slack/main.go\<close> over the database parameter \<open>run\<close>: \<open>createUser\<close>,
  \<open>createChannel\<close>, \<open>sendMessage\<close> and \<open>fetchOnlineOfflineStatus\<close> for HTTP, the heartbeat event of the
  socket server with the connection map \<open>wsMap\<close>, and \<open>sendMessageOverWebSocket\<close>. A handler returns
  its response and the database; one that emits also returns what it emitted, and \<open>createChannel\<close>
  the goroutines it started. \<open>up\<close> says whether the client still takes what is written.
\<close>

type_synonym 'db slack_run = "slack_stmt \<Rightarrow> 'db \<Rightarrow> (string + sql_result) \<times> 'db"

text \<open>A statement and its two continuations: \<open>if err != nil\<close> and the rest of the handler.\<close>

definition db_try ::
    "'db slack_run \<Rightarrow> slack_stmt \<Rightarrow> 'db \<Rightarrow> ('db \<Rightarrow> 'o) \<Rightarrow> (sql_result \<Rightarrow> 'db \<Rightarrow> 'o) \<Rightarrow> 'o" where
  "db_try run q d failed succeeded =
     (case run q d of (Inl err, d1) \<Rightarrow> failed d1 | (Inr r, d1) \<Rightarrow> succeeded r d1)"

definition fail_text :: "bool \<Rightarrow> string \<Rightarrow> response" where
  "fail_text up msg = http_text up 500 msg new_response"

subsection \<open>\<open>createUser\<close>\<close>

definition scan_id_name :: "sql_val list \<Rightarrow> User option" where
  "scan_id_name r =
     (case r of
        [a, b] \<Rightarrow> (case (scan_int a, scan_string b) of
             (Some i, Some n) \<Rightarrow> Some \<lparr>uId = i, UserName = n, LastTimestamp = zero_time\<rparr>
           | _ \<Rightarrow> None)
      | _ \<Rightarrow> None)"

definition new_user :: User where
  "new_user = \<lparr>uId = 0, UserName = [], LastTimestamp = zero_time\<rparr>"

definition user_json :: "User \<Rightarrow> json" where
  "user_json u =
     JObj [(''id'', JNum (uId u)), (''userName'', JStr (UserName u)), (''lastTimestamp'', JTime (LastTimestamp u))]"

definition createUser :: "'db slack_run \<Rightarrow> bool \<Rightarrow> time \<Rightarrow> string \<Rightarrow> 'db \<Rightarrow> response \<times> 'db" where
  "createUser run up currTime userName d =
     db_try run (SelUserIdName userName) d
       (\<lambda>d1. (fail_text up ''fetch try again'', d1))
       (\<lambda>r d1. case query_row scan_id_name (res_rows r) of
          None \<Rightarrow> (fail_text up ''scan try again'', d1)
        | Some found \<Rightarrow>
            (let user = (case found of None \<Rightarrow> new_user | Some u \<Rightarrow> u) in
             if UserName user = [] then
               db_try run (InsUser userName currTime) d1
                 (\<lambda>d2. (fail_text up ''try again'', d2))
                 (\<lambda>res d2. (http_json up (user_json (user\<lparr>uId := res_last_id res, UserName := userName\<rparr>)) new_response, d2))
             else (http_json up (user_json user) new_response, d1)))"

subsection \<open>\<open>createChannel\<close>\<close>

definition scan_id :: "sql_val list \<Rightarrow> int option" where
  "scan_id r = (case r of [a] \<Rightarrow> scan_int a | _ \<Rightarrow> None)"

definition scan_channel :: "sql_val list \<Rightarrow> Channel option" where
  "scan_channel r =
     (case r of
        [a, b, c] \<Rightarrow> (case (scan_int a, scan_string b, scan_string c) of
             (Some i, Some ty, Some n) \<Rightarrow> Some \<lparr>ChannelID = i, ChannelType = ty, ChannelName = n\<rparr>
           | _ \<Rightarrow> None)
      | _ \<Rightarrow> None)"

definition scan_message :: "sql_val list \<Rightarrow> Message option" where
  "scan_message r =
     (case r of
        [a, b, c, m, t] \<Rightarrow>
          (case (scan_int a, scan_int b, scan_int c, scan_string m, scan_time t) of
             (Some i, Some s, Some ch, Some txt, Some at) \<Rightarrow>
               Some \<lparr>MessageID = i, SenderID = s, msg_ChannelID = ch, Msg = txt, CreatedAt = at\<rparr>
           | _ \<Rightarrow> None)
      | _ \<Rightarrow> None)"

definition message_json :: "Message \<Rightarrow> json" where
  "message_json m =
     JObj [(''message_id'', JNum (MessageID m)), (''sender_id'', JNum (SenderID m)),
           (''channel_id'', JNum (msg_ChannelID m)), (''msg'', JStr (Msg m)), (''created_at'', JTime (CreatedAt m))]"

definition new_channel :: Channel where
  "new_channel = \<lparr>ChannelID = 0, ChannelType = [], ChannelName = []\<rparr>"

text \<open>A started call of \<open>sendMessageOverWebSocket\<close>: its members, text and user name.\<close>

type_synonym ws_call = "Membership list \<times> string \<times> string"

definition created_text :: "string \<Rightarrow> string" where
  "created_text receiverName = ''channel created b/w you and '' @ receiverName"

definition open_channel ::
    "'db slack_run \<Rightarrow> bool \<Rightarrow> time \<Rightarrow> string \<Rightarrow> string \<Rightarrow> int \<Rightarrow> int \<Rightarrow> 'db \<Rightarrow> response \<times> 'db \<times> ws_call list" where
  "open_channel run up now senderName receiverName sender receiver d =
     db_try run (InsChannel ''DM'' (senderName @ ''_'' @ receiverName)) d
       (\<lambda>d1. (fail_text up ''fetch try again'', d1, []))
       (\<lambda>result d1.
          let channelId = res_last_id result; text = created_text receiverName in
          db_try run (InsMessage (VInt sender) (VInt channelId) text now) d1
            (\<lambda>d2. (fail_text up ''fetch try again'', d2, []))
            (\<lambda>result2 d2.
               let created = \<lparr>MessageID = res_last_id result2, SenderID = 0, msg_ChannelID = channelId,
                              Msg = text, CreatedAt = zero_time\<rparr>;
                   call = ([\<lparr>MembershipID = 0, mem_ChannelID = channelId, UserID = receiver\<rparr>], text, senderName) in
               db_try run (InsMembership channelId sender) d2
                 (\<lambda>d3. (fail_text up ''fetch try again'', d3, [call]))
                 (\<lambda>_ d3.
                    db_try run (InsMembership channelId receiver) d3
                      (\<lambda>d4. (fail_text up ''fetch try again'', d4, [call]))
                      (\<lambda>_ d4. (http_json up (JArr [message_json created]) new_response, d4, [call])))))"

definition show_channel :: "'db slack_run \<Rightarrow> bool \<Rightarrow> int \<Rightarrow> 'db \<Rightarrow> response \<times> 'db \<times> ws_call list" where
  "show_channel run up channelId d =
     db_try run (SelMessages channelId) d
       (\<lambda>d1. (fail_text up ''try again'', d1, []))
       (\<lambda>r d1. case scan_rows scan_message (res_rows r) of
          None \<Rightarrow> (fail_text up ''try again'', d1, [])
        | Some output \<Rightarrow> (http_json up (JArr (map message_json output)) new_response, d1, []))"

text \<open>The id of a named user, 0 when there is none, and what follows.\<close>

definition with_user_id ::
    "'db slack_run \<Rightarrow> bool \<Rightarrow> string \<Rightarrow> 'db \<Rightarrow> (int \<Rightarrow> 'db \<Rightarrow> response \<times> 'db \<times> ws_call list) \<Rightarrow>
     response \<times> 'db \<times> ws_call list" where
  "with_user_id run up name d k =
     db_try run (SelUserId name) d
       (\<lambda>d1. (fail_text up ''fetch try again'', d1, []))
       (\<lambda>r d1. case query_row scan_id (res_rows r) of
          None \<Rightarrow> (fail_text up ''scan try again'', d1, [])
        | Some found \<Rightarrow> k (case found of None \<Rightarrow> 0 | Some i \<Rightarrow> i) d1)"

definition createChannel ::
    "'db slack_run \<Rightarrow> bool \<Rightarrow> time \<Rightarrow> string \<Rightarrow> string \<Rightarrow> 'db \<Rightarrow> response \<times> 'db \<times> ws_call list" where
  "createChannel run up now senderName receiverName d =
     with_user_id run up senderName d (\<lambda>sender d1.
     with_user_id run up receiverName d1 (\<lambda>receiver d2.
     db_try run (SelChannels sender receiver) d2
       (\<lambda>d3. (fail_text up ''try again'', d3, []))
       (\<lambda>r d3. case scan_rows scan_channel (res_rows r) of
          None \<Rightarrow> (fail_text up ''try again'', d3, [])
        | Some chs \<Rightarrow>
            (let ch = (if chs = [] then new_channel else last chs) in
             if ChannelID ch = 0 then open_channel run up now senderName receiverName sender receiver d3
             else show_channel run up (ChannelID ch) d3))))"

subsection \<open>\<open>sendMessage\<close> and the sockets\<close>

type_synonym conn = string
type_synonym ws_map = "int \<rightharpoonup> conn"

text \<open>\<open>Emit(''realtime'', ...)\<close> calls, in order: the connection and the text.\<close>

type_synonym emits = "(conn \<times> string) list"

fun sendMessageOverWebSocket :: "ws_map \<Rightarrow> Membership list \<Rightarrow> string \<Rightarrow> string \<Rightarrow> emits" where
  "sendMessageOverWebSocket wsMap [] msg userName = []"
| "sendMessageOverWebSocket wsMap (member # members) msg userName =
     (case wsMap (UserID member) of
        None \<Rightarrow> sendMessageOverWebSocket wsMap members msg userName
      | Some wsServer \<Rightarrow>
          (wsServer, userName @ '':'' @ msg) # sendMessageOverWebSocket wsMap members msg userName)"

text \<open>
  The body decoded into \<open>MessageRequest\<close>: \<open>None\<close> is no JSON at all. Keys match the tag up to case
  (and the long s, which folds to s); \<open>null\<close> leaves the field alone, any other type is an error.
\<close>

fun fold_key :: "string \<Rightarrow> string" where
  "fold_key [] = []"
| "fold_key (c # cs) =
     (if c = char_of (0xC5 :: nat) \<and> cs \<noteq> [] \<and> hd cs = char_of (0xBF :: nat) then CHR ''s'' # fold_key (tl cs)
      else (if 65 \<le> (of_char c :: nat) \<and> (of_char c :: nat) \<le> 90 then char_of ((of_char c :: nat) + 32) else c) # fold_key cs)"

fun decode_fields :: "string \<Rightarrow> (string \<times> json) list \<Rightarrow> string option" where
  "decode_fields msg [] = Some msg"
| "decode_fields msg ((k, v) # kvs) =
     (if fold_key k = ''msg'' then
        (case v of JStr s \<Rightarrow> decode_fields s kvs | JNull \<Rightarrow> decode_fields msg kvs | _ \<Rightarrow> None)
      else decode_fields msg kvs)"

definition decode_request :: "json option \<Rightarrow> string option" where
  "decode_request body =
     (case body of
        Some (JObj kvs) \<Rightarrow> decode_fields [] kvs
      | Some JNull \<Rightarrow> Some []
      | _ \<Rightarrow> None)"

definition scan_membership :: "sql_val list \<Rightarrow> Membership option" where
  "scan_membership r =
     (case r of
        [a, b, c] \<Rightarrow> (case (scan_int a, scan_int b, scan_int c) of
             (Some i, Some ch, Some u) \<Rightarrow> Some \<lparr>MembershipID = i, mem_ChannelID = ch, UserID = u\<rparr>
           | _ \<Rightarrow> None)
      | _ \<Rightarrow> None)"

definition scan_name :: "sql_val list \<Rightarrow> string option" where
  "scan_name r = (case r of [a] \<Rightarrow> scan_string a | _ \<Rightarrow> None)"

definition sendMessage ::
    "'db slack_run \<Rightarrow> bool \<Rightarrow> time \<Rightarrow> string \<Rightarrow> string \<Rightarrow> json option \<Rightarrow> ws_map \<Rightarrow> 'db \<Rightarrow>
     response \<times> 'db \<times> emits" where
  "sendMessage run up currentTime senderId channelId body wsMap d =
     (case decode_request body of
        None \<Rightarrow> (http_error up 400 ''Invalid request payload'' new_response, d, [])
      | Some msg \<Rightarrow>
          db_try run (InsMessage (VStr senderId) (VStr channelId) msg currentTime) d
            (\<lambda>d1. (fail_text up ''fetch try again'', d1, []))
            (\<lambda>_ d1. db_try run (SelMembers channelId) d1
               (\<lambda>d2. (fail_text up ''fetch try again'', d2, []))
               (\<lambda>r d2. case scan_rows scan_membership (res_rows r) of
                  None \<Rightarrow> (fail_text up ''try again'', d2, [])
                | Some rows \<Rightarrow>
                    (let members = filter (\<lambda>m. UserID m \<noteq> fst (atoi senderId)) rows in
                     db_try run (SelUserName senderId) d2
                       (\<lambda>d3. (fail_text up ''fetch try again'', d3, []))
                       (\<lambda>r3 d3. case query_row scan_name (res_rows r3) of
                          None \<Rightarrow> (fail_text up ''scan try again'', d3, [])
                        | Some found \<Rightarrow>
                            (http_json up (JObj [(''msg'', JStr msg)]) new_response, d3,
                             sendMessageOverWebSocket wsMap members msg
                               (case found of None \<Rightarrow> [] | Some n \<Rightarrow> n)))))))"

subsection \<open>The socket events\<close>

text \<open>
  The heartbeat carries \<open>id,name\<close>. \<open>msg.(string)\<close> panics on any other type and \<open>splitArr[1]\<close> when
  there is no comma, which is after the connection was stored and the statement prepared.
\<close>

definition heartbeat ::
    "'db slack_run \<Rightarrow> time \<Rightarrow> conn \<Rightarrow> json \<Rightarrow> ws_map \<Rightarrow> 'db \<Rightarrow> unit go \<times> ws_map \<times> 'db" where
  "heartbeat run currentTime c msg wsMap d =
     (case msg of
        JNull \<Rightarrow> (Inr (), wsMap, d)
      | JStr s \<Rightarrow>
          (let splitArr = split_at CHR '','' s;
               userId = fst (atoi (splitArr ! 0));
               wsMap' = wsMap(userId \<mapsto> c) in
           db_try run PrepareUpsert d
             (\<lambda>d1. (Inr (), wsMap', d1))
             (\<lambda>_ d1. case go_index splitArr 1 of
                Inl p \<Rightarrow> (Inl p, wsMap', d1)
              | Inr name \<Rightarrow>
                  (Inr (), wsMap', snd (run (UpsertUser (splitArr ! 0) name currentTime currentTime) d1))))
      | _ \<Rightarrow> (Inl (PanicValue ''interface conversion''), wsMap, d))"

definition ws_on_connect :: "time \<Rightarrow> conn \<Rightarrow> (conn \<rightharpoonup> time) \<Rightarrow> (conn \<rightharpoonup> time)" where
  "ws_on_connect now c timeTaken = timeTaken(c \<mapsto> now)"

text \<open>The end of the line that the disconnect handler prints.\<close>

definition ws_on_disconnect :: "time \<Rightarrow> conn \<Rightarrow> (conn \<rightharpoonup> time) \<Rightarrow> string" where
  "ws_on_disconnect now c timeTaken = duration_string (since_entry now (timeTaken c))"

subsection \<open>\<open>fetchOnlineOfflineStatus\<close>\<close>

definition scan_user_row :: "sql_val list \<Rightarrow> User option" where
  "scan_user_row r =
     (case r of
        [a, b, c] \<Rightarrow> (case (scan_int a, scan_string b, scan_time c) of
             (Some i, Some n, Some t) \<Rightarrow> Some \<lparr>uId = i, UserName = n, LastTimestamp = t\<rparr>
           | _ \<Rightarrow> None)
      | _ \<Rightarrow> None)"

text \<open>The map from names to online flags (a later user of the same name overwrites); \<open>json.Marshal\<close> sorts the keys.\<close>

fun put_status :: "string \<Rightarrow> bool \<Rightarrow> (string \<times> bool) list \<Rightarrow> (string \<times> bool) list" where
  "put_status n b [] = [(n, b)]"
| "put_status n b ((n', b') # out) = (if n' = n then (n, b) # out else (n', b') # put_status n b out)"

definition online :: "time \<Rightarrow> User \<Rightarrow> bool" where
  "online currentTime us \<longleftrightarrow> time_sub currentTime (LastTimestamp us) \<le> second * 10"

definition status_map :: "time \<Rightarrow> User list \<Rightarrow> (string \<times> bool) list" where
  "status_map currentTime us =
     sort_key fst (foldl (\<lambda>out u. put_status (UserName u) (online currentTime u) out) [] us)"

definition slack_status :: "'db slack_run \<Rightarrow> bool \<Rightarrow> time \<Rightarrow> 'db \<Rightarrow> response \<times> 'db" where
  "slack_status run up currentTime d =
     db_try run SelUsers d
       (\<lambda>d1. (fail_text up ''error from db'', d1))
       (\<lambda>r d1. case scan_rows scan_user_row (res_rows r) of
          None \<Rightarrow> (fail_text up ''error from db'', d1)
        | Some us \<Rightarrow>
            (snd (write_chunk up (Json (JObj (map (\<lambda>(n, b). (n, JBool b)) (status_map currentTime us))))
               (write_header 200 new_response)), d1))"

end
