(* ===== verification/Slack_Laws.thy ===== *)
theory Slack_Laws
  imports Slack_Server
begin

text \<open>
  What the handlers of \<open>Slack_Server\<close> do on every database that obeys \<open>slack_sem\<close> (locale
  \<open>slack_server\<close>): the outcomes of each handler as case rules over the tables before and after, from
  which the properties follow.
\<close>

subsection \<open>Rows that scan\<close>

lemma scan_rows_of [simp]:
  "scan_id_name [VInt i, VStr n] = Some \<lparr>uId = i, UserName = n, LastTimestamp = zero_time\<rparr>"
  "scan_id [VInt i] = Some i"
  "scan_name [VStr n] = Some n"
  "scan_channel (channel_row c) = Some c"
  "scan_message (message_row m) = Some m"
  "scan_membership (membership_row b) = Some b"
  "scan_user_row (user_row u) = Some u"
  by (simp_all add: scan_id_name_def scan_id_def scan_name_def scan_channel_def channel_row_def scan_message_def
      message_row_def scan_membership_def membership_row_def scan_user_row_def user_row_def)

lemma scan_rows_all [simp]:
  "scan_rows scan_channel (map channel_row cs) = Some cs"
  "scan_rows scan_message (map message_row ms) = Some ms"
  "scan_rows scan_membership (map membership_row bs) = Some bs"
  "scan_rows scan_user_row (map user_row us) = Some us"
  by (simp_all add: scan_rows_map [where h = "\<lambda>x. x"])

lemma query_row_map:
  "query_row f (map g xs) = (case xs of [] \<Rightarrow> Some None | x # _ \<Rightarrow> map_option Some (f (g x)))"
  by (cases xs) simp_all

lemma fail_text_fields [simp]: "rw_status (fail_text up msg) = Some 500"
  by (simp add: fail_text_def)

lemma fail_text_body [simp]: "rw_body (fail_text up msg) = (if up then [Text msg] else [])"
  by (simp add: fail_text_def http_text_body)

definition no_named :: "mysql_rules \<Rightarrow> string \<Rightarrow> User list \<Rightarrow> bool" where
  "no_named R n us \<longleftrightarrow>
     (\<forall>u \<in> set us. \<not> collate_eq R n (UserName u)) \<or> (\<exists>u \<in> set us. collate_eq R n (UserName u) \<and> UserName u = [])"

lemma new_user_fields [simp]: "UserName new_user = []" "LastTimestamp new_user = zero_time"
  by (simp_all add: new_user_def)

text \<open>
  Opening a channel does its four inserts in order, and a failure leaves what was inserted before:
  the tables afterwards for each number of inserts that went through.
\<close>

definition opened :: "nat \<Rightarrow> time \<Rightarrow> string \<Rightarrow> string \<Rightarrow> int \<Rightarrow> int \<Rightarrow> int \<times> int \<times> int \<times> int \<Rightarrow> slack_tables \<Rightarrow> slack_tables" where
  "opened n now s r sender receiver ids T =
     (case ids of (c, m, b1, b2) \<Rightarrow>
      \<lparr>users = users T,
       channels = channels T @ (if n \<ge> 1 then [\<lparr>ChannelID = c, ChannelType = ''DM'', ChannelName = s @ ''_'' @ r\<rparr>] else []),
       memberships = memberships T @
         (if n \<ge> 3 then [\<lparr>MembershipID = b1, mem_ChannelID = c, UserID = sender\<rparr>] else []) @
         (if n \<ge> 4 then [\<lparr>MembershipID = b2, mem_ChannelID = c, UserID = receiver\<rparr>] else []),
       messages = messages T @
         (if n \<ge> 2 then [\<lparr>MessageID = m, SenderID = sender, msg_ChannelID = c, Msg = created_text r, CreatedAt = now\<rparr>] else [])\<rparr>)"

lemma opened_0 [simp]: "opened 0 now s r sender receiver ids T = T"
  by (cases T; cases ids) (simp add: opened_def)

definition open_call :: "string \<Rightarrow> string \<Rightarrow> int \<Rightarrow> int \<Rightarrow> ws_call" where
  "open_call s r receiver c =
     ([\<lparr>MembershipID = 0, mem_ChannelID = c, UserID = receiver\<rparr>], created_text r, s)"

definition open_reply :: "bool \<Rightarrow> string \<Rightarrow> int \<Rightarrow> int \<Rightarrow> response" where
  "open_reply up r c m =
     http_json up (JArr [message_json \<lparr>MessageID = m, SenderID = 0, msg_ChannelID = c, Msg = created_text r,
       CreatedAt = zero_time\<rparr>]) new_response"

text \<open>The ids a handler can take for a name.\<close>

definition named_id :: "mysql_rules \<Rightarrow> slack_tables \<Rightarrow> string \<Rightarrow> int \<Rightarrow> bool" where
  "named_id R T n k \<longleftrightarrow>
     (\<exists>u \<in> set (users T). collate_eq R n (UserName u) \<and> uId u = k) \<or>
     (\<forall>u \<in> set (users T). \<not> collate_eq R n (UserName u)) \<and> k = 0"

lemma sendMessageOverWebSocket_eq:
  "sendMessageOverWebSocket wsMap ms msg n =
    map (\<lambda>m. (the (wsMap (UserID m)), n @ '':'' @ msg)) (filter (\<lambda>m. wsMap (UserID m) \<noteq> None) ms)"
  by (induction wsMap ms msg n rule: sendMessageOverWebSocket.induct) (auto split: option.splits)

subsection \<open>The handlers over any server that obeys the contract\<close>

locale slack_server = sql_service run tables "slack_sem R"
  for run :: "slack_stmt \<Rightarrow> 'db \<Rightarrow> (string + sql_result) \<times> 'db" and tables :: "'db \<Rightarrow> slack_tables" and R +
  assumes rules: "rules_ok R"
begin

lemma db_tryE:
  assumes "db_try run q d failed succeeded = x"
  obtains (err) d1 where "tables d1 = tables d" "failed d1 = x"
  | (ok) r d1 i where "slack_sem R q i (tables d) = Some (r, tables d1)" "succeeded r d1 = x"
  using assms run_ok [of q d] run_err [of q d] unfolding db_try_def
  by (cases "run q d"; cases "fst (run q d)") fastforce+

text \<open>\<open>createUser\<close> fails and changes nothing, or finds a user, or creates one.\<close>

lemma named_rows:
  obtains (none) "reorder R i (filter (\<lambda>u. collate_eq R n (UserName u)) us) = []" "no_named R n us"
  | (first) u us' where "reorder R i (filter (\<lambda>u. collate_eq R n (UserName u)) us) = u # us'"
      "u \<in> set us" "collate_eq R n (UserName u)"
proof -
  let ?match = "reorder R i (filter (\<lambda>u. collate_eq R n (UserName u)) us)"
  have mem: "set ?match = {u \<in> set us. collate_eq R n (UserName u)}" using rules by auto
  show thesis
  proof (cases ?match)
    case Nil
    with mem show ?thesis by (intro none) (auto simp: no_named_def)
  next
    case (Cons u us')
    with mem show ?thesis by (intro first) auto
  qed
qed

lemma createUser_insert:
  assumes "db_try run (InsUser n now) d1 (\<lambda>d2. (fail_text up ''try again'', d2))
      (\<lambda>res d2. (http_json up (user_json (user\<lparr>uId := res_last_id res, UserName := n\<rparr>)) new_response, d2)) = (w, d')"
    and "LastTimestamp user = zero_time"
  obtains (failed) "rw_status w = Some 500" "tables d' = tables d1"
  | (created) i where "fresh_id i (map uId (users (tables d1)))"
      "w = http_json up (user_json \<lparr>uId = i, UserName = n, LastTimestamp = zero_time\<rparr>) new_response"
      "tables d' = (tables d1)\<lparr>users := users (tables d1) @ [\<lparr>uId = i, UserName = n, LastTimestamp = store_time R now\<rparr>]\<rparr>"
  using assms(1)
proof (cases rule: db_tryE)
  case (err d2)
  then show ?thesis by (auto intro: failed)
next
  case (ok r d2 i)
  with assms(2) show ?thesis by (cases user) (auto split: if_splits intro!: created)
qed

lemma createUser_cases:
  assumes "createUser run up now n d = (w, d')"
  obtains (failed) "rw_status w = Some 500" "tables d' = tables d"
  | (found) u where "u \<in> set (users (tables d))" "collate_eq R n (UserName u)" "UserName u \<noteq> []"
      "w = http_json up (user_json (u\<lparr>LastTimestamp := zero_time\<rparr>)) new_response" "tables d' = tables d"
  | (created) i where "no_named R n (users (tables d))" "fresh_id i (map uId (users (tables d)))"
      "w = http_json up (user_json \<lparr>uId = i, UserName = n, LastTimestamp = zero_time\<rparr>) new_response"
      "tables d' = (tables d)\<lparr>users := users (tables d) @ [\<lparr>uId = i, UserName = n, LastTimestamp = store_time R now\<rparr>]\<rparr>"
  using assms unfolding createUser_def
proof (cases rule: db_tryE)
  case (err d1)
  then show ?thesis by (auto intro: failed)
next
  case (ok r d1 i)
  then have T: "tables d1 = tables d" by simp
  show ?thesis
  proof (cases rule: named_rows [of i n "users (tables d)"])
    case none
    with ok have "query_row scan_id_name (res_rows r) = Some None" by auto
    then show ?thesis using ok(2) none(2)
      by (auto simp: T elim!: createUser_insert intro: failed created)
  next
    case (first u us')
    have q: "query_row scan_id_name (res_rows r) = Some (Some (u\<lparr>LastTimestamp := zero_time\<rparr>))"
      using ok(1) first(1) by (cases u) auto
    show ?thesis
    proof (cases "UserName u = []")
      case True
      then have "no_named R n (users (tables d))" using first(2,3) unfolding no_named_def by blast
      with True ok(2) q show ?thesis by (auto simp: T elim!: createUser_insert intro: failed created)
    next
      case False
      with ok(2) q T first(2,3) show ?thesis by (intro found [of u]) auto
    qed
  qed
qed

text \<open>The id of a named user is the id of a user of that name, or 0 when there is none.\<close>

lemma with_user_id_cases:
  assumes "with_user_id run up name d k = (w, d', calls)"
  obtains (failed) "rw_status w = Some 500" "tables d' = tables d" "calls = []"
  | (known) u d1 where "u \<in> set (users (tables d))" "collate_eq R name (UserName u)" "tables d1 = tables d"
      "k (uId u) d1 = (w, d', calls)"
  | (unknown) d1 where "\<forall>u \<in> set (users (tables d)). \<not> collate_eq R name (UserName u)" "tables d1 = tables d"
      "k 0 d1 = (w, d', calls)"
  using assms unfolding with_user_id_def
proof (cases rule: db_tryE)
  case (err d1)
  then show ?thesis by (auto intro: failed)
next
  case (ok r d1 i)
  let ?match = "reorder R i (filter (\<lambda>u. collate_eq R name (UserName u)) (users (tables d)))"
  have mem: "set ?match = {u \<in> set (users (tables d)). collate_eq R name (UserName u)}" using rules by auto
  show ?thesis
  proof (cases ?match)
    case Nil
    with mem have "\<forall>u \<in> set (users (tables d)). \<not> collate_eq R name (UserName u)" by auto
    with ok Nil show ?thesis by (auto intro: unknown)
  next
    case (Cons u us)
    with mem have "u \<in> set (users (tables d))" "collate_eq R name (UserName u)" by auto
    with ok Cons show ?thesis by (auto intro: known)
  qed
qed

lemma show_channel_cases:
  assumes "show_channel run up c d = (w, d', calls)"
  obtains (failed) "rw_status w = Some 500" "tables d' = tables d" "calls = []"
  | (shown) i where "w = http_json up (JArr (map message_json (newest 10 c (reorder R i (messages (tables d)))))) new_response"
      "tables d' = tables d" "calls = []"
  using assms unfolding show_channel_def
proof (cases rule: db_tryE)
  case (err d1)
  then show ?thesis by (auto intro: failed)
next
  case (ok r d1 i)
  then show ?thesis by (auto intro: shown)
qed

lemma open_channel_cases:
  assumes "open_channel run up now s r sender receiver d = (w, d', calls)"
  obtains n c m b1 b2 where "n \<le> 4"
    "tables d' = opened n (store_time R now) s r sender receiver (c, m, b1, b2) (tables d)"
    "calls = (if 2 \<le> n then [open_call s r receiver c] else [])"
    "1 \<le> n \<Longrightarrow> fresh_id c (map ChannelID (channels (tables d))) \<and> char_count R (s @ ''_'' @ r) \<le> 25"
    "2 \<le> n \<Longrightarrow> sender \<in> set (map uId (users (tables d)))"
    "4 \<le> n \<Longrightarrow> receiver \<in> set (map uId (users (tables d)))"
    "n < 4 \<Longrightarrow> rw_status w = Some 500" "n = 4 \<Longrightarrow> w = open_reply up r c m"
  using assms unfolding open_channel_def
proof (cases rule: db_tryE)
  case (err d1)
  then show ?thesis by (intro that [of 0]) auto
next
  case (ok r1 d1 c)
  note ch = ok(1) [unfolded slack_sem_insert_convs]
  from ok(2) show ?thesis unfolding Let_def
  proof (cases rule: db_tryE)
    case (err d2)
    with ch show ?thesis by (intro that [of 1 c]) (auto simp: opened_def)
  next
    case (ok r2 d2 m)
    note ms = ok(1) [unfolded slack_sem_insert_convs]
    from ok(2) show ?thesis
    proof (cases rule: db_tryE)
      case (err d3)
      with ch ms show ?thesis
        by (intro that [of 2 c m]) (auto simp: opened_def open_call_def split: if_splits)
    next
      case (ok r3 d3 b1)
      note m1 = ok(1) [unfolded slack_sem_insert_convs]
      from ok(2) show ?thesis
      proof (cases rule: db_tryE)
        case (err d4)
        with ch ms m1 show ?thesis
          by (intro that [of 3 c m b1]) (auto simp: opened_def open_call_def split: if_splits)
      next
        case (ok r4 d4 b2)
        note m2 = ok(1) [unfolded slack_sem_insert_convs]
        with ch ms m1 ok(2) show ?thesis
          by (intro that [of 4 c m b1 b2]) (auto simp: opened_def open_call_def open_reply_def split: if_splits)
      qed
    qed
  qed
qed

lemma named_idE:
  assumes "with_user_id run up name d k = (w, d', calls)"
  obtains (failed) "rw_status w = Some 500" "tables d' = tables d" "calls = []"
  | (id) i d1 where "named_id R (tables d) name i" "tables d1 = tables d" "k i d1 = (w, d', calls)"
  using assms by (cases rule: with_user_id_cases) (auto simp: named_id_def intro: failed id)

lemma shared_channel_id: "slack_wf T \<Longrightarrow> c \<in> set (shared_channels a b T) \<Longrightarrow> ChannelID c \<noteq> 0"
  by (auto simp: shared_channels_set slack_wf_def list_all_iff)

text \<open>\<open>createChannel\<close> fails and changes nothing, or opens a channel, or shows a shared one.\<close>

lemma createChannel_cases:
  assumes "createChannel run up now s r d = (w, d', calls)" and wf: "slack_wf (tables d)"
  obtains (failed) "rw_status w = Some 500" "tables d' = tables d" "calls = []"
  | (opens) a b d1 where "named_id R (tables d) s a" "named_id R (tables d) r b" "tables d1 = tables d"
      "shared_channels a b (tables d) = []" "open_channel run up now s r a b d1 = (w, d', calls)"
  | (present) a b c d1 where "named_id R (tables d) s a" "named_id R (tables d) r b" "tables d1 = tables d"
      "c \<in> set (shared_channels a b (tables d))" "show_channel run up (ChannelID c) d1 = (w, d', calls)"
  using assms(1) unfolding createChannel_def
proof (cases rule: named_idE)
  case failed
  then show ?thesis by (rule that(1))
next
  case (id a d1)
  note a = id(1,2)
  from id(3) show ?thesis
  proof (cases rule: named_idE)
    case failed
    with a show ?thesis by (auto intro: that(1))
  next
    case (id b d2)
    note b = id(1,2)
    from id(3) show ?thesis
    proof (cases rule: db_tryE)
      case (err d3)
      with a b show ?thesis by (auto intro: that(1))
    next
      case (ok res d3 i)
      let ?chs = "reorder R i (shared_channels a b (tables d))"
      have same: "tables d3 = tables d" and scan: "scan_rows scan_channel (res_rows res) = Some ?chs"
        using ok(1) a b by auto
      have set: "set ?chs = set (shared_channels a b (tables d))" using rules by simp
      show ?thesis
      proof (cases "?chs = []")
        case True
        with set have "shared_channels a b (tables d) = []" by simp
        with True ok(2) scan a b same show ?thesis by (intro opens [of a b d3]) (auto simp: new_channel_def)
      next
        case False
        then have c: "last ?chs \<in> set (shared_channels a b (tables d))" using set last_in_set by blast
        with False ok(2) scan a b same shared_channel_id [OF wf c] show ?thesis
          by (intro present [of a b d3 "last ?chs"]) auto
      qed
    qed
  qed
qed

lemma sendMessage_cases:
  assumes "sendMessage run up now s c body ws d = (w, d', emits)"
  obtains (bad) "decode_request body = None" "w = http_error up 400 ''Invalid request payload'' new_response"
      "d' = d" "emits = []"
  | (unsaved) msg where "decode_request body = Some msg" "rw_status w = Some 500" "tables d' = tables d" "emits = []"
  | (unsent) msg i where "decode_request body = Some msg" "rw_status w = Some 500" "emits = []"
      "slack_sem R (InsMessage (VStr s) (VStr c) msg now) i (tables d) = Some (exec_result i, tables d')"
  | (sent) msg i j k where "decode_request body = Some msg"
      "w = http_json up (JObj [(''msg'', JStr msg)]) new_response"
      "slack_sem R (InsMessage (VStr s) (VStr c) msg now) i (tables d) = Some (exec_result i, tables d')"
      "emits = sendMessageOverWebSocket ws
         (filter (\<lambda>m. UserID m \<noteq> fst (atoi s)) (reorder R j (filter (\<lambda>m. eq_int R c (mem_ChannelID m)) (memberships (tables d')))))
         msg (case reorder R k (filter (\<lambda>u. eq_int R s (uId u)) (users (tables d'))) of [] \<Rightarrow> [] | u # _ \<Rightarrow> UserName u)"
proof (cases "decode_request body")
  case None
  with assms show ?thesis by (auto simp: sendMessage_def intro: bad)
next
  case (Some msg)
  from assms [unfolded sendMessage_def Some option.case] show ?thesis
  proof (cases rule: db_tryE)
    case (err d1)
    with Some show ?thesis by (auto intro: unsaved)
  next
    case (ok r1 d1 i)
    then have ins: "slack_sem R (InsMessage (VStr s) (VStr c) msg now) i (tables d) = Some (exec_result i, tables d1)"
      by (auto simp only: slack_sem_insert_convs)
    from ok(2) show ?thesis
    proof (cases rule: db_tryE)
      case (err d2)
      with Some ins show ?thesis by (auto intro: unsent simp del: slack_sem.simps)
    next
      case (ok r2 d2 j)
      let ?rows = "reorder R j (filter (\<lambda>m. eq_int R c (mem_ChannelID m)) (memberships (tables d1)))"
      have T: "tables d2 = tables d1" and scan: "scan_rows scan_membership (res_rows r2) = Some ?rows"
        using ok(1) by auto
      from ok(2) [unfolded scan option.case Let_def] show ?thesis
      proof (cases rule: db_tryE)
        case (err d3)
        with Some ins T show ?thesis by (auto intro: unsent simp del: slack_sem.simps)
      next
        case (ok r3 d3 k)
        then have "tables d3 = tables d1" using T by simp
        with ok Some ins T show ?thesis
          by (intro sent [of msg i j k]) (auto simp: query_row_map simp del: slack_sem.simps(10) split: list.splits)
      qed
    qed
  qed
qed

text \<open>Every handler keeps the tables' integrity, on every path.\<close>

lemma db_try_wf:
  assumes "slack_wf (tables d)" and "\<And>d1. slack_wf (tables d1) \<Longrightarrow> slack_wf (tables (pick (failed d1)))"
    and "\<And>r d1. slack_wf (tables d1) \<Longrightarrow> slack_wf (tables (pick (succeeded r d1)))"
  shows "slack_wf (tables (pick (db_try run q d failed succeeded)))"
proof -
  obtain x where x: "db_try run q d failed succeeded = x" by simp
  then show ?thesis
  proof (cases rule: db_tryE)
    case (err d1)
    with assms(1,2) x show ?thesis by metis
  next
    case (ok r d1 i)
    then have "slack_wf (tables d1)" using assms(1) slack_sem_wf by blast
    with ok(2) x assms(3) show ?thesis by metis
  qed
qed

lemmas db_try_wfs = db_try_wf [where pick = snd] db_try_wf [where pick = "\<lambda>x. fst (snd x)"]
  db_try_wf [where pick = "\<lambda>x. snd (snd x)"]

lemma run_wf: "slack_wf (tables d) \<Longrightarrow> slack_wf (tables (snd (run q d)))"
  by (rule run_keeps [where P = slack_wf]) (auto intro: slack_sem_wf)

lemma createUser_wf: "slack_wf (tables d) \<Longrightarrow> slack_wf (tables (snd (createUser run up t n d)))"
  unfolding createUser_def by (auto intro!: db_try_wfs simp: Let_def split: option.splits)

lemma open_channel_wf:
  "slack_wf (tables d) \<Longrightarrow> slack_wf (tables (fst (snd (open_channel run up t s r a b d))))"
  unfolding open_channel_def Let_def by (auto intro!: db_try_wfs)

lemma show_channel_wf: "slack_wf (tables d) \<Longrightarrow> slack_wf (tables (fst (snd (show_channel run up c d))))"
  unfolding show_channel_def by (auto intro!: db_try_wfs split: option.splits)

lemma with_user_id_wf:
  assumes "slack_wf (tables d)" and "\<And>i d1. slack_wf (tables d1) \<Longrightarrow> slack_wf (tables (fst (snd (k i d1))))"
  shows "slack_wf (tables (fst (snd (with_user_id run up n d k))))"
  unfolding with_user_id_def using assms
  by (auto intro!: db_try_wfs split: option.splits)

lemma createChannel_wf: "slack_wf (tables d) \<Longrightarrow> slack_wf (tables (fst (snd (createChannel run up t s r d))))"
  unfolding createChannel_def
  by (auto simp: Let_def split: option.splits intro!: with_user_id_wf db_try_wfs open_channel_wf show_channel_wf)

lemma sendMessage_wf:
  "slack_wf (tables d) \<Longrightarrow> slack_wf (tables (fst (snd (sendMessage run up t s c body ws d))))"
  unfolding sendMessage_def
  by (auto split: option.splits simp: Let_def intro!: db_try_wfs)

lemma heartbeat_wf:
  "slack_wf (tables d) \<Longrightarrow> slack_wf (tables (snd (snd (heartbeat run t c msg ws d))))"
  unfolding heartbeat_def Let_def by (auto split: json.splits sum.splits intro!: db_try_wfs run_wf)

lemma slack_status_wf: "slack_wf (tables d) \<Longrightarrow> slack_wf (tables (snd (slack_status run up t d)))"
  unfolding slack_status_def by (auto intro!: db_try_wfs split: option.splits)

end

end
