(* ===== verification/Slack_Properties.thy ===== *)
theory Slack_Properties
  imports Slack_Laws
begin

text \<open>
  The properties of \<open>slack/main.go\<close>, each for every database that obeys the contract, with
  witnesses on \<open>faulty_run\<close>, a database that meets it.
\<close>

interpretation sl_faulty: slack_server "faulty_run (slack_sem plain_rules)" fd_tables plain_rules
  by (intro slack_server.intro slack_server_axioms.intro faulty.sql_service_axioms plain_rules_ok)

text \<open>Concrete tables for the witnesses: two users, and the channel between them.\<close>

definition ann :: User where
  "ann = \<lparr>uId = 1, UserName = ''ann'', LastTimestamp = 0\<rparr>"

definition bob :: User where
  "bob = \<lparr>uId = 2, UserName = ''bob'', LastTimestamp = 0\<rparr>"

definition two_users :: slack_tables where
  "two_users = no_tables\<lparr>users := [ann, bob]\<rparr>"

definition one_channel :: slack_tables where
  "one_channel = two_users\<lparr>
     channels := [\<lparr>ChannelID = 5, ChannelType = ''DM'', ChannelName = ''ann_bob''\<rparr>],
     memberships := [\<lparr>MembershipID = 6, mem_ChannelID = 5, UserID = 1\<rparr>,
                     \<lparr>MembershipID = 7, mem_ChannelID = 5, UserID = 2\<rparr>]\<rparr>"

abbreviation (input) plain_run :: "slack_tables faulty_db slack_run" where
  "plain_run \<equiv> faulty_run (slack_sem plain_rules)"

lemmas concrete = ann_def bob_def two_users_def one_channel_def no_tables_def fresh_db_def faulty_run_def
  db_try_def fresh_id_def Let_def

lemma plain_collate [simp]: "collate_eq plain_rules a b \<longleftrightarrow> a = b" "char_count plain_rules a = length a"
  "store_time plain_rules t = (t + 500000000) div 1000000000 * 1000000000"
  by (simp_all add: plain_rules_def)

lemma plain_store [simp]:
  "store_int plain_rules ''1'' = Some 1" "store_int plain_rules ''5'' = Some 5"
  "eq_int plain_rules ''5'' k \<longleftrightarrow> k = 5" "eq_int plain_rules ''1'' k \<longleftrightarrow> k = 1"
  by (auto simp: plain_rules_def atoi_body_def atoi_neg_def is_digit_def digits_val_def digit_val_def Let_def)

subsection \<open>Users\<close>

context slack_server
begin

lemma createUser_twice:
  assumes "\<not> collate_eq R n []"
    and unique: "\<forall>u \<in> set (users (tables d)). \<forall>v \<in> set (users (tables d)).
      collate_eq R n (UserName u) \<and> collate_eq R n (UserName v) \<longrightarrow> u = v"
    and first: "createUser run True t n d = (w, d1)" "rw_status w = Some 200"
    and second: "createUser run True t' n d1 = (w', d2)" "rw_status w' = Some 200"
  shows "rw_body w' = rw_body w \<and> tables d2 = tables d1 \<and>
    (tables d1 = tables d \<or> (\<exists>u. UserName u = n \<and> tables d1 = (tables d)\<lparr>users := users (tables d) @ [u]\<rparr>))"
  using first(1)
proof (cases rule: createUser_cases)
  case failed
  with first(2) show ?thesis by simp
next
  case (found u)
  note u = found
  from second(1) show ?thesis
  proof (cases rule: createUser_cases)
    case failed
    with second(2) show ?thesis by simp
  next
    case (found v)
    with u unique show ?thesis by (auto simp: http_json_body)
  next
    case (created i)
    with u assms(1) show ?thesis unfolding no_named_def by metis
  qed
next
  case (created i)
  note c = created
  have old: "\<not> collate_eq R n (UserName u)" if "u \<in> set (users (tables d))" for u
    using c(1) assms(1) that unfolding no_named_def by metis
  have self: "collate_eq R n n" using rules by (simp add: rules_ok_def)
  from second(1) show ?thesis
  proof (cases rule: createUser_cases)
    case failed
    with second(2) show ?thesis by simp
  next
    case (found v)
    moreover have "\<exists>u. UserName u = n \<and> tables d1 = (tables d)\<lparr>users := users (tables d) @ [u]\<rparr>"
      using c(4) by (intro exI [of _ "\<lparr>uId = i, UserName = n, LastTimestamp = store_time R t\<rparr>"]) simp
    ultimately show ?thesis using c old by (auto simp: http_json_body)
  next
    case (created j)
    with c self assms(1) show ?thesis unfolding no_named_def by auto
  qed
qed

end

text \<open>
  Asking for a user twice gives the same user: when both calls answer 200, the second answer is
  the first one and the second call changes nothing; the first adds at most one user, with the
  requested name. (Names that the collation takes for the empty name, and tables in which two users
  already share the name, are excluded: the handler has no unique key to rely on.)
\<close>

theorem createUser_idempotent:
  assumes "slack_server run tables R" and "\<not> collate_eq R n []"
    and "\<forall>u \<in> set (users (tables d)). \<forall>v \<in> set (users (tables d)).
      collate_eq R n (UserName u) \<and> collate_eq R n (UserName v) \<longrightarrow> u = v"
    and "createUser run True t n d = (w, d1)" and "rw_status w = Some 200"
    and "createUser run True t' n d1 = (w', d2)" and "rw_status w' = Some 200"
  shows "rw_body w' = rw_body w \<and> tables d2 = tables d1 \<and>
    (tables d1 = tables d \<or> (\<exists>u. UserName u = n \<and> tables d1 = (tables d)\<lparr>users := users (tables d) @ [u]\<rparr>))"
  using slack_server.createUser_twice [OF assms] .

theorem createUser_idempotent_witness:
  "\<exists>w d1 w' d2. createUser plain_run True 3 ''cyd'' ((fresh_db two_users)\<lparr>fd_next := 3\<rparr>) = (w, d1) \<and>
    createUser plain_run True 4 ''cyd'' d1 = (w', d2) \<and> rw_body w' = rw_body w \<and> fd_tables d2 = fd_tables d1"
proof -
  let ?d = "(fresh_db two_users)\<lparr>fd_next := 3\<rparr>"
  obtain w d1 where 1: "createUser plain_run True 3 ''cyd'' ?d = (w, d1)" "rw_status w = Some 200"
      "fd_tables d1 = two_users\<lparr>users := [ann, bob, \<lparr>uId = 4, UserName = ''cyd'', LastTimestamp = 0\<rparr>]\<rparr>" "fd_faults d1 = []"
    by (simp add: createUser_def concrete)
  obtain w' d2 where 2: "createUser plain_run True 4 ''cyd'' d1 = (w', d2)" "rw_status w' = Some 200"
    using 1(3,4) by (simp add: createUser_def concrete)
  have "rw_body w' = rw_body w \<and> fd_tables d2 = fd_tables d1"
    using createUser_idempotent [OF sl_faulty.slack_server_axioms _ _ 1(1,2) 2] by (simp add: concrete)
  with 1(1) 2(1) show ?thesis by blast
qed

subsection \<open>Channels\<close>

text \<open>A name that stands for exactly one user.\<close>

definition only_user :: "mysql_rules \<Rightarrow> slack_tables \<Rightarrow> string \<Rightarrow> int \<Rightarrow> bool" where
  "only_user R T n k \<longleftrightarrow>
     k \<in> set (map uId (users T)) \<and> list_all (\<lambda>u. collate_eq R n (UserName u) \<longleftrightarrow> uId u = k) (users T)"

lemma only_user_named: "only_user R T n k \<Longrightarrow> named_id R T n a \<Longrightarrow> a = k"
  by (auto simp: only_user_def named_id_def list_all_iff)

lemma only_user_opened [simp]: "only_user R (opened n t s r a b ids T) = only_user R T"
  by (cases ids) (auto simp: only_user_def opened_def fun_eq_iff)

lemma opened_shared:
  assumes "slack_wf T" and "fresh_id c (map ChannelID (channels T))" and "shared_channels a b T = []"
    and "ch \<in> set (shared_channels x y (opened 4 t s r a b (c, m, b1, b2) T))"
    and "x = a \<and> y = b \<or> x = b \<and> y = a"
  shows "ChannelID ch = c"
proof (rule ccontr)
  let ?T = "opened 4 t s r a b (c, m, b1, b2) T"
  assume ne: "ChannelID ch \<noteq> c"
  have old: "k \<in> set (memberships T)" if "k \<in> set (memberships ?T)" "mem_ChannelID k = ChannelID ch" for k
    using that ne by (auto simp: opened_def)
  have "ch \<in> set (channels T)" using assms(4) ne by (auto simp: shared_channels_set opened_def)
  then have "ch \<in> set (shared_channels a b T)"
    using assms(4,5) old unfolding shared_channels_set by blast
  with assms(3) show False by simp
qed

lemma opened_messages:
  assumes "slack_wf T" and "fresh_id c (map ChannelID (channels T))" and "mset ms = mset (messages (opened 4 t s r a b (c, m, b1, b2) T))"
  shows "newest 10 c ms = [\<lparr>MessageID = m, SenderID = a, msg_ChannelID = c, Msg = created_text r, CreatedAt = t\<rparr>]"
proof -
  let ?new = "\<lparr>MessageID = m, SenderID = a, msg_ChannelID = c, Msg = created_text r, CreatedAt = t\<rparr>"
  have "filter (\<lambda>m. msg_ChannelID m = c) (messages T) = []"
    using assms(1,2) by (auto simp: slack_wf_def fresh_id_def list_all_iff filter_empty_conv)
  then have "mset (filter (\<lambda>m. msg_ChannelID m = c) ms) = {#?new#}"
    unfolding mset_filter assms(3) by (simp add: opened_def flip: mset_filter)
  then have "filter (\<lambda>m. msg_ChannelID m = c) ms = [?new]" using mset_eq_length by fastforce
  then show ?thesis by (simp add: newest_def)
qed

context slack_server
begin

lemma channel_opens:
  assumes wf: "slack_wf (tables d)" and a: "only_user R (tables d) s a" and b: "only_user R (tables d) r b"
    and none: "shared_channels a b (tables d) = []"
    and first: "createChannel run True t s r d = (w, d1, calls)" "rw_status w = Some 200"
  obtains c m b1 b2 where "tables d1 = opened 4 (store_time R t) s r a b (c, m, b1, b2) (tables d)"
    "calls = [open_call s r b c]" "fresh_id c (map ChannelID (channels (tables d)))" "w = open_reply True r c m"
proof -
  from first(1) wf obtain d0 where d0: "tables d0 = tables d" "open_channel run True t s r a b d0 = (w, d1, calls)"
  proof (cases rule: createChannel_cases)
    case (present a' b' c d1)
    with only_user_named [OF a] only_user_named [OF b] none show ?thesis by auto
  qed (use first(2) only_user_named [OF a] only_user_named [OF b] that in auto)
  from d0(2) show ?thesis
  proof (cases rule: open_channel_cases)
    case (1 n c m b1 b2)
    then have "n = 4" using first(2) by (cases "n < 4") auto
    with 1 d0(1) that show ?thesis by auto
  qed
qed

lemma channel_shows:
  assumes wf: "slack_wf (tables d)" and a: "only_user R (tables d) s a" and b: "only_user R (tables d) r b"
    and some: "shared_channels a b (tables d) \<noteq> []"
    and call: "createChannel run True t s r d = (w, d', calls)" "rw_status w = Some 200"
  obtains c i where "c \<in> set (shared_channels a b (tables d))"
    "w = http_json True (JArr (map message_json (newest 10 (ChannelID c) (reorder R i (messages (tables d)))))) new_response"
    "tables d' = tables d" "calls = []"
proof -
  from call(1) wf obtain c d1 where c: "c \<in> set (shared_channels a b (tables d))" "tables d1 = tables d"
    "show_channel run True (ChannelID c) d1 = (w, d', calls)"
  proof (cases rule: createChannel_cases)
    case (opens a' b' d1)
    with only_user_named [OF a] only_user_named [OF b] some show ?thesis by auto
  qed (use call(2) only_user_named [OF a] only_user_named [OF b] that in auto)
  from c(3) show ?thesis by (cases rule: show_channel_cases) (use call(2) c(1,2) that in auto)
qed

lemma open_then_show:
  assumes wf: "slack_wf (tables d)" and a: "only_user R (tables d) s a" and b: "only_user R (tables d) r b"
    and none: "shared_channels a b (tables d) = []"
    and first: "createChannel run True t s r d = (w, d1, calls)" "rw_status w = Some 200"
    and second: "createChannel run True t' x y d1 = (w', d2, calls')" "rw_status w' = Some 200"
    and xy: "x = s \<and> y = r \<or> x = r \<and> y = s"
  shows "\<exists>c m. calls = [open_call s r b c] \<and> calls' = [] \<and> tables d2 = tables d1 \<and> rw_body w = rw_body (open_reply True r c m) \<and>
    rw_body w' = [Json (JArr [message_json \<lparr>MessageID = m, SenderID = a, msg_ChannelID = c,
      Msg = created_text r, CreatedAt = store_time R t\<rparr>])]"
proof -
  obtain c m b1 b2 where c: "tables d1 = opened 4 (store_time R t) s r a b (c, m, b1, b2) (tables d)"
    "calls = [open_call s r b c]" "fresh_id c (map ChannelID (channels (tables d)))" "w = open_reply True r c m"
    using channel_opens [OF wf a b none first] .
  let ?T = "tables d1"
  have wf1: "slack_wf ?T" using createChannel_wf [OF wf, of True t s r] first(1) by simp
  obtain p q where pq: "p = a \<and> q = b \<or> p = b \<and> q = a" "only_user R ?T x p" "only_user R ?T y q"
    using xy a b by (auto simp: c(1))
  have "\<lparr>ChannelID = c, ChannelType = ''DM'', ChannelName = s @ ''_'' @ r\<rparr> \<in> set (shared_channels p q ?T)"
    using pq(1) by (auto simp: c(1) opened_def shared_channels_set)
  then have some: "shared_channels p q ?T \<noteq> []" by auto
  obtain ch i where ch: "ch \<in> set (shared_channels p q ?T)"
    "w' = http_json True (JArr (map message_json (newest 10 (ChannelID ch) (reorder R i (messages ?T))))) new_response"
    "tables d2 = ?T" "calls' = []"
    using channel_shows [OF wf1 pq(2,3) some second] .
  have id: "ChannelID ch = c" using opened_shared [OF wf c(3) none ch(1) [unfolded c(1)] pq(1)] .
  have "newest 10 c (reorder R i (messages ?T)) = [\<lparr>MessageID = m, SenderID = a, msg_ChannelID = c,
      Msg = created_text r, CreatedAt = store_time R t\<rparr>]"
    by (rule opened_messages [OF wf c(3)]) (use rules in \<open>simp add: c(1)\<close>)
  then show ?thesis using c(2,4) ch id by (auto simp: http_json_body)
qed

lemma unknown_sender:
  assumes wf: "slack_wf (tables d)" and none: "\<forall>u \<in> set (users (tables d)). \<not> collate_eq R s (UserName u)"
    and call: "createChannel run up t s r d = (w, d', calls)"
  shows "rw_status w = Some 500 \<and> calls = [] \<and> users (tables d') = users (tables d) \<and>
    memberships (tables d') = memberships (tables d) \<and> messages (tables d') = messages (tables d) \<and>
    (channels (tables d') = channels (tables d) \<or>
     (\<exists>c. channels (tables d') = channels (tables d) @ [\<lparr>ChannelID = c, ChannelType = ''DM'', ChannelName = s @ ''_'' @ r\<rparr>]))"
proof -
  have zero: "a = 0" if "named_id R (tables d) s a" for a using that none by (auto simp: named_id_def)
  have ids: "0 \<notin> set (map uId (users (tables d)))" using wf by (simp add: slack_wf_def)
  from call wf show ?thesis
  proof (cases rule: createChannel_cases)
    case (opens a b d1)
    from opens(5) show ?thesis
    proof (cases rule: open_channel_cases)
      case (1 n c m b1 b2)
      then have "n = 0 \<or> n = 1" using opens(3) zero [OF opens(1)] ids by (cases "2 \<le> n") auto
      with 1 opens(3) show ?thesis by (auto simp: opened_def)
    qed
  next
    case (present a b c d1)
    with shared_channels_unknown [OF wf, of a b] zero [OF present(1)] ids show ?thesis by simp
  qed simp
qed

lemma long_names:
  assumes wf: "slack_wf (tables d)" and a: "only_user R (tables d) s a" and b: "only_user R (tables d) r b"
    and none: "shared_channels a b (tables d) = []" and long: "25 < char_count R (s @ ''_'' @ r)"
    and call: "createChannel run up t s r d = (w, d', calls)"
  shows "rw_status w = Some 500 \<and> tables d' = tables d \<and> calls = []"
  using call wf
proof (cases rule: createChannel_cases)
  case (opens a' b' d1)
  from opens(5) show ?thesis
  proof (cases rule: open_channel_cases)
    case (1 n c m b1 b2)
    then have "n = 0" using long by (cases "1 \<le> n") auto
    with 1 opens(3) show ?thesis by simp
  qed
next
  case (present a' b' c d1)
  with only_user_named [OF a] only_user_named [OF b] none show ?thesis by auto
qed simp

lemma shown_messages:
  assumes wf: "slack_wf (tables d)" and a: "only_user R (tables d) s a" and b: "only_user R (tables d) r b"
    and some: "shared_channels a b (tables d) \<noteq> []"
    and call: "createChannel run True t s r d = (w, d', calls)" "rw_status w = Some 200"
  shows "\<exists>c ms. c \<in> set (shared_channels a b (tables d)) \<and> rw_body w = [Json (JArr (map message_json ms))] \<and>
    length ms \<le> 10 \<and> sorted_wrt (\<lambda>m m'. CreatedAt m' \<le> CreatedAt m) ms \<and>
    (\<forall>m \<in> set ms. m \<in> set (messages (tables d)) \<and> msg_ChannelID m = ChannelID c) \<and>
    (\<forall>m \<in> set (messages (tables d)). msg_ChannelID m = ChannelID c \<and> m \<notin> set ms \<longrightarrow>
       length ms = 10 \<and> (\<forall>m' \<in> set ms. CreatedAt m \<le> CreatedAt m')) \<and>
    tables d' = tables d \<and> calls = []"
proof -
  obtain c i where i: "c \<in> set (shared_channels a b (tables d))"
    "w = http_json True (JArr (map message_json (newest 10 (ChannelID c) (reorder R i (messages (tables d)))))) new_response"
    "tables d' = tables d" "calls = []"
    using channel_shows [OF wf a b some call] .
  have set: "set (reorder R i (messages (tables d))) = set (messages (tables d))" using rules by simp
  show ?thesis
    using newest_length [of 10 "ChannelID c" "reorder R i (messages (tables d))"]
      newest_sorted [of 10 "ChannelID c" "reorder R i (messages (tables d))"]
      newest_mem [of _ 10 "ChannelID c" "reorder R i (messages (tables d))"]
      newest_left_out [of _ "reorder R i (messages (tables d))" "ChannelID c" 10] i
    unfolding set by (intro exI [of _ c] exI [of _ "newest 10 (ChannelID c) (reorder R i (messages (tables d)))"])
      (simp add: http_json_body)
qed

end

text \<open>
  C2. A channel that was opened is found again, by either of the two: when two users share no
  channel and opening one answers 200, the next successful request of either of them changes
  nothing, starts no notification and shows exactly the opening message, under the channel and
  message ids the first answer announced and with its real sender (the first answer says sender 0).
\<close>

theorem channel_roundtrip:
  assumes "slack_server run tables R" and "slack_wf (tables d)"
    and "only_user R (tables d) s a" and "only_user R (tables d) r b" and "shared_channels a b (tables d) = []"
    and "createChannel run True t s r d = (w, d1, calls)" and "rw_status w = Some 200"
    and "createChannel run True t' x y d1 = (w', d2, calls')" and "rw_status w' = Some 200"
    and "x = s \<and> y = r \<or> x = r \<and> y = s"
  shows "\<exists>c m. calls = [open_call s r b c] \<and> calls' = [] \<and> tables d2 = tables d1 \<and>
    rw_body w = rw_body (open_reply True r c m) \<and>
    rw_body w' = [Json (JArr [message_json \<lparr>MessageID = m, SenderID = a, msg_ChannelID = c,
      Msg = created_text r, CreatedAt = store_time R t\<rparr>])]"
  using slack_server.open_then_show [OF assms] .

lemmas channel_defs = createChannel_def with_user_id_def open_channel_def show_channel_def shared_channels_def
  new_channel_def

theorem channel_roundtrip_witness:
  "\<exists>w d1 calls w' d2. createChannel plain_run True 0 ''ann'' ''bob'' ((fresh_db two_users)\<lparr>fd_next := 10\<rparr>) = (w, d1, calls) \<and>
    createChannel plain_run True 9 ''bob'' ''ann'' d1 = (w', d2, []) \<and> fd_tables d2 = fd_tables d1"
proof -
  let ?d = "(fresh_db two_users)\<lparr>fd_next := 10\<rparr>"
  obtain w d1 calls where 1: "createChannel plain_run True 0 ''ann'' ''bob'' ?d = (w, d1, calls)" "rw_status w = Some 200"
    "d1 = \<lparr>fd_tables = opened 4 0 ''ann'' ''bob'' 1 2 (13, 14, 15, 16) two_users, fd_faults = [], fd_next = 17\<rparr>"
    by (simp add: channel_defs concrete created_text_def opened_def)
  obtain w' d2 calls' where 2: "createChannel plain_run True 9 ''bob'' ''ann'' d1 = (w', d2, calls')" "rw_status w' = Some 200"
    unfolding 1(3) by (simp add: channel_defs concrete opened_def)
  have "calls' = [] \<and> fd_tables d2 = fd_tables d1"
    using channel_roundtrip [OF sl_faulty.slack_server_axioms _ _ _ _ 1(1,2) 2, of 1 2]
    by (auto simp: concrete only_user_def slack_wf_def shared_channels_def)
  with 1(1) 2(1) show ?thesis by blast
qed

text \<open>
  C10. Opening a shared channel shows its newest messages: at most ten, newest first, all of one
  channel the two users share; a message of it that is left out is not newer than any shown, and
  then ten are shown. Nothing is changed.
\<close>

theorem channel_newest:
  assumes "slack_server run tables R" and "slack_wf (tables d)"
    and "only_user R (tables d) s a" and "only_user R (tables d) r b" and "shared_channels a b (tables d) \<noteq> []"
    and "createChannel run True t s r d = (w, d', calls)" and "rw_status w = Some 200"
  shows "\<exists>c ms. c \<in> set (shared_channels a b (tables d)) \<and> rw_body w = [Json (JArr (map message_json ms))] \<and>
    length ms \<le> 10 \<and> sorted_wrt (\<lambda>m m'. CreatedAt m' \<le> CreatedAt m) ms \<and>
    (\<forall>m \<in> set ms. m \<in> set (messages (tables d)) \<and> msg_ChannelID m = ChannelID c) \<and>
    (\<forall>m \<in> set (messages (tables d)). msg_ChannelID m = ChannelID c \<and> m \<notin> set ms \<longrightarrow>
       length ms = 10 \<and> (\<forall>m' \<in> set ms. CreatedAt m \<le> CreatedAt m')) \<and>
    tables d' = tables d \<and> calls = []"
  using slack_server.shown_messages [OF assms] .

theorem channel_newest_witness:
  "\<exists>w d'. createChannel plain_run True 0 ''ann'' ''bob'' ((fresh_db one_channel)\<lparr>fd_next := 10\<rparr>) = (w, d', []) \<and>
    rw_body w = [Json (JArr [])] \<and> fd_tables d' = one_channel"
proof -
  let ?d = "(fresh_db one_channel)\<lparr>fd_next := 10\<rparr>"
  obtain w d' calls where 1: "createChannel plain_run True 0 ''ann'' ''bob'' ?d = (w, d', calls)" "rw_status w = Some 200"
    by (simp add: channel_defs concrete)
  have "rw_body w = [Json (JArr [])] \<and> fd_tables d' = one_channel \<and> calls = []"
    using channel_newest [OF sl_faulty.slack_server_axioms _ _ _ _ 1, of 1 2]
    by (auto simp: concrete only_user_def slack_wf_def shared_channels_def)
  with 1(1) show ?thesis by blast
qed

text \<open>
  Nobody who has a channel with anyone can open one with himself: all his channels are found for the two equal
  ids, and he is shown one of them.
\<close>

theorem channel_with_oneself:
  assumes "slack_server run tables R" and "slack_wf (tables d)" and "only_user R (tables d) s a"
    and "shared_channels a b (tables d) \<noteq> []" and "createChannel run True t s s d = (w, d', calls)" and "rw_status w = Some 200"
  shows "\<exists>c ms. c \<in> set (shared_channels a a (tables d)) \<and> rw_body w = [Json (JArr (map message_json ms))] \<and>
    (\<forall>m \<in> set ms. m \<in> set (messages (tables d)) \<and> msg_ChannelID m = ChannelID c) \<and> tables d' = tables d \<and> calls = []"
proof -
  have "set (shared_channels a b (tables d)) \<subseteq> set (shared_channels a a (tables d))" by (auto simp: shared_channels_set)
  with assms(4) have "shared_channels a a (tables d) \<noteq> []" by auto
  from slack_server.shown_messages [OF assms(1-3) assms(3) this assms(5,6)] show ?thesis by blast
qed

text \<open>
  A request from an unknown sender never succeeds, but leaves a channel without members behind
  whenever its first insert went through: the inserts are not in a transaction.
\<close>

theorem channel_unknown_sender:
  assumes "slack_server run tables R" and "slack_wf (tables d)"
    and "\<forall>u \<in> set (users (tables d)). \<not> collate_eq R s (UserName u)"
    and "createChannel run up t s r d = (w, d', calls)"
  shows "rw_status w = Some 500 \<and> calls = [] \<and> users (tables d') = users (tables d) \<and>
    memberships (tables d') = memberships (tables d) \<and> messages (tables d') = messages (tables d) \<and>
    (channels (tables d') = channels (tables d) \<or>
     (\<exists>c. channels (tables d') = channels (tables d) @ [\<lparr>ChannelID = c, ChannelType = ''DM'', ChannelName = s @ ''_'' @ r\<rparr>]))"
  using slack_server.unknown_sender [OF assms] .

theorem channel_unknown_sender_witness:
  "\<exists>w d'. createChannel plain_run True 0 ''eve'' ''bob'' ((fresh_db two_users)\<lparr>fd_next := 10\<rparr>) = (w, d', []) \<and>
    rw_status w = Some 500 \<and> length (channels (fd_tables d')) = 1 \<and> memberships (fd_tables d') = []"
proof -
  let ?d = "(fresh_db two_users)\<lparr>fd_next := 10\<rparr>"
  obtain w d' calls where 1: "createChannel plain_run True 0 ''eve'' ''bob'' ?d = (w, d', calls)"
    "length (channels (fd_tables d')) = 1"
    by (simp add: channel_defs concrete)
  have "rw_status w = Some 500 \<and> calls = [] \<and> memberships (fd_tables d') = []"
    using channel_unknown_sender [OF sl_faulty.slack_server_axioms _ _ 1(1)] by (simp add: concrete slack_wf_def)
  with 1 show ?thesis by blast
qed

text \<open>
  Two users whose names and the underscore take more than 25 characters can never open a
  channel: the request answers 500 and changes nothing, because the column is a \<open>varchar(25)\<close>.
\<close>

theorem channel_long_names:
  assumes "slack_server run tables R" and "slack_wf (tables d)"
    and "only_user R (tables d) s a" and "only_user R (tables d) r b" and "shared_channels a b (tables d) = []"
    and "25 < char_count R (s @ ''_'' @ r)" and "createChannel run up t s r d = (w, d', calls)"
  shows "rw_status w = Some 500 \<and> tables d' = tables d \<and> calls = []"
  using slack_server.long_names [OF assms] .

definition long_users :: slack_tables where
  "long_users = no_tables\<lparr>users := [ann\<lparr>UserName := ''annabella-margareta''\<rparr>, bob\<lparr>UserName := ''bartholomew''\<rparr>]\<rparr>"

theorem channel_long_names_witness:
  "\<exists>w d' calls. createChannel plain_run True 0 ''annabella-margareta'' ''bartholomew'' ((fresh_db long_users)\<lparr>fd_next := 10\<rparr>) = (w, d', calls) \<and>
    rw_status w = Some 500 \<and> fd_tables d' = long_users"
proof -
  let ?d = "(fresh_db long_users)\<lparr>fd_next := 10\<rparr>"
  obtain w d' calls where 1: "createChannel plain_run True 0 ''annabella-margareta'' ''bartholomew'' ?d = (w, d', calls)"
    by (metis prod_cases3)
  have "rw_status w = Some 500 \<and> fd_tables d' = long_users"
    using channel_long_names [OF sl_faulty.slack_server_axioms _ _ _ _ _ 1, of 1 2]
    by (simp add: concrete long_users_def only_user_def slack_wf_def shared_channels_def)
  with 1 show ?thesis by blast
qed

subsection \<open>Messages\<close>

lemma unique_user:
  assumes "slack_wf T" and "u \<in> set (users T)" and "rules_ok R"
  shows "reorder R i (filter (\<lambda>v. uId v = uId u) (users T)) = [u]"
proof -
  have "filter (\<lambda>v. uId v = uId u) us = [u]" if "distinct (map uId us)" "u \<in> set us" for us
    using that by (induction us) (auto simp: filter_empty_conv rev_image_eqI)
  then have one: "filter (\<lambda>v. uId v = uId u) (users T) = [u]" using assms(1,2) by (simp add: slack_wf_def)
  have "mset (reorder R i [u]) = {#u#}" using assms(3) by simp
  then have "reorder R i [u] = [u]" using mset_eq_length by fastforce
  with one show ?thesis by simp
qed

text \<open>The other members of a channel with an open connection.\<close>

definition listeners :: "slack_tables \<Rightarrow> ws_map \<Rightarrow> int \<Rightarrow> int \<Rightarrow> Membership list" where
  "listeners T ws c k =
     filter (\<lambda>m. mem_ChannelID m = c \<and> UserID m \<noteq> k \<and> ws (UserID m) \<noteq> None) (memberships T)"

context slack_server
begin

lemma message_sent:
  assumes wf: "slack_wf (tables d)"
    and call: "sendMessage run up t (show_int k) (show_int c) body ws d = (w, d', emits)" "rw_status w = Some 200"
    and small: "- (2 ^ 31) \<le> k \<and> k < 2 ^ 31" "- (2 ^ 31) \<le> c \<and> c < 2 ^ 31"
  shows "\<exists>msg i u. decode_request body = Some msg \<and> u \<in> set (users (tables d)) \<and> uId u = k \<and>
    tables d' = (tables d)\<lparr>messages := messages (tables d) @
      [\<lparr>MessageID = i, SenderID = k, msg_ChannelID = c, Msg = msg, CreatedAt = store_time R t\<rparr>]\<rparr> \<and>
    mset emits = mset (map (\<lambda>m. (the (ws (UserID m)), UserName u @ '':'' @ msg)) (listeners (tables d) ws c k))"
  using call(1)
proof (cases rule: sendMessage_cases)
  case (sent msg i j l)
  have st: "store_int R (show_int k) = Some k" "store_int R (show_int c) = Some c"
    using rules small by (simp_all add: rules_ok_def)
  then obtain u where u: "u \<in> set (users (tables d))" "uId u = k"
    and T: "tables d' = (tables d)\<lparr>messages := messages (tables d) @
      [\<lparr>MessageID = i, SenderID = k, msg_ChannelID = c, Msg = msg, CreatedAt = store_time R t\<rparr>]\<rparr>"
    using sent(3) by (auto simp only: slack_sem_insert_convs store_arg.simps option.inject set_map)
  have eq: "eq_int R (show_int a) b \<longleftrightarrow> a = b" for a b using rules by (simp add: rules_ok_def)
  have at: "fst (atoi (show_int k)) = k" using small(1) by (simp add: atoi_show_int in_int64_def)
  have name: "(case reorder R l (filter (\<lambda>u. eq_int R (show_int k) (uId u)) (users (tables d'))) of [] \<Rightarrow> [] | v # _ \<Rightarrow> UserName v) = UserName u"
    using unique_user [OF wf u(1) rules, of l] u(2) by (simp add: T eq eq_commute [of k])
  have "mset emits = mset (map (\<lambda>m. (the (ws (UserID m)), UserName u @ '':'' @ msg)) (listeners (tables d) ws c k))"
    unfolding sent(4) name at using rules
    by (simp add: T sendMessageOverWebSocket_eq listeners_def eq eq_commute [of c] conj_ac filter_filter_mset)
  with sent(1) u T show ?thesis by blast
qed (use call(2) in auto)

lemma message_not_sent:
  assumes "sendMessage run up t s c body ws d = (w, d', emits)" and "rw_status w \<noteq> Some 200"
  shows "emits = [] \<and> (decode_request body = None \<longrightarrow> rw_status w = Some 400 \<and> d' = d) \<and>
    (decode_request body \<noteq> None \<longrightarrow> rw_status w = Some 500)"
  using assms(1) by (cases rule: sendMessage_cases) (use assms(2) in auto)

end

text \<open>
  C1. A message answered with 200 has been stored, once, with its sender, channel and text, and has
  been emitted exactly once to every other member of the channel with an open connection (for each
  membership), as \<open>name:text\<close> with the stored name of the sender; to nobody else.
\<close>

theorem message_delivered:
  assumes "slack_server run tables R" and "slack_wf (tables d)"
    and "sendMessage run up t (show_int k) (show_int c) body ws d = (w, d', emits)" and "rw_status w = Some 200"
    and "- (2 ^ 31) \<le> k \<and> k < 2 ^ 31" and "- (2 ^ 31) \<le> c \<and> c < 2 ^ 31"
  shows "\<exists>msg i u. decode_request body = Some msg \<and> u \<in> set (users (tables d)) \<and> uId u = k \<and>
    tables d' = (tables d)\<lparr>messages := messages (tables d) @
      [\<lparr>MessageID = i, SenderID = k, msg_ChannelID = c, Msg = msg, CreatedAt = store_time R t\<rparr>]\<rparr> \<and>
    mset emits = mset (map (\<lambda>m. (the (ws (UserID m)), UserName u @ '':'' @ msg)) (listeners (tables d) ws c k))"
  using slack_server.message_sent [OF assms] .

text \<open>The heartbeat example of the witnesses: bob is connected.\<close>

definition bob_online :: ws_map where
  "bob_online = [2 \<mapsto> ''conn-b'']"

declare fold_key.simps [simp del]

lemma show_int_digits [simp]: "show_int 1 = ''1''" "show_int 5 = ''5''" "show_int 2 = ''2''"
  by code_simp+

lemma msg_key [simp]: "fold_key ''msg'' = ''msg''"
  by code_simp

theorem message_delivered_witness:
  "\<exists>w d'. sendMessage plain_run True 0 (show_int 1) (show_int 5) (Some (JObj [(''msg'', JStr ''hi'')])) bob_online
      ((fresh_db one_channel)\<lparr>fd_next := 10\<rparr>) = (w, d', [(''conn-b'', ''ann:hi'')]) \<and>
    length (messages (fd_tables d')) = 1"
proof -
  let ?d = "(fresh_db one_channel)\<lparr>fd_next := 10\<rparr>" and ?body = "Some (JObj [(''msg'', JStr ''hi'')])"
  obtain w d' emits where 1: "sendMessage plain_run True 0 (show_int 1) (show_int 5) ?body bob_online ?d = (w, d', emits)"
    "rw_status w = Some 200"
    by (simp add: sendMessage_def decode_request_def concrete)
  have "mset emits = {#(''conn-b'', ''ann:hi'')#} \<and> length (messages (fd_tables d')) = 1"
    using message_delivered [OF sl_faulty.slack_server_axioms _ 1]
    by (auto simp: concrete slack_wf_def decode_request_def listeners_def bob_online_def)
  then have "emits = [(''conn-b'', ''ann:hi'')] \<and> length (messages (fd_tables d')) = 1" using mset_eq_length by fastforce
  with 1(1) show ?thesis by blast
qed

text \<open>
  C34. A message that is not answered with 200 is emitted to nobody: a body that is no JSON object
  with a string \<open>msg\<close> gets status 400 and changes nothing, every other failure gets 500. In
  particular nothing is emitted that was not stored first.
\<close>

theorem message_failure:
  assumes "slack_server run tables R"
    and "sendMessage run up t s c body ws d = (w, d', emits)" and "rw_status w \<noteq> Some 200"
  shows "emits = [] \<and> (decode_request body = None \<longrightarrow> rw_status w = Some 400 \<and> d' = d) \<and>
    (decode_request body \<noteq> None \<longrightarrow> rw_status w = Some 500)"
  using slack_server.message_not_sent [OF assms] .

theorem message_failure_witness:
  "\<exists>w. sendMessage plain_run True 0 ''1'' ''5'' (Some (JObj [(''msg'', JNum 3)])) bob_online (fresh_db one_channel)
      = (w, fresh_db one_channel, []) \<and> rw_status w = Some 400"
proof -
  obtain w d' emits where 1: "sendMessage plain_run True 0 ''1'' ''5'' (Some (JObj [(''msg'', JNum 3)])) bob_online
      (fresh_db one_channel) = (w, d', emits)" "rw_status w \<noteq> Some 200"
    by (simp add: sendMessage_def decode_request_def)
  from message_failure [OF sl_faulty.slack_server_axioms 1] 1(1) show ?thesis
    by (simp add: decode_request_def)
qed

subsection \<open>Heartbeats\<close>

lemma show_int_comma: "CHR '','' \<notin> set (show_int k)"
  using show_int_set [of "CHR '',''" k] by (auto simp: is_digit_def)

lemma split_heartbeat: "CHR '','' \<notin> set n \<Longrightarrow> split_at CHR '','' (show_int k @ '','' @ n) = [show_int k, n]"
  using split_at_first [OF show_int_comma, of k n] by (simp add: split_at_none)

context slack_server
begin

lemma heartbeat_effect:
  assumes "heartbeat run t c (JStr (show_int k @ '','' @ n)) ws d = (res, ws', d')"
    and "CHR '','' \<notin> set n" and k: "- (2 ^ 31) \<le> k \<and> k < 2 ^ 31" "k \<noteq> 0"
  shows "res = Inr () \<and> ws' = ws(k \<mapsto> c) \<and>
    (tables d' = tables d \<or>
     tables d' = (tables d)\<lparr>users := upsert_user k n (store_time R t) (store_time R t) (users (tables d))\<rparr>)"
proof -
  have at: "fst (atoi (show_int k)) = k" using k by (simp add: atoi_show_int in_int64_def)
  have st: "store_int R (show_int k) = Some k" using rules k by (simp add: rules_ok_def)
  have idx: "go_index [show_int k, n] 1 = Inr n" by (simp add: go_index_def)
  have ups: "tables (snd (run (UpsertUser (show_int k) n t t) d1)) = tables d1 \<or>
      tables (snd (run (UpsertUser (show_int k) n t t) d1)) =
      (tables d1)\<lparr>users := upsert_user k n (store_time R t) (store_time R t) (users (tables d1))\<rparr>" for d1
    using run_ok [of "UpsertUser (show_int k) n t t" d1] run_err [of "UpsertUser (show_int k) n t t" d1] st k(2)
    by (cases "run (UpsertUser (show_int k) n t t) d1"; cases "fst (run (UpsertUser (show_int k) n t t) d1)") auto
  have eq: "db_try run PrepareUpsert d (\<lambda>d1. (Inr (), ws(k \<mapsto> c), d1))
      (\<lambda>_ d1. (Inr (), ws(k \<mapsto> c), snd (run (UpsertUser (show_int k) n t t) d1))) = (res, ws', d')"
    using assms(1) unfolding heartbeat_def json.case split_heartbeat [OF assms(2)] Let_def by (simp add: at idx)
  then show ?thesis
  proof (cases rule: db_tryE)
    case (ok r d1 i)
    then have "tables d1 = tables d" by simp
    with ok ups [of d1] show ?thesis by auto
  qed auto
qed

lemma reply_after_heartbeat:
  assumes hb: "heartbeat run t conn (JStr (show_int j @ '','' @ n)) ws d = (res, ws', d1)"
    and n: "CHR '','' \<notin> set n" and j: "- (2 ^ 31) \<le> j \<and> j < 2 ^ 31" "j \<noteq> 0"
    and wf: "slack_wf (tables d)" and m: "m \<in> set (memberships (tables d))" "mem_ChannelID m = c" "UserID m = j" "j \<noteq> k"
    and call: "sendMessage run up t' (show_int k) (show_int c) body ws' d1 = (w, d2, emits)" "rw_status w = Some 200"
    and small: "- (2 ^ 31) \<le> k \<and> k < 2 ^ 31" "- (2 ^ 31) \<le> c \<and> c < 2 ^ 31"
  shows "\<exists>name msg. decode_request body = Some msg \<and> (conn, name @ '':'' @ msg) \<in> set emits"
proof -
  note eff = heartbeat_effect [OF hb n j]
  have "slack_wf (tables d1)" using heartbeat_wf [OF wf, of t conn "JStr (show_int j @ '','' @ n)" ws] hb by simp
  from message_sent [OF this call small] obtain msg and u :: User where
    e: "decode_request body = Some msg"
       "mset emits = mset (map (\<lambda>m. (the (ws' (UserID m)), UserName u @ '':'' @ msg)) (listeners (tables d1) ws' c k))"
    by blast
  have "m \<in> set (listeners (tables d1) ws' c k)" using eff m by (auto simp: listeners_def)
  then have "(conn, UserName u @ '':'' @ msg) \<in> set (map (\<lambda>m. (the (ws' (UserID m)), UserName u @ '':'' @ msg)) (listeners (tables d1) ws' c k))"
    using eff m(3) by force
  then have "(conn, UserName u @ '':'' @ msg) \<in> set emits" using e(2) by (metis set_mset_mset)
  with e(1) show ?thesis by blast
qed

end

text \<open>
  After a member's heartbeat on a connection, a message another user sends to their channel is
  emitted on that connection, whatever was connected before.
\<close>

theorem heartbeat_then_realtime:
  assumes "slack_server run tables R"
    and "heartbeat run t conn (JStr (show_int j @ '','' @ n)) ws d = (res, ws', d1)"
    and "CHR '','' \<notin> set n" and "- (2 ^ 31) \<le> j \<and> j < 2 ^ 31" and "j \<noteq> 0"
    and "slack_wf (tables d)" and "m \<in> set (memberships (tables d))" and "mem_ChannelID m = c" and "UserID m = j" and "j \<noteq> k"
    and "sendMessage run up t' (show_int k) (show_int c) body ws' d1 = (w, d2, emits)" and "rw_status w = Some 200"
    and "- (2 ^ 31) \<le> k \<and> k < 2 ^ 31" and "- (2 ^ 31) \<le> c \<and> c < 2 ^ 31"
  shows "\<exists>name msg. decode_request body = Some msg \<and> (conn, name @ '':'' @ msg) \<in> set emits"
  using slack_server.reply_after_heartbeat [OF assms] .

lemma heartbeat_example:
  "heartbeat plain_run 0 ''c9'' (JStr (show_int 2 @ '','' @ ''bob'')) Map.empty ((fresh_db one_channel)\<lparr>fd_next := 10\<rparr>)
    = (Inr (), [2 \<mapsto> ''c9''], \<lparr>fd_tables = one_channel, fd_faults = [], fd_next = 12\<rparr>)"
proof -
  have "split_at CHR '','' ''2,bob'' = [''2'', ''bob'']" "fst (atoi ''2'') = 2" "store_int plain_rules ''2'' = Some 2"
    by code_simp+
  then show ?thesis by (simp add: heartbeat_def concrete go_index_def)
qed

theorem heartbeat_then_realtime_witness:
  "\<exists>res ws' d1 w d2 emits name.
    heartbeat plain_run 0 ''c9'' (JStr (show_int 2 @ '','' @ ''bob'')) Map.empty ((fresh_db one_channel)\<lparr>fd_next := 10\<rparr>) = (res, ws', d1) \<and>
    sendMessage plain_run True 0 (show_int 1) (show_int 5) (Some (JObj [(''msg'', JStr ''hi'')])) ws' d1 = (w, d2, emits) \<and>
    (''c9'', name @ '':hi'') \<in> set emits"
proof -
  let ?b = "Some (JObj [(''msg'', JStr ''hi'')])"
  let ?d1 = "\<lparr>fd_tables = one_channel, fd_faults = [], fd_next = 12\<rparr>"
  obtain w d2 emits where 2: "sendMessage plain_run True 0 (show_int 1) (show_int 5) ?b [2 \<mapsto> ''c9''] ?d1 = (w, d2, emits)"
    "rw_status w = Some 200"
    by (simp add: sendMessage_def decode_request_def concrete)
  have "\<exists>name. (''c9'', name @ '':hi'') \<in> set emits"
    using heartbeat_then_realtime [OF sl_faulty.slack_server_axioms heartbeat_example _ _ _ _ _ _ _ _ 2,
        of "\<lparr>MembershipID = 7, mem_ChannelID = 5, UserID = 2\<rparr>"]
    by (auto simp: concrete slack_wf_def decode_request_def)
  with heartbeat_example 2(1) show ?thesis by blast
qed

text \<open>
  A heartbeat text without a comma brings the event handler down (index out of range), after
  the connection has been stored under the number the text starts with; a heartbeat that is no text
  brings it down at once; \<open>nil\<close> does nothing.
\<close>

theorem heartbeat_panics:
  assumes "fst (run PrepareUpsert d) = Inr r" and "CHR '','' \<notin> set s"
  shows "heartbeat run t c (JStr s) ws d =
      (Inl IndexOutOfRange, ws(fst (atoi s) \<mapsto> c), snd (run PrepareUpsert d)) \<and>
    heartbeat run t c (JNum i) ws d = (Inl (PanicValue ''interface conversion''), ws, d) \<and>
    heartbeat run t c JNull ws d = (Inr (), ws, d)"
  using assms by (cases "run PrepareUpsert d") (simp add: heartbeat_def db_try_def split_at_none go_index_def Let_def)

theorem heartbeat_panics_witness:
  "fst (heartbeat plain_run 0 ''c9'' (JStr ''17'') Map.empty (fresh_db two_users)) = Inl IndexOutOfRange"
  using heartbeat_panics [of plain_run "fresh_db two_users" "rows_result []" "''17''" 0 "''c9''" Map.empty]
  by (simp add: concrete)

subsection \<open>Integrity and status\<close>

text \<open>
  The tables stay sound under any interleaving of requests: whatever statements any number of
  handlers send in whatever order, and whichever of them fail, ids stay unique, and every membership
  and message refers to a user and a channel that exist.
\<close>

theorem slack_integrity:
  assumes "slack_server run tables R" and "slack_wf (tables d)"
  shows "slack_wf (tables (foldl (\<lambda>d q. snd (run q d)) d qs))"
  using assms(2)
proof (induction qs arbitrary: d)
  case (Cons q qs)
  with slack_server.run_wf [OF assms(1)] show ?case by simp
qed simp

theorem slack_integrity_witness:
  "slack_wf (fd_tables (foldl (\<lambda>d q. snd (plain_run q d)) (fresh_db two_users)
     [InsChannel ''DM'' ''x'', InsMembership 1 9, InsUser ''ann'' 0, InsMessage (VInt 1) (VInt 1) ''hi'' 0]))"
  by (rule slack_integrity [OF sl_faulty.slack_server_axioms]) (simp add: concrete slack_wf_def)

lemma put_status_keys: "fst ` set (put_status n b out) = insert n (fst ` set out)"
  by (induction n b out rule: put_status.induct) auto

lemma put_status_distinct: "distinct (map fst out) \<Longrightarrow> distinct (map fst (put_status n b out))"
proof (induction n b out rule: put_status.induct)
  case (2 n b n' b' out)
  then show ?case using put_status_keys [of n b out] by auto
qed simp

lemma put_status_lookup: "map_of (put_status n b out) m = (if m = n then Some b else map_of out m)"
  by (induction n b out rule: put_status.induct) auto

definition statuses :: "time \<Rightarrow> User list \<Rightarrow> (string \<times> bool) list" where
  "statuses now us = foldl (\<lambda>out u. put_status (UserName u) (online now u) out) [] us"

lemma statuses_snoc: "statuses now (us @ [u]) = put_status (UserName u) (online now u) (statuses now us)"
  by (simp add: statuses_def)

lemma statuses_distinct: "distinct (map fst (statuses now us))"
proof (induction us rule: rev_induct)
  case (snoc u us)
  then show ?case unfolding statuses_snoc by (rule put_status_distinct)
qed (simp add: statuses_def)

lemma statuses_lookup:
  "map_of (statuses now us) n = (case filter (\<lambda>u. UserName u = n) us of [] \<Rightarrow> None | vs \<Rightarrow> Some (online now (last vs)))"
proof (induction us rule: rev_induct)
  case (snoc u us)
  then show ?case unfolding statuses_snoc put_status_lookup by (auto split: list.splits)
qed (simp add: statuses_def)

lemma status_map_lookup: "map_of (status_map now us) n = map_of (statuses now us) n"
proof -
  have "distinct (map fst (status_map now us))"
    using statuses_distinct [of now us] by (simp add: status_map_def statuses_def distinct_map)
  moreover have "set (status_map now us) = set (statuses now us)" by (simp add: status_map_def statuses_def)
  ultimately show ?thesis using statuses_distinct [of now us] by (metis map_of_inject_set)
qed

context slack_server
begin

lemma status_page:
  assumes "slack_status run True now d = (w, d')" and "rw_status w = Some 200"
  shows "\<exists>st. rw_body w = [Json (JObj (map (\<lambda>(n, b). (n, JBool b)) st))] \<and> sorted (map fst st) \<and> tables d' = tables d \<and>
    (\<forall>u \<in> set (users (tables d)). (\<forall>v \<in> set (users (tables d)). UserName v = UserName u \<longrightarrow> v = u) \<longrightarrow>
       map_of st (UserName u) = Some (now - LastTimestamp u \<le> 10 * second)) \<and>
    (\<forall>n. map_of st n \<noteq> None \<longleftrightarrow> n \<in> UserName ` set (users (tables d)))"
  using assms(1) unfolding slack_status_def
proof (cases rule: db_tryE)
  case (err d1)
  with assms(2) show ?thesis by auto
next
  case (ok r d1 i)
  let ?us = "reorder R i (users (tables d))"
  have set: "set ?us = set (users (tables d))" using rules by simp
  have w: "rw_body w = [Json (JObj (map (\<lambda>(n, b). (n, JBool b)) (status_map now ?us)))]" "tables d' = tables d"
    using ok by (auto simp: http_defs)
  have one: "map_of (status_map now ?us) (UserName u) = Some (now - LastTimestamp u \<le> 10 * second)"
    if u: "u \<in> set ?us" "\<forall>v \<in> set ?us. UserName v = UserName u \<longrightarrow> v = u" for u
  proof -
    let ?f = "filter (\<lambda>v. UserName v = UserName u) ?us"
    have "?f \<noteq> []" "set ?f \<subseteq> {u}" using u by (auto simp: filter_empty_conv)
    then have "last ?f = u" using last_in_set [of ?f] by auto
    with \<open>?f \<noteq> []\<close> have "map_of (status_map now ?us) (UserName u) = Some (online now u)"
      unfolding status_map_lookup statuses_lookup by (cases ?f) auto
    then show ?thesis by (simp add: online_def time_sub_le_iff second_def)
  qed
  have "map_of (status_map now ?us) n \<noteq> None \<longleftrightarrow> n \<in> UserName ` set ?us" for n
  proof -
    have "n \<in> UserName ` set ?us \<longleftrightarrow> filter (\<lambda>u. UserName u = n) ?us \<noteq> []" by (auto simp: filter_empty_conv)
    then show ?thesis unfolding status_map_lookup statuses_lookup by (auto split: list.splits)
  qed
  with w one show ?thesis unfolding set by (intro exI [of _ "status_map now ?us"]) (auto simp: status_map_def)
qed

end

text \<open>
  C33. The status page lists exactly the names of the users, sorted, and a user whose name nobody
  else has is online exactly when the last heartbeat is at most ten seconds old.
\<close>

theorem slack_status_correct:
  assumes "slack_server run tables R"
    and "slack_status run True now d = (w, d')" and "rw_status w = Some 200"
  shows "\<exists>st. rw_body w = [Json (JObj (map (\<lambda>(n, b). (n, JBool b)) st))] \<and> sorted (map fst st) \<and> tables d' = tables d \<and>
    (\<forall>u \<in> set (users (tables d)). (\<forall>v \<in> set (users (tables d)). UserName v = UserName u \<longrightarrow> v = u) \<longrightarrow>
       map_of st (UserName u) = Some (now - LastTimestamp u \<le> 10 * second)) \<and>
    (\<forall>n. map_of st n \<noteq> None \<longleftrightarrow> n \<in> UserName ` set (users (tables d)))"
  using slack_server.status_page [OF assms] .

theorem slack_status_correct_witness:
  "\<exists>w d' st. slack_status plain_run True 3000000000 (fresh_db two_users) = (w, d') \<and>
    rw_body w = [Json (JObj (map (\<lambda>(n, b). (n, JBool b)) st))] \<and> map_of st ''bob'' = Some True"
proof -
  obtain w d' where 1: "slack_status plain_run True 3000000000 (fresh_db two_users) = (w, d')" "rw_status w = Some 200"
    by (simp add: slack_status_def concrete http_defs)
  from slack_status_correct [OF sl_faulty.slack_server_axioms 1] 1(1) show ?thesis
    by (auto simp: concrete second_def)
qed

end
