(* ===== verification/Slack_Concurrent.thy ===== *)
theory Slack_Concurrent
  imports Slack_Properties Go_Runs
begin

text \<open>
  The chat server as a concurrent program. \<open>net/http\<close> and the socket library run every handler in a
  goroutine of its own; the handlers meet in the database, one statement at a time. The handlers of
  \<open>Slack_Server\<close> are used as they are: a handler that has had the answers \<open>as\<close> from the database is
  run on \<open>replay_run\<close>, a database that gives these answers and stops the handler at the next
  statement. So a request is its answers so far, and a step of the server executes the next statement
  of one request. A request that runs alone does what its handler does (\<open>slack_alone\<close>).
\<close>

subsection \<open>Requests\<close>

text \<open>
  The routes of \<open>main\<close> and the heartbeat event, with the values that are not in the database:
  whether the client takes the answer, the clock, path values and body.
\<close>

datatype request =
    ReqCreateUser bool time string
  | ReqCreateChannel bool time string string
  | ReqSendMessage bool time string string "json option"
  | ReqStatus bool time
  | ReqHeartbeat time conn json

datatype outcome = Http response | Event "unit go"

text \<open>
  \<open>ws\<close> is the connection map. What a request emits on the sockets is not part of its answer
  (\<open>Slack_System\<close> puts the requests and the connection map together).
\<close>

definition slack_handle :: "'db slack_run \<Rightarrow> ws_map \<Rightarrow> request \<Rightarrow> 'db \<Rightarrow> outcome \<times> 'db" where
  "slack_handle run ws req d =
     (case req of
        ReqCreateUser up t n \<Rightarrow> (case createUser run up t n d of (w, d') \<Rightarrow> (Http w, d'))
      | ReqCreateChannel up t s r \<Rightarrow> (case createChannel run up t s r d of (w, d', calls) \<Rightarrow> (Http w, d'))
      | ReqSendMessage up t s c body \<Rightarrow> (case sendMessage run up t s c body ws d of (w, d', emits) \<Rightarrow> (Http w, d'))
      | ReqStatus up t \<Rightarrow> (case slack_status run up t d of (w, d') \<Rightarrow> (Http w, d'))
      | ReqHeartbeat t c msg \<Rightarrow> (case heartbeat run t c msg ws d of (v, ws', d') \<Rightarrow> (Event v, d')))"

subsection \<open>Handlers in steps\<close>

type_synonym answer = "string + sql_result"
type_synonym replay = "answer list \<times> slack_stmt option"

fun replay_run :: "replay slack_run" where
  "replay_run q (a # as, None) = (a, (as, None))"
| "replay_run q ([], None) = (Inl ''pending'', ([], Some q))"
| "replay_run q (as, Some p) = (Inl ''pending'', (as, Some p))"

definition next_stmt :: "ws_map \<Rightarrow> request \<Rightarrow> answer list \<Rightarrow> slack_stmt option" where
  "next_stmt ws req as = snd (snd (slack_handle replay_run ws req (as, None)))"

definition outcome_of :: "ws_map \<Rightarrow> request \<Rightarrow> answer list \<Rightarrow> outcome" where
  "outcome_of ws req as = fst (slack_handle replay_run ws req (as, None))"

record 'db cs_sys =
  cs_db :: 'db
  cs_reqs :: "(request \<times> answer list) list"

inductive cs_step :: "'db slack_run \<Rightarrow> ws_map \<Rightarrow> 'db cs_sys \<Rightarrow> 'db cs_sys \<Rightarrow> bool" for run ws where
  cs_stmt: "i < length (cs_reqs s) \<Longrightarrow> cs_reqs s ! i = (req, as) \<Longrightarrow> next_stmt ws req as = Some q \<Longrightarrow>
    run q (cs_db s) = (a, d) \<Longrightarrow>
    cs_step run ws s \<lparr>cs_db = d, cs_reqs = (cs_reqs s)[i := (req, as @ [a])]\<rparr>"

definition cs_init :: "'db \<Rightarrow> request list \<Rightarrow> 'db cs_sys" where
  "cs_init d reqs = \<lparr>cs_db = d, cs_reqs = map (\<lambda>req. (req, [])) reqs\<rparr>"

definition cs_done :: "ws_map \<Rightarrow> 'db cs_sys \<Rightarrow> bool" where
  "cs_done ws s \<longleftrightarrow> list_all (\<lambda>(req, as). next_stmt ws req as = None) (cs_reqs s)"

subsection \<open>One program on two databases\<close>

text \<open>
  \<open>same_prog n f g\<close>: the same handler, of at most \<open>n\<close> statements, over the database \<open>run\<close> and over
  replayed answers.
\<close>

inductive same_prog :: "'db slack_run \<Rightarrow> nat \<Rightarrow> ('db \<Rightarrow> 'o \<times> 'db) \<Rightarrow> (replay \<Rightarrow> 'o \<times> replay) \<Rightarrow> bool" for run where
  same_ret: "same_prog run n (\<lambda>d. (v, d)) (\<lambda>e. (v, e))"
| same_try: "same_prog run n f f' \<Longrightarrow> (\<And>r. same_prog run n (k r) (k' r)) \<Longrightarrow>
    same_prog run (Suc n) (\<lambda>d. db_try run q d f k) (\<lambda>e. db_try replay_run q e f' k')"

lemma same_prog_suspended: "same_prog run n f g \<Longrightarrow> snd (g (as, Some q)) = (as, Some q)"
  by (induction rule: same_prog.induct) (simp_all add: db_try_def)

text \<open>The run of one handler alone: its statements on the database, its answers.\<close>

inductive alone :: "'db slack_run \<Rightarrow> (replay \<Rightarrow> 'o \<times> replay) \<Rightarrow> 'db \<Rightarrow> answer list \<Rightarrow> 'db \<Rightarrow> bool" for run g d where
  alone_none: "alone run g d [] d"
| alone_next: "alone run g d as d1 \<Longrightarrow> snd (snd (g (as, None))) = Some q \<Longrightarrow> run q d1 = (a, d2) \<Longrightarrow>
    alone run g d (as @ [a]) d2"

lemma alone_later:
  assumes "alone run g d1 as d2" and "\<And>bs. h (a # bs, None) = g (bs, None)" and "snd (snd (h ([], None))) = Some q"
    and "run q d = (a, d1)"
  shows "alone run h d (a # as) d2"
  using assms(1)
proof (induction rule: alone.induct)
  case alone_none
  from alone.alone_next [of run h d "[]" d q a d1] assms(3,4) show ?case by (simp add: alone.alone_none)
next
  case (alone_next as e q' b e')
  then show ?case using alone.alone_next [of run h d "a # as" e q' b e'] assms(2) by simp
qed

lemma same_prog_alone:
  "same_prog run n f g \<Longrightarrow>
    \<exists>as v d'. f d = (v, d') \<and> g (as, None) = (v, ([], None)) \<and> alone run g d as d'"
proof (induction arbitrary: d rule: same_prog.induct)
  case (same_ret n v)
  then show ?case by (blast intro: alone.alone_none)
next
  case (same_try n f f' k k' q)
  let ?h = "\<lambda>e. db_try replay_run q e f' k'"
  have first: "snd (snd (?h ([], None))) = Some q"
    using same_prog_suspended [OF same_try.hyps(1)] by (simp add: db_try_def)
  obtain a d1 where a: "run q d = (a, d1)" by (cases "run q d")
  show ?case
  proof (cases a)
    case (Inl err)
    obtain as v d' where *: "f d1 = (v, d')" "f' (as, None) = (v, ([], None))" "alone run f' d1 as d'"
      using same_try.IH(1) by blast
    have "alone run ?h d (a # as) d'"
      using alone_later [of run f' d1 as d' ?h a q d] *(3) first a by (simp add: db_try_def Inl)
    with * a Inl show ?thesis by (intro exI [of _ "a # as"]) (simp add: db_try_def)
  next
    case (Inr r)
    obtain as v d' where *: "k r d1 = (v, d')" "k' r (as, None) = (v, ([], None))" "alone run (k' r) d1 as d'"
      using same_try.IH(2) by blast
    have "alone run ?h d (a # as) d'"
      using alone_later [of run "k' r" d1 as d' ?h a q d] *(3) first a by (simp add: db_try_def Inr)
    with * a Inr show ?thesis by (intro exI [of _ "a # as"]) (simp add: db_try_def)
  qed
qed

lemma same_prog_bounded:
  "same_prog run n f g \<Longrightarrow> n \<le> length as \<Longrightarrow> snd (snd (g (as, None))) = None"
proof (induction arbitrary: as rule: same_prog.induct)
  case (same_try n f f' k k' q)
  then obtain a bs where "as = a # bs" "n \<le> length bs" by (cases as) auto
  with same_try.IH show ?case by (cases a) (simp_all add: db_try_def)
qed simp

subsection \<open>The handlers are such programs\<close>

lemma db_try_map: "g (db_try run q d f k) = db_try run q d (\<lambda>d. g (f d)) (\<lambda>r d. g (k r d))"
  by (simp add: db_try_def split: prod.splits sum.splits)

lemma same_if:
  "(b \<Longrightarrow> same_prog run n f f') \<Longrightarrow> (\<not> b \<Longrightarrow> same_prog run n g g') \<Longrightarrow>
    same_prog run n (\<lambda>d. if b then f d else g d) (\<lambda>e. if b then f' e else g' e)"
  by (cases b) simp_all

lemma same_option:
  "same_prog run n f f' \<Longrightarrow> (\<And>x. same_prog run n (h x) (h' x)) \<Longrightarrow>
    same_prog run n (\<lambda>d. case z of None \<Rightarrow> f d | Some x \<Rightarrow> h x d) (\<lambda>e. case z of None \<Rightarrow> f' e | Some x \<Rightarrow> h' x e)"
  by (cases z) simp_all

text \<open>What is done with a handler's result moves to where the handler returns.\<close>

lemma result_pushes:
  "(case db_try run q d f k of (v, z) \<Rightarrow> G v z) =
     db_try run q d (\<lambda>d. case f d of (v, z) \<Rightarrow> G v z) (\<lambda>r d. case k r d of (v, z) \<Rightarrow> G v z)"
  "(case if b then x else y of (v, z) \<Rightarrow> G v z) =
     (if b then case x of (v, z) \<Rightarrow> G v z else case y of (v, z) \<Rightarrow> G v z)"
  "(case case m of None \<Rightarrow> x | Some u \<Rightarrow> h u of (v, z) \<Rightarrow> G v z) =
     (case m of None \<Rightarrow> case x of (v, z) \<Rightarrow> G v z | Some u \<Rightarrow> case h u of (v, z) \<Rightarrow> G v z)"
  by (rule db_try_map, simp_all split: option.splits)

lemmas same_intros = same_prog.same_ret same_prog.same_try same_if same_option

lemma last_stmt: "(v, snd (run q d)) = db_try run q d (\<lambda>d. (v, d)) (\<lambda>r d. (v, d))"
  by (simp add: db_try_def split: prod.splits sum.splits)

lemma same_heartbeat:
  "same_prog run (Suc (Suc n)) (\<lambda>d. case heartbeat run t c msg ws d of (v, ws', d') \<Rightarrow> (Event v, d'))
     (\<lambda>e. case heartbeat replay_run t c msg ws e of (v, ws', d') \<Rightarrow> (Event v, d'))"
proof (cases msg)
  case (JStr s)
  show ?thesis
  proof (cases "go_index (split_at CHR '','' s) 1")
    case (Inl p)
    then show ?thesis unfolding heartbeat_def Let_def JStr
      by (simp only: json.case sum.case) (simp only: prod.case result_pushes | rule same_intros)+
  next
    case (Inr name)
    then show ?thesis unfolding heartbeat_def Let_def JStr
      by (simp only: json.case sum.case) (simp only: prod.case result_pushes last_stmt | rule same_intros)+
  qed
qed (simp_all add: heartbeat_def same_prog.same_ret)

lemma same_handle:
  "same_prog run (Suc (Suc (Suc (Suc (Suc (Suc (Suc 0))))))) (slack_handle run ws req) (slack_handle replay_run ws req)"
proof (cases req)
  case (ReqCreateUser up t n)
  then show ?thesis
    unfolding slack_handle_def createUser_def Let_def
    by (simp only: request.case) (simp only: prod.case result_pushes | rule same_intros)+
next
  case (ReqCreateChannel up t s r)
  then show ?thesis
    unfolding slack_handle_def createChannel_def with_user_id_def open_channel_def show_channel_def Let_def
    by (simp only: request.case) (simp only: prod.case result_pushes | rule same_intros)+
next
  case (ReqSendMessage up t s c body)
  then show ?thesis
    unfolding slack_handle_def sendMessage_def Let_def
    by (simp only: request.case) (simp only: prod.case result_pushes | rule same_intros)+
next
  case (ReqStatus up t)
  then show ?thesis
    unfolding slack_handle_def slack_status_def Let_def
    by (simp only: request.case) (simp only: prod.case result_pushes | rule same_intros)+
next
  case (ReqHeartbeat t c msg)
  then show ?thesis unfolding slack_handle_def by (simp add: same_heartbeat)
qed

lemma next_stmt_bounded: "next_stmt ws req as = Some q \<Longrightarrow> length as < 7"
  using same_prog_bounded [OF same_handle, of as ws req] unfolding next_stmt_def by (cases "length as < 7") auto

subsection \<open>Runs of the server\<close>

definition cs_ok :: "request list \<Rightarrow> 'db cs_sys \<Rightarrow> bool" where
  "cs_ok reqs s \<longleftrightarrow> map fst (cs_reqs s) = reqs"

definition answers_left :: "request \<times> answer list \<Rightarrow> nat" where
  "answers_left ra = 7 - length (snd ra)"

definition cs_variant :: "'db cs_sys \<Rightarrow> nat" where
  "cs_variant s = weight answers_left (cs_reqs s)"

lemma cs_step_ok: "cs_ok reqs s \<Longrightarrow> cs_step run ws s t \<Longrightarrow> cs_ok reqs t"
proof (erule cs_step.cases)
  fix u i req as q a d
  assume "cs_ok reqs s" "s = u" "t = \<lparr>cs_db = d, cs_reqs = (cs_reqs u)[i := (req, as @ [a])]\<rparr>"
    "i < length (cs_reqs u)" "cs_reqs u ! i = (req, as)"
  then show "cs_ok reqs t" by (auto simp: cs_ok_def map_update list_update_same_conv)
qed

lemma cs_step_variant: "cs_step run ws s t \<Longrightarrow> cs_variant t < cs_variant s"
proof (erule cs_step.cases)
  fix u i req as q a d
  assume *: "s = u" "t = \<lparr>cs_db = d, cs_reqs = (cs_reqs u)[i := (req, as @ [a])]\<rparr>"
    "i < length (cs_reqs u)" "cs_reqs u ! i = (req, as)" and "next_stmt ws req as = Some q"
  from next_stmt_bounded [OF this(5)] * show "cs_variant t < cs_variant s"
    by (simp add: cs_variant_def answers_left_def weight_update_less)
qed

lemma cs_step_iff: "(\<exists>t. cs_step run ws s t) \<longleftrightarrow> \<not> cs_done ws s"
proof
  assume "\<not> cs_done ws s"
  then obtain i req as q where i: "i < length (cs_reqs s)" "cs_reqs s ! i = (req, as)" "next_stmt ws req as = Some q"
    by (fastforce simp: cs_done_def list_all_length)
  obtain a d where "run q (cs_db s) = (a, d)" by (cases "run q (cs_db s)")
  from cs_step.cs_stmt [OF i, of run, OF this] show "\<exists>t. cs_step run ws s t" by blast
qed (auto elim!: cs_step.cases simp: cs_done_def list_all_length)

interpretation cs: live_system "\<lambda>s. s = cs_init d reqs" "cs_step run ws" "cs_ok reqs" cs_variant "cs_done ws"
  for d reqs run ws
proof unfold_locales
  fix s
  show "s = cs_init d reqs \<Longrightarrow> cs_ok reqs s" by (simp add: cs_init_def cs_ok_def comp_def)
qed (auto simp: cs_step_iff intro: cs_step_ok cs_step_variant)

context slack_server
begin

lemma cs_run_wf: "(cs_step run ws)\<^sup>*\<^sup>* s t \<Longrightarrow> slack_wf (tables (cs_db s)) \<Longrightarrow> slack_wf (tables (cs_db t))"
proof (induction rule: rtranclp_induct)
  case (step t u)
  from step.hyps(2) show ?case
  proof cases
    case (cs_stmt i req as q a d)
    with run_wf [OF step.IH [OF step.prems], of q] show ?thesis by simp
  qed
qed

end

subsection \<open>A request alone\<close>

lemma alone_cs_run:
  assumes "alone run (slack_handle replay_run ws req) d as d'"
  shows "(cs_step run ws)\<^sup>*\<^sup>* (cs_init d [req]) \<lparr>cs_db = d', cs_reqs = [(req, as)]\<rparr>"
  using assms
proof (induction rule: alone.induct)
  case (alone_next as d1 q a d2)
  then have "cs_step run ws \<lparr>cs_db = d1, cs_reqs = [(req, as)]\<rparr> \<lparr>cs_db = d2, cs_reqs = [(req, as @ [a])]\<rparr>"
    using cs_step.cs_stmt [of 0 "\<lparr>cs_db = d1, cs_reqs = [(req, as)]\<rparr>" req as ws q run a d2] by (simp add: next_stmt_def)
  with alone_next.IH show ?case by (rule run_then_step)
qed (simp add: cs_init_def)

lemma one_request_det:
  assumes "length (cs_reqs s) = 1" and "cs_step run ws s t" and "cs_step run ws s u"
  shows "t = u"
  using assms(2)
proof cases
  case (cs_stmt i req as q a d)
  note t = this
  from assms(3) show ?thesis
  proof cases
    case (cs_stmt j req' as' q' a' d')
    then have "j = i" using t assms(1) by simp
    with cs_stmt t show ?thesis by simp
  qed
qed

lemma one_request_unique_end:
  assumes "(cs_step run ws)\<^sup>*\<^sup>* s t" and "(cs_step run ws)\<^sup>*\<^sup>* s u" and "length (cs_reqs s) = 1"
    and "cs_done ws t" and "cs_done ws u"
  shows "t = u"
  using assms
proof (induction arbitrary: u rule: converse_rtranclp_induct)
  case base
  then show ?case using cs_step_iff by (metis converse_rtranclpE)
next
  case (step s v)
  then have "s \<noteq> u" using cs_step_iff by metis
  then obtain v' where v': "cs_step run ws s v'" "(cs_step run ws)\<^sup>*\<^sup>* v' u"
    using step.prems(1) by (metis converse_rtranclpE)
  then have "v' = v" using one_request_det step.hyps(1) step.prems(2) by blast
  moreover have "length (cs_reqs v) = 1" using step.hyps(1) step.prems(2) by cases simp
  ultimately show ?case using step.IH v'(2) step.prems(3,4) by blast
qed

text \<open>
  Interleaving agrees with the handlers: a request that runs alone until it is
  done has the answer of its handler, and leaves the database its handler leaves.
\<close>

lemma slack_alone:
  assumes "(cs_step run ws)\<^sup>*\<^sup>* (cs_init d [req]) s" and "cs_done ws s"
  shows "\<exists>as. cs_reqs s = [(req, as)] \<and> slack_handle run ws req d = (outcome_of ws req as, cs_db s)"
proof -
  obtain as v d' where *: "slack_handle run ws req d = (v, d')" "slack_handle replay_run ws req (as, None) = (v, ([], None))"
    "alone run (slack_handle replay_run ws req) d as d'"
    using same_prog_alone [OF same_handle, of run ws req d] by blast
  have "cs_done ws \<lparr>cs_db = d', cs_reqs = [(req, as)]\<rparr>" using *(2) by (simp add: cs_done_def next_stmt_def)
  then have "s = \<lparr>cs_db = d', cs_reqs = [(req, as)]\<rparr>"
    using one_request_unique_end [OF assms(1) alone_cs_run [OF *(3)] _ assms(2)] by (simp add: cs_init_def)
  with * show ?thesis by (simp add: outcome_of_def)
qed

subsection \<open>Two users of one name\<close>

lemma createUser_stmts:
  "next_stmt ws (ReqCreateUser up t n) [] = Some (SelUserIdName n)"
  "next_stmt ws (ReqCreateUser up t n) [Inr (rows_result [])] = Some (InsUser n t)"
  "next_stmt ws (ReqCreateUser up t n) [Inr (rows_result []), Inr (exec_result i)] = None"
  "outcome_of ws (ReqCreateUser up t n) [Inr (rows_result []), Inr (exec_result i)] =
     Http (http_json up (user_json \<lparr>uId = i, UserName = n, LastTimestamp = zero_time\<rparr>) new_response)"
  by (simp_all add: next_stmt_def outcome_of_def slack_handle_def createUser_def db_try_def new_user_def)

lemma two_request_step:
  "next_stmt ws r1 as = Some q \<Longrightarrow> run q d = (a, d') \<Longrightarrow>
     cs_step run ws \<lparr>cs_db = d, cs_reqs = [(r1, as), r2]\<rparr> \<lparr>cs_db = d', cs_reqs = [(r1, as @ [a]), r2]\<rparr>"
  "next_stmt ws r1 as = Some q \<Longrightarrow> run q d = (a, d') \<Longrightarrow>
     cs_step run ws \<lparr>cs_db = d, cs_reqs = [r2, (r1, as)]\<rparr> \<lparr>cs_db = d', cs_reqs = [r2, (r1, as @ [a])]\<rparr>"
  using cs_step.cs_stmt [of 0 "\<lparr>cs_db = d, cs_reqs = [(r1, as), r2]\<rparr>" r1 as ws q run a d']
    cs_step.cs_stmt [of 1 "\<lparr>cs_db = d, cs_reqs = [r2, (r1, as)]\<rparr>" r1 as ws q run a d'] by simp_all

lemma plain_select_none:
  "\<forall>u \<in> set (users T). UserName u \<noteq> n \<Longrightarrow>
    plain_run (SelUserIdName n) \<lparr>fd_tables = T, fd_faults = [], fd_next = i\<rparr> =
      (Inr (rows_result []), \<lparr>fd_tables = T, fd_faults = [], fd_next = i + 1\<rparr>)"
  by (auto simp: faulty_run_def Let_def filter_empty_conv intro!: arg_cong [where f = rows_result])

lemma plain_insert_user:
  "fresh_id i (map uId (users T)) \<Longrightarrow>
    plain_run (InsUser n t) \<lparr>fd_tables = T, fd_faults = [], fd_next = i\<rparr> =
      (Inr (exec_result i),
       \<lparr>fd_tables = T\<lparr>users := users T @ [\<lparr>uId = i, UserName = n, LastTimestamp = store_time plain_rules t\<rparr>]\<rparr>,
        fd_faults = [], fd_next = i + 1\<rparr>)"
  by (simp add: faulty_run_def Let_def)

text \<open>
  C26. \<open>createUser\<close> looks for the name and inserts it in two statements, with nothing between them
  to keep others out. So two requests for a name that nobody has, on a database without any fault,
  can both be answered with 200 and users of different ids, and leave two users of that name.
\<close>

theorem createUser_race:
  assumes "\<forall>u \<in> set (users T). UserName u \<noteq> n \<and> uId u < i" and "0 < i" and "i + 3 < 2 ^ 31"
  shows "\<exists>s as bs u v.
    (cs_step plain_run ws)\<^sup>*\<^sup>* (cs_init \<lparr>fd_tables = T, fd_faults = [], fd_next = i\<rparr> [ReqCreateUser True t n, ReqCreateUser True t' n]) s \<and>
    cs_done ws s \<and> cs_reqs s = [(ReqCreateUser True t n, as), (ReqCreateUser True t' n, bs)] \<and>
    outcome_of ws (ReqCreateUser True t n) as = Http (http_json True (user_json u) new_response) \<and>
    outcome_of ws (ReqCreateUser True t' n) bs = Http (http_json True (user_json v) new_response) \<and>
    uId u \<noteq> uId v \<and> UserName u = n \<and> UserName v = n \<and>
    map uId (filter (\<lambda>x. UserName x = n) (users (fd_tables (cs_db s)))) = [uId u, uId v]"
proof -
  let ?r = "ReqCreateUser True t n" and ?r' = "ReqCreateUser True t' n"
  let ?db = "\<lambda>us k. \<lparr>fd_tables = T\<lparr>users := users T @ us\<rparr>, fd_faults = [], fd_next = i + k\<rparr>"
  let ?u = "\<lparr>uId = i + 2, UserName = n, LastTimestamp = store_time plain_rules t\<rparr>"
  let ?v = "\<lparr>uId = i + 3, UserName = n, LastTimestamp = store_time plain_rules t'\<rparr>"
  let ?none = "Inr (rows_result []) :: answer"
  have none: "plain_run (SelUserIdName n) (?db [] k) = (?none, ?db [] (k + 1))" for k
    using plain_select_none [of T n "i + k"] assms(1) by (simp add: add.assoc)
  have ins: "plain_run (InsUser n t) (?db [] 2) = (Inr (exec_result (i + 2)), ?db [?u] 3)"
    "plain_run (InsUser n t') (?db [?u] 3) = (Inr (exec_result (i + 3)), ?db [?u, ?v] 4)"
    using plain_insert_user [of "i + 2" T n t] plain_insert_user [of "i + 3" "T\<lparr>users := users T @ [?u]\<rparr>" n t'] assms
    by (force simp: fresh_id_def)+
  let ?s = "\<lparr>cs_db = ?db [?u, ?v] 4, cs_reqs = [(?r, [?none, Inr (exec_result (i + 2))]), (?r', [?none, Inr (exec_result (i + 3))])]\<rparr>"
  have "(cs_step plain_run ws)\<^sup>*\<^sup>* (cs_init \<lparr>fd_tables = T, fd_faults = [], fd_next = i\<rparr> [?r, ?r'])
      \<lparr>cs_db = ?db [] 0, cs_reqs = [(?r, []), (?r', [])]\<rparr>" by (simp add: cs_init_def)
  also have "cs_step plain_run ws \<lparr>cs_db = ?db [] 0, cs_reqs = [(?r, []), (?r', [])]\<rparr>
      \<lparr>cs_db = ?db [] 1, cs_reqs = [(?r, [?none]), (?r', [])]\<rparr>"
    using two_request_step(1) [of ws ?r "[]" "SelUserIdName n" plain_run "?db [] 0" ?none "?db [] 1"] none [of 0]
    by (simp add: createUser_stmts)
  also have "cs_step plain_run ws \<lparr>cs_db = ?db [] 1, cs_reqs = [(?r, [?none]), (?r', [])]\<rparr>
      \<lparr>cs_db = ?db [] 2, cs_reqs = [(?r, [?none]), (?r', [?none])]\<rparr>"
    using two_request_step(2) [of ws ?r' "[]" "SelUserIdName n" plain_run "?db [] 1" ?none "?db [] 2"] none [of 1]
    by (simp add: createUser_stmts)
  also have "cs_step plain_run ws \<lparr>cs_db = ?db [] 2, cs_reqs = [(?r, [?none]), (?r', [?none])]\<rparr>
      \<lparr>cs_db = ?db [?u] 3, cs_reqs = [(?r, [?none, Inr (exec_result (i + 2))]), (?r', [?none])]\<rparr>"
    using two_request_step(1) [of ws ?r "[?none]" "InsUser n t" plain_run "?db [] 2" _ "?db [?u] 3", OF _ ins(1)]
    by (simp add: createUser_stmts)
  also have "cs_step plain_run ws \<lparr>cs_db = ?db [?u] 3, cs_reqs = [(?r, [?none, Inr (exec_result (i + 2))]), (?r', [?none])]\<rparr> ?s"
    using two_request_step(2) [of ws ?r' "[?none]" "InsUser n t'" plain_run "?db [?u] 3" _ "?db [?u, ?v] 4", OF _ ins(2)]
    by (simp add: createUser_stmts)
  finally have run: "(cs_step plain_run ws)\<^sup>*\<^sup>* (cs_init \<lparr>fd_tables = T, fd_faults = [], fd_next = i\<rparr> [?r, ?r']) ?s" .
  have "filter (\<lambda>x. UserName x = n) (users T) = []" using assms(1) by (simp add: filter_empty_conv)
  with run show ?thesis
    by (intro exI [of _ ?s] exI [of _ "[?none, Inr (exec_result (i + 2))]"] exI [of _ "[?none, Inr (exec_result (i + 3))]"]
        exI [of _ "\<lparr>uId = i + 2, UserName = n, LastTimestamp = zero_time\<rparr>"]
        exI [of _ "\<lparr>uId = i + 3, UserName = n, LastTimestamp = zero_time\<rparr>"])
      (simp add: cs_done_def createUser_stmts)
qed

subsubsection \<open>Witnesses\<close>

theorem createUser_race_witness:
  "\<exists>s. (cs_step plain_run Map.empty)\<^sup>*\<^sup>*
      (cs_init \<lparr>fd_tables = two_users, fd_faults = [], fd_next = 3\<rparr> [ReqCreateUser True 0 ''cyd'', ReqCreateUser True 0 ''cyd'']) s \<and>
    length (filter (\<lambda>x. UserName x = ''cyd'') (users (fd_tables (cs_db s)))) = 2"
proof -
  obtain s u v where "(cs_step plain_run Map.empty)\<^sup>*\<^sup>*
      (cs_init \<lparr>fd_tables = two_users, fd_faults = [], fd_next = 3\<rparr> [ReqCreateUser True 0 ''cyd'', ReqCreateUser True 0 ''cyd'']) s"
    "map uId (filter (\<lambda>x. UserName x = ''cyd'') (users (fd_tables (cs_db s)))) = [u, v]"
    using createUser_race [of two_users "''cyd''" 3 Map.empty 0 0] by (auto simp: concrete)
  moreover from this(2) have "length (filter (\<lambda>x. UserName x = ''cyd'') (users (fd_tables (cs_db s)))) = 2"
    by (metis length_map length_Cons list.size(3) numeral_2_eq_2)
  ultimately show ?thesis by blast
qed

end
