(* ===== verification/Slack_Log.thy ===== *)
theory Slack_Log
  imports Slack_Concurrent "HOL-Library.Sublist"
begin

text \<open>
  The message table under concurrent requests: no message is lost, none appears twice and none out
  of nowhere, whatever the interleaving of the handlers of \<open>slack/main.go\<close> and whichever statements
  fail. What a request has stored is read off its statements and the answers it had.
\<close>

definition inserted :: "mysql_rules \<Rightarrow> slack_stmt \<Rightarrow> answer \<Rightarrow> Message list" where
  "inserted R q a =
     (case q of
        InsMessage s c m t \<Rightarrow>
          (case (a, store_arg R s, store_arg R c) of
             (Inr r, Some s', Some c') \<Rightarrow>
               [\<lparr>MessageID = res_last_id r, SenderID = s', msg_ChannelID = c', Msg = m, CreatedAt = store_time R t\<rparr>]
           | _ \<Rightarrow> [])
      | _ \<Rightarrow> [])"

fun stored_after :: "mysql_rules \<Rightarrow> ws_map \<Rightarrow> request \<Rightarrow> answer list \<Rightarrow> answer list \<Rightarrow> Message list" where
  "stored_after R ws req past [] = []"
| "stored_after R ws req past (a # as) =
     (case next_stmt ws req past of None \<Rightarrow> [] | Some q \<Rightarrow> inserted R q a) @ stored_after R ws req (past @ [a]) as"

definition stored :: "mysql_rules \<Rightarrow> ws_map \<Rightarrow> request \<times> answer list \<Rightarrow> Message list" where
  "stored R ws ra = stored_after R ws (fst ra) [] (snd ra)"

lemma stored_after_append:
  "stored_after R ws req past (as @ bs) = stored_after R ws req past as @ stored_after R ws req (past @ as) bs"
  by (induction as arbitrary: past) simp_all

lemma stored_snoc:
  "next_stmt ws req as = Some q \<Longrightarrow> stored R ws (req, as @ [a]) = stored R ws (req, as) @ inserted R q a"
  by (simp add: stored_def stored_after_append)

lemma inserted_failed [simp]: "inserted R q (Inl e) = []"
  by (simp add: inserted_def split: slack_stmt.splits)

text \<open>Only a successful insert of a message changes the message table, by that message at its end.\<close>

lemma slack_sem_messages:
  "slack_sem R q i T = Some (r, T') \<Longrightarrow> messages T' = messages T @ inserted R q (Inr r)"
  by (cases q) (auto simp: inserted_def split: if_splits option.splits)

context slack_server
begin

lemma run_messages: "run q d = (a, d') \<Longrightarrow> messages (tables d') = messages (tables d) @ inserted R q a"
proof (cases a)
  case (Inl e)
  assume "run q d = (a, d')"
  with run_err [of q d e d'] Inl show ?thesis by simp
next
  case (Inr r)
  assume "run q d = (a, d')"
  with run_ok [of q d r d'] Inr slack_sem_messages show ?thesis by blast
qed

lemma cs_run_messages:
  assumes "(cs_step run ws)\<^sup>*\<^sup>* (cs_init d reqs) s"
  shows "mset (messages (tables (cs_db s))) = mset (messages (tables d)) + holdings (stored R ws) (cs_reqs s) \<and>
    (\<exists>new. messages (tables (cs_db s)) = messages (tables d) @ new)"
  using assms
proof (induction rule: rtranclp_induct)
  case base
  have "holdings (stored R ws) (map (\<lambda>req. (req, [])) reqs) = {#}"
    by (induction reqs) (simp_all add: stored_def)
  then show ?case by (simp add: cs_init_def)
next
  case (step s t)
  from step.hyps(2) show ?case
  proof cases
    case (cs_stmt i req as q a d')
    have "holdings (stored R ws) ((cs_reqs s)[i := (req, as @ [a])]) =
        holdings (stored R ws) (cs_reqs s) + mset (inserted R q a)"
      using holdings_update [OF cs_stmt(2), of "stored R ws" "(req, as @ [a])"] cs_stmt(3) stored_snoc [OF cs_stmt(4)] by simp
    with step.IH run_messages [OF cs_stmt(5)] cs_stmt(1) show ?thesis by auto
  qed
qed

end

subsection \<open>What an answered \<open>sendMessage\<close> has stored\<close>

text \<open>
  Tables only grow: memberships, channels and messages are appended, and so are users (of known users only the timestamp changes).
\<close>

definition tables_grown :: "slack_tables \<Rightarrow> slack_tables \<Rightarrow> bool" where
  "tables_grown T T' \<longleftrightarrow>
     prefix (memberships T) (memberships T') \<and> prefix (channels T) (channels T') \<and> prefix (messages T) (messages T') \<and>
     prefix (map (\<lambda>u. (uId u, UserName u)) (users T)) (map (\<lambda>u. (uId u, UserName u)) (users T'))"

lemma tables_grown_refl [simp]: "tables_grown T T"
  by (simp add: tables_grown_def)

lemma tables_grown_trans: "tables_grown T1 T2 \<Longrightarrow> tables_grown T2 T3 \<Longrightarrow> tables_grown T1 T3"
  by (auto simp: tables_grown_def intro: prefix_order.trans)

lemma upsert_user_grows:
  "prefix (map (\<lambda>u. (uId u, UserName u)) us) (map (\<lambda>u. (uId u, UserName u)) (upsert_user k n t t' us))"
  by (induction us) auto

lemma slack_sem_grows: "slack_sem R q i T = Some (r, T') \<Longrightarrow> tables_grown T T'"
  by (cases q) (auto simp: tables_grown_def upsert_user_grows split: if_splits option.splits)

text \<open>
  Every answer of a request was given to its statement at that point, by the meaning of that
  statement on tables between \<open>T0\<close> and \<open>T1\<close>.
\<close>

definition answers_ok ::
    "mysql_rules \<Rightarrow> ws_map \<Rightarrow> slack_tables \<Rightarrow> slack_tables \<Rightarrow> request \<times> answer list \<Rightarrow> bool" where
  "answers_ok R ws T0 T1 ra \<longleftrightarrow>
     (\<forall>k < length (snd ra). \<exists>q. next_stmt ws (fst ra) (take k (snd ra)) = Some q \<and>
        (\<forall>r. snd ra ! k = Inr r \<longrightarrow> (\<exists>i T T'. slack_sem R q i T = Some (r, T') \<and> tables_grown T0 T \<and> tables_grown T' T1)))"

lemma answers_ok_snoc:
  assumes "answers_ok R ws T0 T1 (req, as)" and "next_stmt ws req as = Some q"
    and "\<And>r. a = Inr r \<Longrightarrow> \<exists>i T T'. slack_sem R q i T = Some (r, T') \<and> tables_grown T0 T \<and> tables_grown T' T1"
  shows "answers_ok R ws T0 T1 (req, as @ [a])"
  using assms by (auto simp: answers_ok_def nth_append less_Suc_eq)

lemma answers_ok_later: "answers_ok R ws T0 T1 ra \<Longrightarrow> tables_grown T1 T2 \<Longrightarrow> answers_ok R ws T0 T2 ra"
  unfolding answers_ok_def by (meson tables_grown_trans)

lemma answer_left:
  assumes "answers_ok R ws T0 T1 (req, as)" and "k < length as" and "as ! k = Inr r" and "next_stmt ws req (take k as) = Some q"
  shows "\<exists>i T T'. slack_sem R q i T = Some (r, T') \<and> tables_grown T0 T \<and> tables_grown T T1 \<and> tables_grown T' T1"
proof -
  obtain i T T' where "slack_sem R q i T = Some (r, T')" "tables_grown T0 T" "tables_grown T' T1"
    using assms unfolding answers_ok_def by fastforce
  with slack_sem_grows tables_grown_trans show ?thesis by blast
qed

lemma answer_given:
  assumes "answers_ok R ws T0 T1 (req, as)" and "k < length as" and "as ! k = Inr r" and "next_stmt ws req (take k as) = Some q"
  shows "\<exists>i T T'. slack_sem R q i T = Some (r, T') \<and> tables_grown T0 T \<and> tables_grown T T1"
  using answer_left [OF assms] by blast

context slack_server
begin

lemma run_grows: "run q d = (a, d') \<Longrightarrow> tables_grown (tables d) (tables d')"
  using run_ok [of q d _ d'] run_err [of q d _ d'] slack_sem_grows by (cases a) fastforce+

lemma cs_run_answers:
  "(cs_step run ws)\<^sup>*\<^sup>* (cs_init d reqs) s \<Longrightarrow>
    list_all (answers_ok R ws (tables d) (tables (cs_db s))) (cs_reqs s) \<and> tables_grown (tables d) (tables (cs_db s))"
proof (induction rule: rtranclp_induct)
  case base
  show ?case by (simp add: cs_init_def list_all_iff answers_ok_def)
next
  case (step s t)
  from step.hyps(2) show ?case
  proof cases
    case (cs_stmt i req as q a d')
    note grows = run_grows [OF cs_stmt(5)]
    have old: "answers_ok R ws (tables d) (tables (cs_db s)) (req, as)" using step.IH cs_stmt(2,3) by (metis list_all_length)
    have "answers_ok R ws (tables d) (tables d') (req, as @ [a])"
      using answers_ok_later [OF old grows] cs_stmt(4)
    proof (rule answers_ok_snoc)
      fix r
      assume "a = Inr r"
      with run_ok cs_stmt(5) obtain j where "slack_sem R q j (tables (cs_db s)) = Some (r, tables d')" by blast
      with step.IH grows show "\<exists>i T T'. slack_sem R q i T = Some (r, T') \<and> tables_grown (tables d) T \<and> tables_grown T' (tables d')" using tables_grown_refl by blast
    qed
    moreover have "list_all (answers_ok R ws (tables d) (tables d')) (cs_reqs s)"
      using step.IH answers_ok_later [OF _ grows] by (auto simp: list_all_iff)
    ultimately show ?thesis using step.IH cs_stmt(1) tables_grown_trans [OF _ grows] by (simp add: list_all_update)
  qed
qed

end

lemma sendMessage_next:
  "decode_request body = Some msg \<Longrightarrow>
    next_stmt ws (ReqSendMessage up t s c body) [] = Some (InsMessage (VStr s) (VStr c) msg t)"
  "decode_request body = Some msg \<Longrightarrow>
    next_stmt ws (ReqSendMessage up t s c body) [Inr r] = Some (SelMembers c)"
  by (simp_all add: next_stmt_def slack_handle_def sendMessage_def db_try_def)

lemma replay_success:
  "replay_run q e = (Inr r, e') \<longleftrightarrow> (\<exists>bs. e = (Inr r # bs, None) \<and> e' = (bs, None))"
  by (cases "(q, e)" rule: replay_run.cases) auto

lemma sendMessage_done:
  assumes "outcome_of ws (ReqSendMessage up t s c body) as = Http w" and "rw_status w = Some 200"
  shows "\<exists>msg r1 r2 r3 rest. decode_request body = Some msg \<and> as = Inr r1 # Inr r2 # Inr r3 # rest"
  using assms
  by (auto simp: outcome_of_def slack_handle_def sendMessage_def db_try_def Let_def fail_text_def
      split: option.splits sum.splits prod.splits simp: replay_success)

lemma sendMessage_last:
  "decode_request body = Some msg \<Longrightarrow>
    snd (snd (slack_handle replay_run ws (ReqSendMessage up t s c body) (Inr r1 # Inr r2 # Inr r3 # rest, None))) = None"
  "decode_request body = Some msg \<Longrightarrow> next_stmt ws (ReqSendMessage up t s c body) [Inr r1, Inr r2] \<noteq> Some (InsMessage a b m u)"
  by (auto simp: next_stmt_def slack_handle_def sendMessage_def db_try_def Let_def split: option.splits)

lemma sendMessage_stored:
  assumes "answers_ok R ws T0 T1 (ReqSendMessage up t s c body, as)"
    and "outcome_of ws (ReqSendMessage up t s c body) as = Http w" and "rw_status w = Some 200"
  shows "\<exists>m. stored R ws (ReqSendMessage up t s c body, as) = [m] \<and> decode_request body = Some (Msg m) \<and>
    store_int R s = Some (SenderID m) \<and> store_int R c = Some (msg_ChannelID m) \<and> CreatedAt m = store_time R t"
proof -
  let ?req = "ReqSendMessage up t s c body"
  obtain msg r1 r2 r3 rest where msg: "decode_request body = Some msg" and as: "as = Inr r1 # Inr r2 # Inr r3 # rest"
    using sendMessage_done [OF assms(2,3)] by blast
  have end3: "next_stmt ws ?req [Inr r1, Inr r2, Inr r3] = None"
    using sendMessage_last(1) [OF msg, of ws up t s c r1 r2 r3 "[]"] by (simp add: next_stmt_def)
  have "rest = []"
  proof (rule ccontr)
    assume "rest \<noteq> []"
    then have "\<exists>q. next_stmt ws ?req [Inr r1, Inr r2, Inr r3] = Some q"
      using assms(1) [unfolded answers_ok_def, rule_format, of 3] by (auto simp: as)
    with end3 show False by simp
  qed
  obtain i T T' where "slack_sem R (InsMessage (VStr s) (VStr c) msg t) i T = Some (r1, T')"
    using assms(1) [unfolded answers_ok_def, rule_format, of 0] sendMessage_next(1) [OF msg] by (auto simp: as)
  then obtain s' c' where "store_int R s = Some s'" "store_int R c = Some c'" by (auto split: option.splits)
  moreover have "inserted R q (Inr r3) = []" if "next_stmt ws ?req [Inr r1, Inr r2] = Some q" for q
    using sendMessage_last(2) [OF msg] that by (cases q) (auto simp: inserted_def)
  ultimately show ?thesis
    using msg sendMessage_next [OF msg]
    by (auto simp: stored_def as \<open>rest = []\<close> inserted_def [of _ "InsMessage a b m u" for a b m u] inserted_def [of _ "SelMembers x" for x]
        split: option.splits)
qed

context slack_server
begin

lemma stored_in_table:
  assumes "(cs_step run ws)\<^sup>*\<^sup>* (cs_init d reqs) s" and "i < length (cs_reqs s)"
  shows "set (stored R ws (cs_reqs s ! i)) \<subseteq> set (messages (tables (cs_db s)))"
proof -
  have "set (stored R ws (cs_reqs s ! i)) \<subseteq> set_mset (holdings (stored R ws) (cs_reqs s))"
    using nth_mem [OF assms(2)] by (auto simp: holdings_def)
  also have "\<dots> \<subseteq> set_mset (mset (messages (tables (cs_db s))))"
    using cs_run_messages [OF assms(1)] by simp
  finally show ?thesis by simp
qed

lemma answered_message:
  assumes "(cs_step run ws)\<^sup>*\<^sup>* (cs_init d reqs) s" and "i < length (cs_reqs s)"
    and "cs_reqs s ! i = (ReqSendMessage up t sid cid body, as)"
    and "outcome_of ws (ReqSendMessage up t sid cid body) as = Http w" and "rw_status w = Some 200"
  shows "\<exists>m. stored R ws (cs_reqs s ! i) = [m] \<and> m \<in> set (messages (tables (cs_db s))) \<and> decode_request body = Some (Msg m) \<and>
    store_int R sid = Some (SenderID m) \<and> store_int R cid = Some (msg_ChannelID m)"
proof -
  have "answers_ok R ws (tables d) (tables (cs_db s)) (cs_reqs s ! i)"
    using cs_run_answers [OF assms(1)] assms(2) by (simp add: list_all_length)
  from sendMessage_stored [OF this [unfolded assms(3)] assms(4,5)] stored_in_table [OF assms(1,2)] assms(3)
  show ?thesis by auto
qed

end

subsection \<open>Properties\<close>

text \<open>
  C11. No message is lost, duplicated or invented, however many requests of any kind are served at
  once: the message table is the old one followed by new messages, and the new ones are, counted with
  multiplicity, exactly those that the requests have stored. A \<open>sendMessage\<close> that was answered with
  200 has stored exactly one message, with the text it was sent, for its sender and channel.
\<close>

theorem slack_no_lost_message:
  assumes "slack_server run tables R" and "(cs_step run ws)\<^sup>*\<^sup>* (cs_init d reqs) s"
  shows "(\<exists>new. messages (tables (cs_db s)) = messages (tables d) @ new \<and> mset new = holdings (stored R ws) (cs_reqs s)) \<and>
    (\<forall>i up t sid cid body as w. i < length (cs_reqs s) \<and> cs_reqs s ! i = (ReqSendMessage up t sid cid body, as) \<and>
       outcome_of ws (ReqSendMessage up t sid cid body) as = Http w \<and> rw_status w = Some 200 \<longrightarrow>
       (\<exists>m. stored R ws (cs_reqs s ! i) = [m] \<and> m \<in> set (messages (tables (cs_db s))) \<and> decode_request body = Some (Msg m) \<and>
          store_int R sid = Some (SenderID m) \<and> store_int R cid = Some (msg_ChannelID m)))"
  using slack_server.cs_run_messages [OF assms] slack_server.answered_message [OF assms] by auto

theorem slack_no_lost_message_witness:
  "\<exists>u new. (cs_step plain_run Map.empty)\<^sup>*\<^sup>*
      (cs_init (fresh_db one_channel) [ReqSendMessage True 0 ''1'' ''5'' (Some (JObj [(''msg'', JStr ''hi'')])), ReqStatus True 0]) u \<and>
    cs_done Map.empty u \<and> messages (fd_tables (cs_db u)) = messages one_channel @ new \<and>
    mset new = holdings (stored plain_rules Map.empty) (cs_reqs u)"
proof -
  let ?reqs = "[ReqSendMessage True 0 ''1'' ''5'' (Some (JObj [(''msg'', JStr ''hi'')])), ReqStatus True 0]"
  obtain u where u: "(cs_step plain_run Map.empty)\<^sup>*\<^sup>* (cs_init (fresh_db one_channel) ?reqs) u" "cs_done Map.empty u"
    using cs.reaches_final [OF refl rtranclp.rtrancl_refl, of plain_run Map.empty] by blast
  from slack_no_lost_message [OF sl_faulty.slack_server_axioms u(1)] u show ?thesis by (auto simp: fresh_db_def)
qed

end
