(* ===== verification/Slack_Races.thy ===== *)
theory Slack_Races
  imports Slack_Log
begin

text \<open>
  What the chat server of \<open>slack/main.go\<close> does not protect: \<open>createChannel\<close> looks for a channel and
  opens one in separate statements, and \<open>wsMap\<close> is read and written by goroutines without a lock.
\<close>

subsection \<open>Two requests side by side\<close>

text \<open>The statements of one request, from the answers it has.\<close>

inductive advance :: "'db slack_run \<Rightarrow> ws_map \<Rightarrow> request \<Rightarrow> answer list \<Rightarrow> 'db \<Rightarrow> answer list \<Rightarrow> 'db \<Rightarrow> bool"
    for run ws req as d where
  advance_none: "advance run ws req as d as d"
| advance_stmt: "advance run ws req as d bs d1 \<Longrightarrow> next_stmt ws req bs = Some q \<Longrightarrow> run q d1 = (a, d2) \<Longrightarrow>
    advance run ws req as d (bs @ [a]) d2"

lemma advance_left:
  "advance run ws req as d as' d' \<Longrightarrow>
    (cs_step run ws)\<^sup>*\<^sup>* \<lparr>cs_db = d, cs_reqs = [(req, as), other]\<rparr> \<lparr>cs_db = d', cs_reqs = [(req, as'), other]\<rparr>"
proof (induction rule: advance.induct)
  case (advance_stmt bs d1 q a d2)
  from advance_stmt.IH two_request_step(1) [of ws req bs q run d1 a d2 other, OF advance_stmt.hyps(2,3)]
  show ?case by (rule run_then_step)
qed simp

lemma advance_right:
  "advance run ws req as d as' d' \<Longrightarrow>
    (cs_step run ws)\<^sup>*\<^sup>* \<lparr>cs_db = d, cs_reqs = [other, (req, as)]\<rparr> \<lparr>cs_db = d', cs_reqs = [other, (req, as')]\<rparr>"
proof (induction rule: advance.induct)
  case (advance_stmt bs d1 q a d2)
  from advance_stmt.IH two_request_step(2) [of ws req bs q run d1 a d2 other, OF advance_stmt.hyps(2,3)]
  show ?case by (rule run_then_step)
qed simp

subsection \<open>Two channels for one pair\<close>

text \<open>The answers of a request that found both users and no channel, and those of one that opened it.\<close>

definition lookups :: "int \<Rightarrow> int \<Rightarrow> answer list" where
  "lookups a b = [Inr (rows_result [[VInt a]]), Inr (rows_result [[VInt b]]), Inr (rows_result [])]"

definition openings :: "int \<Rightarrow> answer list" where
  "openings c = [Inr (exec_result c), Inr (exec_result (c + 1)), Inr (exec_result (c + 2)), Inr (exec_result (c + 3))]"

lemmas handler_unfolds = next_stmt_def outcome_of_def slack_handle_def createChannel_def with_user_id_def open_channel_def
  db_try_def Let_def lookups_def openings_def

lemma createChannel_lookup_stmts:
  "next_stmt ws (ReqCreateChannel up t s r) [] = Some (SelUserId s)"
  "next_stmt ws (ReqCreateChannel up t s r) [Inr (rows_result [[VInt a]])] = Some (SelUserId r)"
  "next_stmt ws (ReqCreateChannel up t s r) [Inr (rows_result [[VInt a]]), Inr (rows_result [[VInt b]])] = Some (SelChannels a b)"
  by (simp_all add: handler_unfolds)

lemma createChannel_open_stmts:
  "next_stmt ws (ReqCreateChannel up t s r) (lookups a b) = Some (InsChannel ''DM'' (s @ ''_'' @ r))"
  "next_stmt ws (ReqCreateChannel up t s r) (lookups a b @ [Inr (exec_result c)]) =
     Some (InsMessage (VInt a) (VInt c) (created_text r) t)"
  "next_stmt ws (ReqCreateChannel up t s r) (lookups a b @ [Inr (exec_result c), Inr (exec_result m)]) = Some (InsMembership c a)"
  "next_stmt ws (ReqCreateChannel up t s r) (lookups a b @ [Inr (exec_result c), Inr (exec_result m), Inr (exec_result x)]) =
     Some (InsMembership c b)"
  "next_stmt ws (ReqCreateChannel up t s r) (lookups a b @ openings c) = None"
  "\<exists>w. outcome_of ws (ReqCreateChannel up t s r) (lookups a b @ openings c) = Http w \<and> rw_status w = Some 200"
  by (simp_all add: handler_unfolds new_channel_def)

text \<open>A faultless database with the given tables whose next automatic id is \<open>i\<close>.\<close>

abbreviation calm :: "slack_tables \<Rightarrow> int \<Rightarrow> slack_tables faulty_db" where
  "calm T i \<equiv> \<lparr>fd_tables = T, fd_faults = [], fd_next = i\<rparr>"

definition ids_below :: "slack_tables \<Rightarrow> int \<Rightarrow> bool" where
  "ids_below T i \<longleftrightarrow>
     (\<forall>c \<in> set (channels T). ChannelID c < i) \<and> (\<forall>m \<in> set (memberships T). MembershipID m < i) \<and>
     (\<forall>m \<in> set (messages T). MessageID m < i)"

lemma advance_calm:
  "advance plain_run ws req as d bs d1 \<Longrightarrow> next_stmt ws req bs = Some q \<Longrightarrow> plain_run q d1 = (a, d2) \<Longrightarrow> bs' = bs @ [a] \<Longrightarrow>
    advance plain_run ws req as d bs' d2"
  using advance.advance_stmt [of plain_run ws req as d bs d1 q a d2] by simp

lemma lookup_run:
  assumes "map uId (filter (\<lambda>u. s = UserName u) (users T)) = [a]" and "map uId (filter (\<lambda>u. r = UserName u) (users T)) = [b]"
    and "shared_channels a b T = []"
  shows "advance plain_run ws (ReqCreateChannel up t s r) [] (calm T i) (lookups a b) (calm T (i + 3))"
proof -
  let ?req = "ReqCreateChannel up t s r"
  have sel: "plain_run (SelUserId n) (calm T k) = (Inr (rows_result [[VInt x]]), calm T (k + 1))"
    if "map uId (filter (\<lambda>u. n = UserName u) (users T)) = [x]" for n x k
    using that by (auto simp: faulty_run_def)
  have none: "plain_run (SelChannels a b) (calm T (i + 2)) = (Inr (rows_result []), calm T (i + 3))"
    using assms(3) by (simp add: faulty_run_def)
  have "advance plain_run ws ?req [] (calm T i) [Inr (rows_result [[VInt a]])] (calm T (i + 1))"
    by (rule advance_calm [OF advance_none createChannel_lookup_stmts(1) sel [OF assms(1)]]) simp
  then have "advance plain_run ws ?req [] (calm T i) [Inr (rows_result [[VInt a]]), Inr (rows_result [[VInt b]])] (calm T (i + 1 + 1))"
    by (rule advance_calm [OF _ createChannel_lookup_stmts(2) sel [OF assms(2)]]) simp
  then have "advance plain_run ws ?req [] (calm T i) [Inr (rows_result [[VInt a]]), Inr (rows_result [[VInt b]])] (calm T (i + 2))"
    by (simp only: add.assoc one_add_one)
  then show ?thesis
    by (rule advance_calm [OF _ createChannel_lookup_stmts(3) none]) (simp add: lookups_def)
qed

lemma opening_stmts:
  fixes T s r a b i t
  defines "Tn \<equiv> \<lambda>n. opened n (store_time plain_rules t) s r a b (i, i + 1, i + 2, i + 3) T"
  assumes "ids_below T i" and "0 < i" and "i + 3 < 2 ^ 31" and "a \<in> set (map uId (users T))" and "b \<in> set (map uId (users T))"
    and "- (2 ^ 31) \<le> a \<and> a < 2 ^ 31" and "length s + length r < 25"
  shows "plain_run (InsChannel ''DM'' (s @ ''_'' @ r)) (calm T i) = (Inr (exec_result i), calm (Tn 1) (i + 1))"
    and "plain_run (InsMessage (VInt a) (VInt i) (created_text r) t) (calm (Tn 1) (i + 1)) = (Inr (exec_result (i + 1)), calm (Tn 2) (i + 2))"
    and "plain_run (InsMembership i a) (calm (Tn 2) (i + 2)) = (Inr (exec_result (i + 2)), calm (Tn 3) (i + 3))"
    and "plain_run (InsMembership i b) (calm (Tn 3) (i + 3)) = (Inr (exec_result (i + 3)), calm (Tn 4) (i + 4))"
  using assms(2-) by (auto simp: Tn_def faulty_run_def opened_def fresh_id_def ids_below_def Let_def created_text_def)

lemma open_run:
  assumes "ids_below T i" and "0 < i" and "i + 3 < 2 ^ 31" and "a \<in> set (map uId (users T))" and "b \<in> set (map uId (users T))"
    and "- (2 ^ 31) \<le> a \<and> a < 2 ^ 31" and "length s + length r < 25"
  shows "advance plain_run ws (ReqCreateChannel up t s r) (lookups a b) (calm T i) (lookups a b @ openings i)
    (calm (opened 4 (store_time plain_rules t) s r a b (i, i + 1, i + 2, i + 3) T) (i + 4))"
proof -
  note st = opening_stmts [OF assms, of t]
  note nx = createChannel_open_stmts [of ws up t s r a b]
  note 1 = advance_calm [OF advance_none nx(1) st(1) refl]
  note 2 = advance_calm [OF 1 nx(2) st(2) append_assoc [symmetric], unfolded append_Cons append_Nil]
  note 3 = advance_calm [OF 2 nx(3) st(3) append_assoc [symmetric], unfolded append_Cons append_Nil]
  note 4 = advance_calm [OF 3 nx(4) st(4) append_assoc [symmetric], unfolded append_Cons append_Nil]
  from 4 show ?thesis by (simp add: openings_def)
qed

lemma ids_below_opened:
  "ids_below T i \<Longrightarrow> i \<le> c \<Longrightarrow> ids_below (opened 4 t s r a b (c, c + 1, c + 2, c + 3) T) (c + 4)"
  by (fastforce simp: ids_below_def opened_def)

lemma opened_users: "users (opened n t s r a b ids T) = users T"
  by (cases ids) (simp add: opened_def)

lemma filtered_id: "map uId (filter P us) = [a] \<Longrightarrow> a \<in> set (map uId us)"
proof -
  assume "map uId (filter P us) = [a]"
  then have "a \<in> set (map uId (filter P us))" by simp
  then show ?thesis by auto
qed

lemma shared_channels_sym: "set (shared_channels a b T) = set (shared_channels b a T)"
  by (auto simp: shared_channels_set)

text \<open>
  C27. Two users who open a channel with each other at the same time get two: on a database without
  any fault, for two users that share no channel, the requests of both can be answered with 200 and leave
  two different channels of which both users are members, so that what is written in one is not seen
  in the other.
\<close>

theorem createChannel_race:
  assumes "map uId (filter (\<lambda>u. s = UserName u) (users T)) = [a]" and "map uId (filter (\<lambda>u. r = UserName u) (users T)) = [b]"
    and "shared_channels a b T = []" and "ids_below T i" and "0 < i" and "i + 13 < 2 ^ 31"
    and "0 < a \<and> a < 2 ^ 31" and "0 < b \<and> b < 2 ^ 31" and "length s + length r < 25"
  shows "\<exists>u as bs c d.
    (cs_step plain_run ws)\<^sup>*\<^sup>* (cs_init (calm T i) [ReqCreateChannel True t s r, ReqCreateChannel True t' r s]) u \<and>
    cs_done ws u \<and> cs_reqs u = [(ReqCreateChannel True t s r, as), (ReqCreateChannel True t' r s, bs)] \<and>
    (\<exists>w. outcome_of ws (ReqCreateChannel True t s r) as = Http w \<and> rw_status w = Some 200) \<and>
    (\<exists>w. outcome_of ws (ReqCreateChannel True t' r s) bs = Http w \<and> rw_status w = Some 200) \<and>
    c \<in> set (shared_channels a b (fd_tables (cs_db u))) \<and> d \<in> set (shared_channels a b (fd_tables (cs_db u))) \<and>
    ChannelID c \<noteq> ChannelID d"
proof -
  let ?A = "ReqCreateChannel True t s r" and ?B = "ReqCreateChannel True t' r s"
  let ?T1 = "opened 4 (store_time plain_rules t) s r a b (i + 6, i + 6 + 1, i + 6 + 2, i + 6 + 3) T"
  let ?T2 = "opened 4 (store_time plain_rules t') r s b a (i + 10, i + 10 + 1, i + 10 + 2, i + 10 + 3) ?T1"
  let ?as = "lookups a b @ openings (i + 6)" and ?bs = "lookups b a @ openings (i + 10)"
  let ?u = "\<lparr>cs_db = calm ?T2 (i + 10 + 4), cs_reqs = [(?A, ?as), (?B, ?bs)]\<rparr>"
  have "set (shared_channels b a T) = {}" using shared_channels_sym [of b a T] assms(3) by simp
  then have none: "shared_channels b a T = []" by simp
  have ids: "a \<in> set (map uId (users T))" "b \<in> set (map uId (users T))"
    by (rule filtered_id [OF assms(1)], rule filtered_id [OF assms(2)])
  have below: "ids_below T (i + 6)" "ids_below ?T1 (i + 10)"
    using assms(4) ids_below_opened [OF assms(4), of "i + 6" "store_time plain_rules t" s r a b]
    by (auto simp: ids_below_def add.assoc intro: less_trans)
  have "(cs_step plain_run ws)\<^sup>*\<^sup>* (cs_init (calm T i) [?A, ?B]) \<lparr>cs_db = calm T (i + 3), cs_reqs = [(?A, lookups a b), (?B, [])]\<rparr>"
    using advance_left [OF lookup_run [OF assms(1-3)]] by (simp add: cs_init_def)
  moreover have "(cs_step plain_run ws)\<^sup>*\<^sup>* \<lparr>cs_db = calm T (i + 3), cs_reqs = [(?A, lookups a b), (?B, [])]\<rparr>
      \<lparr>cs_db = calm T (i + 3 + 3), cs_reqs = [(?A, lookups a b), (?B, lookups b a)]\<rparr>"
    by (rule advance_right [OF lookup_run [OF assms(2,1) none]])
  moreover have "(cs_step plain_run ws)\<^sup>*\<^sup>* \<lparr>cs_db = calm T (i + 6), cs_reqs = [(?A, lookups a b), (?B, lookups b a)]\<rparr>
      \<lparr>cs_db = calm ?T1 (i + 6 + 4), cs_reqs = [(?A, ?as), (?B, lookups b a)]\<rparr>"
    by (rule advance_left [OF open_run [OF below(1)]]) (use assms(5-9) ids in auto)
  moreover have "(cs_step plain_run ws)\<^sup>*\<^sup>* \<lparr>cs_db = calm ?T1 (i + 10), cs_reqs = [(?A, ?as), (?B, lookups b a)]\<rparr> ?u"
    by (rule advance_right [OF open_run [OF below(2)]]) (use assms(5-9) ids in \<open>auto simp: opened_users\<close>)
  ultimately have run: "(cs_step plain_run ws)\<^sup>*\<^sup>* (cs_init (calm T i) [?A, ?B]) ?u" by (simp add: add.assoc)
  let ?c = "\<lparr>ChannelID = i + 6, ChannelType = ''DM'', ChannelName = s @ ''_'' @ r\<rparr>"
  let ?d = "\<lparr>ChannelID = i + 10, ChannelType = ''DM'', ChannelName = r @ ''_'' @ s\<rparr>"
  show ?thesis
  proof (rule exI [of _ ?u], rule exI [of _ ?as], rule exI [of _ ?bs], rule exI [of _ ?c], rule exI [of _ ?d], intro conjI)
    show "cs_done ws ?u" by (simp add: cs_done_def createChannel_open_stmts)
    show "?c \<in> set (shared_channels a b (fd_tables (cs_db ?u)))" "?d \<in> set (shared_channels a b (fd_tables (cs_db ?u)))"
      by (auto simp: shared_channels_set opened_def)
  qed (use run createChannel_open_stmts(6) in simp_all)
qed

theorem createChannel_race_witness:
  "\<exists>u c d. (cs_step plain_run Map.empty)\<^sup>*\<^sup>*
      (cs_init (calm two_users 3) [ReqCreateChannel True 0 ''ann'' ''bob'', ReqCreateChannel True 0 ''bob'' ''ann'']) u \<and>
    c \<in> set (shared_channels 1 2 (fd_tables (cs_db u))) \<and> d \<in> set (shared_channels 1 2 (fd_tables (cs_db u))) \<and> ChannelID c \<noteq> ChannelID d"
  using createChannel_race [of "''ann''" two_users 1 "''bob''" 2 3 Map.empty 0 0]
  by (fastforce simp: two_users_def ann_def bob_def no_tables_def shared_channels_def ids_below_def)

end
