(* ===== verification/Go_Map.thy ===== *)
theory Go_Map
  imports Go_Runs
begin

text \<open>
  A map that goroutines share without a lock. A goroutine is the list of its accesses of the map. An
  assignment takes time and a lookup is one step; as the Go runtime does, a goroutine that comes to an
  access while another one is assigning ends the process with a fatal error. The theory gives
  exactly when that can happen, what the lookups find, and that a key which no other
  goroutine assigns is read as if its goroutine ran alone.
\<close>

datatype ('k, 'v) map_op = Store 'k 'v | Load 'k

record ('k, 'v) map_sys =
  mp_map :: "'k \<rightharpoonup> 'v"
  mp_writer :: "nat option"
  mp_todo :: "('k, 'v) map_op list list"
  mp_log :: "(nat \<times> 'k \<times> 'v option) list"
  mp_fatal :: bool

inductive map_step :: "('k, 'v) map_sys \<Rightarrow> ('k, 'v) map_sys \<Rightarrow> bool" where
  store_begins: "\<not> mp_fatal s \<Longrightarrow> i < length (mp_todo s) \<Longrightarrow> mp_todo s ! i = Store k v # ops \<Longrightarrow> mp_writer s = None \<Longrightarrow>
    map_step s (s\<lparr>mp_writer := Some i\<rparr>)"
| store_ends: "\<not> mp_fatal s \<Longrightarrow> i < length (mp_todo s) \<Longrightarrow> mp_todo s ! i = Store k v # ops \<Longrightarrow> mp_writer s = Some i \<Longrightarrow>
    map_step s (s\<lparr>mp_map := (mp_map s)(k \<mapsto> v), mp_writer := None, mp_todo := (mp_todo s)[i := ops]\<rparr>)"
| load: "\<not> mp_fatal s \<Longrightarrow> i < length (mp_todo s) \<Longrightarrow> mp_todo s ! i = Load k # ops \<Longrightarrow> mp_writer s = None \<Longrightarrow>
    map_step s (s\<lparr>mp_log := mp_log s @ [(i, k, mp_map s k)], mp_todo := (mp_todo s)[i := ops]\<rparr>)"
| accesses_clash: "\<not> mp_fatal s \<Longrightarrow> i < length (mp_todo s) \<Longrightarrow> mp_todo s ! i = a # ops \<Longrightarrow> mp_writer s = Some j \<Longrightarrow> j \<noteq> i \<Longrightarrow>
    map_step s (s\<lparr>mp_fatal := True\<rparr>)"

definition map_init :: "('k \<rightharpoonup> 'v) \<Rightarrow> ('k, 'v) map_op list list \<Rightarrow> ('k, 'v) map_sys" where
  "map_init m progs = \<lparr>mp_map = m, mp_writer = None, mp_todo = progs, mp_log = [], mp_fatal = False\<rparr>"

definition map_final :: "('k, 'v) map_sys \<Rightarrow> bool" where
  "map_final s \<longleftrightarrow> mp_fatal s \<or> list_all (\<lambda>ops. ops = []) (mp_todo s)"

text \<open>What goroutine \<open>i\<close> has read, in order.\<close>

definition reads_of :: "nat \<Rightarrow> ('k, 'v) map_sys \<Rightarrow> ('k \<times> 'v option) list" where
  "reads_of i s = map snd (filter (\<lambda>e. fst e = i) (mp_log s))"

lemma reads_of_load:
  "reads_of i (s\<lparr>mp_log := mp_log s @ [(j, e)]\<rparr>) = reads_of i s @ (if j = i then [e] else [])"
  by (simp add: reads_of_def)

lemma reads_of_other [simp]:
  "reads_of i (s\<lparr>mp_map := m\<rparr>) = reads_of i s"
  "reads_of i (s\<lparr>mp_writer := w\<rparr>) = reads_of i s"
  "reads_of i (s\<lparr>mp_todo := p\<rparr>) = reads_of i s"
  "reads_of i (s\<lparr>mp_fatal := f\<rparr>) = reads_of i s"
  "reads_of i (map_init m progs) = []"
  by (simp_all add: reads_of_def map_init_def)

subsection \<open>One goroutine alone\<close>

fun apply_op :: "('k, 'v) map_op \<Rightarrow> ('k \<rightharpoonup> 'v) \<Rightarrow> ('k \<rightharpoonup> 'v)" where
  "apply_op (Store k v) m = m(k \<mapsto> v)"
| "apply_op (Load k) m = m"

fun reads_alone :: "('k \<rightharpoonup> 'v) \<Rightarrow> ('k, 'v) map_op list \<Rightarrow> ('k \<times> 'v option) list" where
  "reads_alone m [] = []"
| "reads_alone m (Store k v # ops) = reads_alone (m(k \<mapsto> v)) ops"
| "reads_alone m (Load k # ops) = (k, m k) # reads_alone m ops"

fun loads :: "('k, 'v) map_op list \<Rightarrow> 'k list" where
  "loads [] = []"
| "loads (Store k v # ops) = loads ops"
| "loads (Load k # ops) = k # loads ops"

lemma loads_append [simp]: "loads (xs @ ys) = loads xs @ loads ys"
  by (induction xs rule: loads.induct) simp_all

lemma reads_alone_append:
  "reads_alone m (xs @ ys) = reads_alone m xs @ reads_alone (fold apply_op xs m) ys"
  by (induction m xs rule: reads_alone.induct) (simp_all del: fun_upd_apply)

lemma reads_alone_loads: "map fst (reads_alone m ops) = loads ops"
  by (induction m ops rule: reads_alone.induct) (simp_all del: fun_upd_apply)

lemma loads_map_Load [simp]: "loads (map (\<lambda>x. Load (f x)) xs) = map f xs"
  by (induction xs) simp_all

lemma reads_alone_map_Load [simp]: "reads_alone m (map (\<lambda>x. Load (f x)) xs) = map (\<lambda>x. (f x, m (f x))) xs"
  by (induction xs) simp_all

subsection \<open>Reachable states\<close>

text \<open>A value that a lookup of \<open>k\<close> may find, and that no goroutine but \<open>i\<close> assigns \<open>k\<close>.\<close>

definition may_read :: "('k \<rightharpoonup> 'v) \<Rightarrow> ('k, 'v) map_op list list \<Rightarrow> 'k \<Rightarrow> 'v option \<Rightarrow> bool" where
  "may_read m progs k x \<longleftrightarrow>
     (case x of None \<Rightarrow> m k = None | Some v \<Rightarrow> m k = Some v \<or> (\<exists>ops \<in> set progs. Store k v \<in> set ops))"

definition owned :: "('k, 'v) map_op list list \<Rightarrow> nat \<Rightarrow> 'k \<Rightarrow> bool" where
  "owned progs i k \<longleftrightarrow> (\<forall>j < length progs. j \<noteq> i \<longrightarrow> (\<forall>v. Store k v \<notin> set (progs ! j)))"

text \<open>Goroutine \<open>i\<close> has done \<open>gone\<close>.\<close>

definition goroutine_ok ::
    "('k \<rightharpoonup> 'v) \<Rightarrow> ('k, 'v) map_op list list \<Rightarrow> ('k, 'v) map_sys \<Rightarrow> nat \<Rightarrow> ('k, 'v) map_op list \<Rightarrow> bool" where
  "goroutine_ok m progs s i gone \<longleftrightarrow>
     progs ! i = gone @ mp_todo s ! i \<and> map fst (reads_of i s) = loads gone \<and>
     (\<forall>(k, x) \<in> set (reads_of i s). may_read m progs k x) \<and>
     (\<forall>k. owned progs i k \<longrightarrow> mp_map s k = fold apply_op gone m k \<and>
        filter (\<lambda>r. fst r = k) (reads_of i s) = filter (\<lambda>r. fst r = k) (reads_alone m gone))"

definition map_inv :: "('k \<rightharpoonup> 'v) \<Rightarrow> ('k, 'v) map_op list list \<Rightarrow> ('k, 'v) map_sys \<Rightarrow> bool" where
  "map_inv m progs s \<longleftrightarrow>
     length (mp_todo s) = length progs \<and> (\<forall>i < length progs. \<exists>gone. goroutine_ok m progs s i gone) \<and>
     (\<forall>k. may_read m progs k (mp_map s k)) \<and>
     (\<forall>i. mp_writer s = Some i \<longrightarrow> i < length progs \<and> (\<exists>k v ops. mp_todo s ! i = Store k v # ops))"

lemma map_init_inv: "map_inv m progs (map_init m progs)"
proof -
  have "goroutine_ok m progs (map_init m progs) i []" for i
    by (simp add: goroutine_ok_def) (simp add: map_init_def)
  moreover have "may_read m progs k (m k)" for k by (simp add: may_read_def split: option.splits)
  ultimately show ?thesis by (auto simp: map_inv_def map_init_def)
qed

lemma goroutine_ok_frame:
  assumes "goroutine_ok m progs s i gone" and "mp_todo t ! i = mp_todo s ! i" and "reads_of i t = reads_of i s"
    and "\<And>k. owned progs i k \<Longrightarrow> mp_map t k = mp_map s k"
  shows "goroutine_ok m progs t i gone"
  using assms by (simp add: goroutine_ok_def)

lemma todo_in_prog: "goroutine_ok m progs s i gone \<Longrightarrow> set (mp_todo s ! i) \<subseteq> set (progs ! i)"
  by (auto simp: goroutine_ok_def)

lemma map_invI:
  assumes "length (mp_todo t) = length progs" and "\<exists>gone. goroutine_ok m progs t i gone"
    and "\<And>j. j < length progs \<Longrightarrow> j \<noteq> i \<Longrightarrow> \<exists>gone. goroutine_ok m progs t j gone"
    and "\<And>k. may_read m progs k (mp_map t k)" and "mp_writer t = None"
  shows "map_inv m progs t"
  using assms unfolding map_inv_def by (metis option.distinct(1))

lemma map_step_inv:
  assumes "map_inv m progs s" and "map_step s t"
  shows "map_inv m progs t"
proof -
  have len: "length (mp_todo s) = length progs" using assms(1) by (simp add: map_inv_def)
  have at: "\<exists>gone. goroutine_ok m progs s i gone" if "i < length progs" for i using assms(1) that by (simp add: map_inv_def)
  have vals: "may_read m progs k (mp_map s k)" for k using assms(1) by (simp add: map_inv_def)
  from assms(2) show ?thesis
  proof cases
    case (store_begins i k v ops)
    then show ?thesis using assms(1) by (auto simp: map_inv_def goroutine_ok_def)
  next
    case (store_ends i k v ops)
    obtain gone where i: "goroutine_ok m progs s i gone" using at store_ends(3) len by auto
    then have here: "Store k v \<in> set (progs ! i)" using todo_in_prog store_ends(4) by fastforce
    have "goroutine_ok m progs t i (gone @ [Store k v])"
      using i store_ends by (auto simp: goroutine_ok_def reads_alone_append)
    moreover have "\<exists>gone. goroutine_ok m progs t j gone" if j: "j < length progs" "j \<noteq> i" for j
    proof -
      obtain g where g: "goroutine_ok m progs s j g" using at [OF j(1)] by blast
      have "k' \<noteq> k" if "owned progs j k'" for k'
        using that here j(2) store_ends(3) len by (auto simp: owned_def)
      then have "goroutine_ok m progs t j g"
        using j(2) store_ends(1) by (intro goroutine_ok_frame [OF g]) auto
      then show ?thesis by blast
    qed
    moreover have "may_read m progs k' (mp_map t k')" for k'
      using vals [of k'] here store_ends(1,3) len by (auto simp: may_read_def)
    ultimately show ?thesis using store_ends(1) len by (intro map_invI [where i = i]) auto
  next
    case (load i k ops)
    obtain gone where i: "goroutine_ok m progs s i gone" using at load(3) len by auto
    have "goroutine_ok m progs t i (gone @ [Load k])"
      using i load vals [of k] by (auto simp: goroutine_ok_def reads_of_load reads_alone_append)
    moreover have "\<exists>gone. goroutine_ok m progs t j gone" if j: "j < length progs" "j \<noteq> i" for j
    proof -
      obtain g where g: "goroutine_ok m progs s j g" using at [OF j(1)] by blast
      have "goroutine_ok m progs t j g"
        using j(2) load(1) by (intro goroutine_ok_frame [OF g]) (auto simp: reads_of_load)
      then show ?thesis by blast
    qed
    ultimately show ?thesis using load(1,5) len vals by (intro map_invI [where i = i]) auto
  next
    case (accesses_clash i a ops j)
    then show ?thesis using assms(1) by (auto simp: map_inv_def goroutine_ok_def)
  qed
qed

text \<open>Two access per operation are enough: an assignment has two steps.\<close>

definition map_variant :: "('k, 'v) map_sys \<Rightarrow> nat" where
  "map_variant s =
     (if mp_fatal s then 0 else Suc (2 * weight length (mp_todo s)) - (if mp_writer s = None then 0 else 1))"

lemma writer_has_work: "map_inv m progs s \<Longrightarrow> mp_writer s = Some i \<Longrightarrow> 0 < weight length (mp_todo s)"
proof -
  assume "map_inv m progs s" "mp_writer s = Some i"
  then obtain k v ops where "i < length (mp_todo s)" "mp_todo s ! i = Store k v # ops" by (auto simp: map_inv_def)
  with weight_update [of i "mp_todo s" length "[]"] show ?thesis by simp
qed

lemma map_step_variant:
  assumes "map_inv m progs s" and "map_step s t"
  shows "map_variant t < map_variant s"
  using assms(2)
proof cases
  case (store_begins i k v ops)
  with weight_update [of i "mp_todo s" length "[]"] show ?thesis by (simp add: map_variant_def)
next
  case (store_ends i k v ops)
  with weight_update [of i "mp_todo s" length ops] show ?thesis by (simp add: map_variant_def)
next
  case (load i k ops)
  with weight_update [of i "mp_todo s" length ops] show ?thesis by (simp add: map_variant_def)
next
  case (accesses_clash i a ops j)
  with writer_has_work [OF assms(1), of j] show ?thesis by (simp add: map_variant_def)
qed

lemma map_step_progress:
  assumes "map_inv m progs s" and "\<not> map_final s"
  shows "\<exists>t. map_step s t"
proof (cases "mp_writer s")
  case None
  obtain i a ops where i: "i < length (mp_todo s)" "mp_todo s ! i = a # ops" and "\<not> mp_fatal s"
    using assms(2) by (auto simp: map_final_def list_all_length neq_Nil_conv)
  then show ?thesis using None by (cases a) (metis map_step.store_begins, metis map_step.load)
next
  case (Some i)
  then obtain k v ops where "i < length (mp_todo s)" "mp_todo s ! i = Store k v # ops" using assms(1) by (auto simp: map_inv_def)
  with Some assms(2) map_step.store_ends [of s i k v ops] show ?thesis by (auto simp: map_final_def)
qed

interpretation shared_map: live_system "\<lambda>s. s = map_init m progs" map_step "map_inv m progs" map_variant map_final for m progs
  by unfold_locales (auto intro: map_init_inv map_step_inv map_step_variant map_step_progress)

lemma goroutine_reached:
  assumes "map_step\<^sup>*\<^sup>* (map_init m progs) s" and "i < length progs"
  obtains gone where "goroutine_ok m progs s i gone"
  using shared_map.reachable_inv [OF refl assms(1)] assms(2) by (auto simp: map_inv_def)

lemma reads_in_order:
  assumes "map_step\<^sup>*\<^sup>* (map_init m progs) s" and "i < length progs"
  shows "\<exists>gone. progs ! i = gone @ mp_todo s ! i \<and> map fst (reads_of i s) = loads gone"
  using goroutine_reached [OF assms] by (metis goroutine_ok_def)

lemma reads_possible:
  assumes "map_step\<^sup>*\<^sup>* (map_init m progs) s" and "i < length progs" and "(k, x) \<in> set (reads_of i s)"
  shows "may_read m progs k x"
proof -
  obtain gone where "goroutine_ok m progs s i gone" using goroutine_reached [OF assms(1,2)] .
  with assms(3) show ?thesis by (auto simp: goroutine_ok_def)
qed

lemma owned_reads:
  assumes "map_step\<^sup>*\<^sup>* (map_init m progs) s" and "i < length progs" and "owned progs i k"
  shows "\<exists>gone. progs ! i = gone @ mp_todo s ! i \<and>
    filter (\<lambda>r. fst r = k) (reads_of i s) = filter (\<lambda>r. fst r = k) (reads_alone m gone)"
proof -
  obtain gone where "goroutine_ok m progs s i gone" using goroutine_reached [OF assms(1,2)] .
  with assms(3) show ?thesis by (auto simp: goroutine_ok_def)
qed

text \<open>A key that is only ever assigned the value it has is read with that value.\<close>

lemma stable_reads:
  assumes "map_step\<^sup>*\<^sup>* (map_init m progs) s" and "i < length progs" and "m k = Some v"
    and "\<And>ops v'. ops \<in> set progs \<Longrightarrow> Store k v' \<in> set ops \<Longrightarrow> v' = v"
  shows "(k, x) \<in> set (reads_of i s) \<Longrightarrow> x = Some v"
  using reads_possible [OF assms(1,2), of k x] assms(3,4) by (fastforce simp: may_read_def split: option.splits)

subsection \<open>When the process can die\<close>

definition map_clash :: "('k, 'v) map_op list list \<Rightarrow> bool" where
  "map_clash progs \<longleftrightarrow>
     (\<exists>i j k v. i < length progs \<and> j < length progs \<and> i \<noteq> j \<and> Store k v \<in> set (progs ! i) \<and> progs ! j \<noteq> [])"

lemma fatal_clash:
  assumes "map_step\<^sup>*\<^sup>* (map_init m progs) s" and "mp_fatal s"
  shows "map_clash progs"
  using assms
proof (induction rule: rtranclp_induct)
  case base
  then show ?case by (simp add: map_init_def)
next
  case (step s t)
  have inv: "map_inv m progs s" by (rule shared_map.reachable_inv [OF refl step.hyps(1)])
  from step.hyps(2) show ?case
  proof cases
    case (accesses_clash i a ops j)
    then obtain k v ops' where j: "j < length progs" "mp_todo s ! j = Store k v # ops'" using inv by (auto simp: map_inv_def)
    have sub: "set (mp_todo s ! l) \<subseteq> set (progs ! l)" if "l < length progs" for l
      using inv that todo_in_prog unfolding map_inv_def by blast
    have "i < length progs" using accesses_clash(3) inv by (simp add: map_inv_def)
    then have "progs ! i \<noteq> []" using sub [of i] accesses_clash(4) by auto
    moreover have "Store k v \<in> set (progs ! j)" using sub [OF j(1)] j(2) by auto
    ultimately show ?thesis using j(1) \<open>i < length progs\<close> accesses_clash(6) unfolding map_clash_def by blast
  qed (use step in auto)
qed

lemma run_alone:
  assumes "\<not> mp_fatal s" and "i < length (mp_todo s)" and "mp_writer s = None" and "mp_todo s ! i = xs @ ys"
  shows "\<exists>t. map_step\<^sup>*\<^sup>* s t \<and> \<not> mp_fatal t \<and> mp_writer t = None \<and> mp_todo t = (mp_todo s)[i := ys]"
  using assms
proof (induction xs arbitrary: s)
  case Nil
  then show ?case by (intro exI [of _ s]) auto
next
  case (Cons a xs)
  have "\<exists>u. map_step\<^sup>*\<^sup>* s u \<and> \<not> mp_fatal u \<and> mp_writer u = None \<and> mp_todo u = (mp_todo s)[i := xs @ ys]"
  proof (cases a)
    case (Load k)
    with Cons.prems map_step.load [of s i k "xs @ ys"] show ?thesis
      by (intro exI [of _ "s\<lparr>mp_log := mp_log s @ [(i, k, mp_map s k)], mp_todo := (mp_todo s)[i := xs @ ys]\<rparr>"]) auto
  next
    case (Store k v)
    let ?s = "s\<lparr>mp_writer := Some i\<rparr>"
    have "map_step s ?s" using Cons.prems Store map_step.store_begins [of s i k v "xs @ ys"] by simp
    moreover have "map_step ?s (?s\<lparr>mp_map := (mp_map s)(k \<mapsto> v), mp_writer := None, mp_todo := (mp_todo s)[i := xs @ ys]\<rparr>)"
      using Cons.prems Store map_step.store_ends [of ?s i k v "xs @ ys"] by simp
    ultimately have "map_step\<^sup>*\<^sup>* s (?s\<lparr>mp_map := (mp_map s)(k \<mapsto> v), mp_writer := None, mp_todo := (mp_todo s)[i := xs @ ys]\<rparr>)"
      by (meson converse_rtranclp_into_rtranclp r_into_rtranclp)
    with Cons.prems show ?thesis
      by (intro exI [of _ "?s\<lparr>mp_map := (mp_map s)(k \<mapsto> v), mp_writer := None, mp_todo := (mp_todo s)[i := xs @ ys]\<rparr>"]) simp
  qed
  then obtain u where u: "map_step\<^sup>*\<^sup>* s u" "\<not> mp_fatal u" "mp_writer u = None" "mp_todo u = (mp_todo s)[i := xs @ ys]" by blast
  obtain t where "map_step\<^sup>*\<^sup>* u t" "\<not> mp_fatal t" "mp_writer t = None" "mp_todo t = (mp_todo u)[i := ys]"
    using Cons.IH [of u] u Cons.prems(2) by auto
  with u show ?case by (intro exI [of _ t]) auto
qed

lemma clash_fatal:
  assumes "map_clash progs"
  shows "\<exists>s. map_step\<^sup>*\<^sup>* (map_init m progs) s \<and> mp_fatal s"
proof -
  obtain i j k v where ij: "i < length progs" "j < length progs" "i \<noteq> j" "Store k v \<in> set (progs ! i)" "progs ! j \<noteq> []"
    using assms by (auto simp: map_clash_def)
  obtain xs ys where split: "progs ! i = xs @ Store k v # ys" using ij(4) by (meson split_list)
  obtain a ops where aj: "progs ! j = a # ops" using ij(5) by (auto simp: neq_Nil_conv)
  obtain s where s: "map_step\<^sup>*\<^sup>* (map_init m progs) s" "\<not> mp_fatal s" "mp_writer s = None" "mp_todo s = progs[i := Store k v # ys]"
    using run_alone [of "map_init m progs" i xs "Store k v # ys"] ij(1) split by (auto simp: map_init_def)
  let ?t = "s\<lparr>mp_writer := Some i\<rparr>"
  have "map_step s ?t" using s ij(1) by (intro map_step.store_begins [of s i k v ys]) auto
  moreover have "map_step ?t (?t\<lparr>mp_fatal := True\<rparr>)"
    using s ij aj by (intro map_step.accesses_clash [of ?t j a ops i]) auto
  ultimately have "map_step\<^sup>*\<^sup>* (map_init m progs) (?t\<lparr>mp_fatal := True\<rparr>)"
    using s(1) by (meson rtranclp.rtrancl_into_rtrancl)
  moreover have "mp_fatal (?t\<lparr>mp_fatal := True\<rparr>)" by simp
  ultimately show ?thesis by blast
qed

lemma fatal_iff: "(\<exists>s. map_step\<^sup>*\<^sup>* (map_init m progs) s \<and> mp_fatal s) \<longleftrightarrow> map_clash progs"
  using fatal_clash clash_fatal by metis

subsection \<open>A goroutine that starts later\<close>

text \<open>A goroutine that has nothing to do may as well be one that has not begun: its accesses can be added.\<close>

lemma todo_first:
  "s\<lparr>mp_writer := w, mp_todo := p\<rparr> = s\<lparr>mp_todo := p, mp_writer := w\<rparr>"
  "s\<lparr>mp_fatal := f, mp_todo := p\<rparr> = s\<lparr>mp_todo := p, mp_fatal := f\<rparr>"
  by simp_all

lemma map_step_extend:
  assumes "map_step s t" and "mp_todo s ! i = []"
  shows "map_step (s\<lparr>mp_todo := (mp_todo s)[i := ops]\<rparr>) (t\<lparr>mp_todo := (mp_todo t)[i := ops]\<rparr>) \<and> mp_todo t ! i = []"
  using assms(1)
proof cases
  case (store_begins j k v l)
  with assms(2) have "j \<noteq> i" by auto
  with store_begins assms(2) map_step.store_begins [of "s\<lparr>mp_todo := (mp_todo s)[i := ops]\<rparr>" j k v l] show ?thesis
    by (simp add: todo_first)
next
  case (store_ends j k v l)
  with assms(2) have "j \<noteq> i" by auto
  with store_ends assms(2) map_step.store_ends [of "s\<lparr>mp_todo := (mp_todo s)[i := ops]\<rparr>" j k v l] show ?thesis
    by (simp add: list_update_swap)
next
  case (load j k l)
  with assms(2) have "j \<noteq> i" by auto
  with load assms(2) map_step.load [of "s\<lparr>mp_todo := (mp_todo s)[i := ops]\<rparr>" j k l] show ?thesis
    by (simp add: list_update_swap)
next
  case (accesses_clash j a l h)
  with assms(2) have "j \<noteq> i" by auto
  with accesses_clash assms(2) map_step.accesses_clash [of "s\<lparr>mp_todo := (mp_todo s)[i := ops]\<rparr>" j a l h] show ?thesis
    by (simp add: todo_first)
qed

lemma map_run_extend:
  assumes "map_step\<^sup>*\<^sup>* (map_init m progs) s" and "progs ! i = []"
  shows "map_step\<^sup>*\<^sup>* (map_init m (progs[i := ops])) (s\<lparr>mp_todo := (mp_todo s)[i := ops]\<rparr>) \<and> mp_todo s ! i = []"
  using assms(1)
proof (induction rule: rtranclp_induct)
  case base
  show ?case using assms(2) by (simp add: map_init_def)
next
  case (step s t)
  with map_step_extend [of s t i ops] show ?case by (meson rtranclp.rtrancl_into_rtrancl)
qed

end
