(* ===== verification/Slack_Sockets.thy ===== *)
theory Slack_Sockets
  imports Slack_Server Go_Map "HOL-Library.Sublist"
begin

text \<open>
  The connection map \<open>wsMap\<close> of \<open>slack/main.go\<close> as the goroutines share it: heartbeat handlers
  assign to it, calls of \<open>sendMessageOverWebSocket\<close> look connections up, one member after the
  other, and nothing keeps them apart. Each is the list of its accesses in \<open>Go_Map\<close>.
\<close>

subsection \<open>The goroutines\<close>

datatype ws_access =
    Announce int conn
  | Deliver "Membership list" string string

text \<open>\<open>wsMap[int64(userId)] = &conn\<close> of the heartbeat; the lookups of the loop over the members.\<close>

fun ws_ops :: "ws_access \<Rightarrow> (int, conn) map_op list" where
  "ws_ops (Announce u c) = [Store u c]"
| "ws_ops (Deliver members msg userName) = map (\<lambda>member. Load (UserID member)) members"

type_synonym sock_sys = "(int, conn) map_sys"

definition sock_init :: "ws_map \<Rightarrow> ws_access list \<Rightarrow> sock_sys" where
  "sock_init ws calls = map_init ws (map ws_ops calls)"

text \<open>What a call has emitted when its lookups have found \<open>rs\<close>, with the user looked up.\<close>

fun emissions :: "ws_access \<Rightarrow> (int \<times> conn option) list \<Rightarrow> (int \<times> conn \<times> string) list" where
  "emissions (Announce u c) rs = []"
| "emissions (Deliver members msg userName) [] = []"
| "emissions (Deliver members msg userName) ((u, wsServer) # rs) =
     (case wsServer of
        None \<Rightarrow> emissions (Deliver members msg userName) rs
      | Some c \<Rightarrow> (u, c, userName @ '':'' @ msg) # emissions (Deliver members msg userName) rs)"

text \<open>Alone, a call does what the sequential code does.\<close>

lemma ws_ops_sequential:
  "fold apply_op (ws_ops (Announce u c)) ws = ws(u \<mapsto> c)"
  "fold apply_op (ws_ops (Deliver ms msg name)) ws = ws"
  "map snd (emissions (Deliver ms msg name) (reads_alone ws (ws_ops (Deliver ns msg name)))) =
     sendMessageOverWebSocket ws ns msg name"
proof -
  show "fold apply_op (ws_ops (Deliver ms msg name)) ws = ws" by (induction ms) simp_all
  show "map snd (emissions (Deliver ms msg name) (reads_alone ws (ws_ops (Deliver ns msg name)))) =
      sendMessageOverWebSocket ws ns msg name"
    by (induction ns) (simp_all split: option.splits)
qed simp

subsection \<open>What is emitted\<close>

lemma emissions_users: "subseq (map fst (emissions (Deliver ms msg name) rs)) (map fst rs)"
proof (induction rs)
  case (Cons r rs)
  then show ?case by (cases r) (auto split: option.splits)
qed simp

lemma emissions_read:
  "(u, c, l) \<in> set (emissions (Deliver ms msg name) rs) \<longleftrightarrow> (u, Some c) \<in> set rs \<and> l = name @ '':'' @ msg"
proof (induction rs)
  case (Cons r rs)
  then show ?case by (cases r) (auto split: option.splits)
qed simp

lemma emissions_stable:
  "(\<And>x. (u, x) \<in> set rs \<Longrightarrow> x = Some c) \<Longrightarrow>
    count_list (emissions (Deliver ms msg name) rs) (u, c, name @ '':'' @ msg) = count_list (map fst rs) u"
proof (induction rs)
  case (Cons r rs)
  obtain v x where r: "r = (v, x)" by (cases r)
  have "count_list (emissions (Deliver ms msg name) rs) (u, c, name @ '':'' @ msg) = count_list (map fst rs) u"
    using Cons by simp
  moreover have "x = Some c" if "v = u" using Cons.prems [of x] r that by simp
  ultimately show ?case unfolding r by (cases "v = u") (auto split: option.splits)
qed simp

lemma reads_all_members:
  assumes "map_step\<^sup>*\<^sup>* (map_init ws progs) s" and "i < length progs" and "progs ! i = ws_ops (Deliver ms msg name)"
  shows "prefix (map fst (reads_of i s)) (map UserID ms) \<and> (mp_todo s ! i = [] \<longrightarrow> map fst (reads_of i s) = map UserID ms)"
proof -
  obtain gone where gone: "progs ! i = gone @ mp_todo s ! i" "map fst (reads_of i s) = loads gone"
    using reads_in_order [OF assms(1,2)] by blast
  have "map UserID ms = loads (progs ! i)" unfolding assms(3) by simp
  with gone show ?thesis by simp
qed

text \<open>A delivery among any other goroutines that use the map.\<close>

lemma delivery_users:
  assumes "map_step\<^sup>*\<^sup>* (map_init ws progs) s" and "i < length progs" and "progs ! i = ws_ops (Deliver ms msg name)"
  shows "subseq (map fst (emissions (Deliver ms msg name) (reads_of i s))) (map UserID ms)"
  using emissions_users [of ms msg name "reads_of i s"] reads_all_members [OF assms]
  by (metis prefix_imp_subseq subseq_order.order_trans)

lemma delivery_legal:
  assumes "map_step\<^sup>*\<^sup>* (map_init ws progs) s" and "i < length progs"
    and "(u, c, l) \<in> set (emissions (Deliver ms msg name) (reads_of i s))"
  shows "may_read ws progs u (Some c) \<and> l = name @ '':'' @ msg"
  using assms(3) reads_possible [OF assms(1,2), of u "Some c"] by (simp add: emissions_read)

lemma delivery_served:
  assumes "map_step\<^sup>*\<^sup>* (map_init ws progs) s" and "i < length progs" and "progs ! i = ws_ops (Deliver ms msg name)"
    and "mp_todo s ! i = []" and "ws u = Some c" and "\<And>c'. may_read ws progs u (Some c') \<Longrightarrow> c' = c"
  shows "count_list (emissions (Deliver ms msg name) (reads_of i s)) (u, c, name @ '':'' @ msg) = count_list (map UserID ms) u"
proof -
  have "x = Some c" if "(u, x) \<in> set (reads_of i s)" for x
    using reads_possible [OF assms(1,2) that] assms(5,6) by (cases x) (auto simp: may_read_def)
  then show ?thesis using emissions_stable [of u "reads_of i s" c ms msg name] reads_all_members [OF assms(1-3)] assms(4) by simp
qed

text \<open>The connections a user may have: the one at the start, or one of a heartbeat of that user.\<close>

definition may_be :: "ws_map \<Rightarrow> ws_access list \<Rightarrow> int \<Rightarrow> conn set" where
  "may_be ws calls u = {c. ws u = Some c \<or> Announce u c \<in> set calls}"

lemma store_in_calls: "(\<exists>ops \<in> set (map ws_ops calls). Store u c \<in> set ops) \<longleftrightarrow> Announce u c \<in> set calls"
proof -
  have "Store u c \<in> set (ws_ops call) \<longleftrightarrow> call = Announce u c" for call by (cases call) auto
  then show ?thesis by auto
qed

lemma may_read_calls:
  "may_read ws (map ws_ops calls) u x \<longleftrightarrow> (case x of None \<Rightarrow> ws u = None | Some c \<Rightarrow> c \<in> may_be ws calls u)"
  unfolding may_read_def store_in_calls by (auto simp: may_be_def split: option.splits)

subsection \<open>Properties\<close>

text \<open>
  C17. Exactly when the process can die of its connection map. For any heartbeats and deliveries that run at
  the same time, a run that the runtime ends with a fatal error exists if and only if one of them
  stores a connection while another one stores or looks up. No lock prevents it: one heartbeat of a user
  during the delivery of a message to a channel with members is enough.
\<close>

theorem ws_map_race:
  "(\<exists>s. map_step\<^sup>*\<^sup>* (sock_init ws calls) s \<and> mp_fatal s) \<longleftrightarrow>
   (\<exists>i j u c. i < length calls \<and> j < length calls \<and> i \<noteq> j \<and> calls ! i = Announce u c \<and>
      (case calls ! j of Announce v d \<Rightarrow> True | Deliver ms msg name \<Rightarrow> 0 < length ms))"
proof -
  have "Store u c \<in> set (ws_ops call) \<longleftrightarrow> call = Announce u c" for call u c by (cases call) auto
  moreover have "ws_ops call \<noteq> [] \<longleftrightarrow> (case call of Announce v d \<Rightarrow> True | Deliver ms msg name \<Rightarrow> 0 < length ms)" for call
    by (cases call) auto
  ultimately have "map_clash (map ws_ops calls) \<longleftrightarrow>
      (\<exists>i j u c. i < length calls \<and> j < length calls \<and> i \<noteq> j \<and> calls ! i = Announce u c \<and>
        (case calls ! j of Announce v d \<Rightarrow> True | Deliver ms msg name \<Rightarrow> 0 < length ms))"
    unfolding map_clash_def length_map by (simp cong: conj_cong del: split_paired_Ex)
  then show ?thesis unfolding sock_init_def fatal_iff .
qed

text \<open>
  Delivery over the sockets, whatever heartbeats and other deliveries run meanwhile. The
  emissions of a delivery go to members of the channel, in the order of the memberships and at most one for
  each, over a connection which that user had at the start or announced during the run, and carry the
  sender's name and the message. A delivery that got to its end has served every member whose connection did not
  change, once for each membership; if no heartbeat ran, it emitted exactly what
  \<open>sendMessageOverWebSocket\<close> emits alone, however many deliveries ran beside it.
\<close>

theorem realtime_no_misdelivery:
  assumes "map_step\<^sup>*\<^sup>* (sock_init ws calls) s" and "i < length calls" and "calls ! i = Deliver ms msg name"
  shows "subseq (map fst (emissions (calls ! i) (reads_of i s))) (map UserID ms) \<and>
    (\<forall>(u, c, l) \<in> set (emissions (calls ! i) (reads_of i s)). c \<in> may_be ws calls u \<and> l = name @ '':'' @ msg) \<and>
    (mp_todo s ! i = [] \<longrightarrow>
      (\<forall>u c. ws u = Some c \<and> may_be ws calls u = {c} \<longrightarrow>
        count_list (emissions (calls ! i) (reads_of i s)) (u, c, name @ '':'' @ msg) = count_list (map UserID ms) u) \<and>
      ((\<forall>u c. Announce u c \<notin> set calls) \<longrightarrow>
        map snd (emissions (calls ! i) (reads_of i s)) = sendMessageOverWebSocket ws ms msg name))"
proof -
  let ?rs = "reads_of i s"
  note run = assms(1) [unfolded sock_init_def]
  have i: "i < length (map ws_ops calls)" "map ws_ops calls ! i = ws_ops (Deliver ms msg name)" using assms(2,3) by simp_all
  have "subseq (map fst (emissions (calls ! i) ?rs)) (map UserID ms)"
    unfolding assms(3) by (rule delivery_users [OF run i])
  moreover have "\<forall>(u, c, l) \<in> set (emissions (calls ! i) ?rs). c \<in> may_be ws calls u \<and> l = name @ '':'' @ msg"
    unfolding assms(3) using delivery_legal [OF run i(1)] by (auto simp: may_read_calls)
  moreover have "count_list (emissions (calls ! i) ?rs) (u, c, name @ '':'' @ msg) = count_list (map UserID ms) u"
    if "mp_todo s ! i = []" "ws u = Some c" "may_be ws calls u = {c}" for u c
    unfolding assms(3) by (rule delivery_served [OF run i that(1,2)]) (use that(3) in \<open>auto simp: may_read_calls\<close>)
  moreover have "map snd (emissions (calls ! i) ?rs) = sendMessageOverWebSocket ws ms msg name"
    if "mp_todo s ! i = []" "\<forall>u c. Announce u c \<notin> set calls"
  proof -
    have "x = ws u" if "(u, x) \<in> set ?rs" for u x
      using reads_possible [OF run i(1) that] \<open>\<forall>u c. Announce u c \<notin> set calls\<close>
      by (cases x) (auto simp: may_read_calls may_be_def)
    then have "?rs = map (\<lambda>u. (u, ws u)) (map fst ?rs)" by (intro nth_equalityI) (auto simp: prod_eq_iff)
    then have "?rs = reads_alone ws (ws_ops (Deliver ms msg name))" using reads_all_members [OF run i] that(1) by simp
    then show ?thesis unfolding assms(3) using ws_ops_sequential(3) by metis
  qed
  ultimately show ?thesis by blast
qed

theorem realtime_no_misdelivery_witness:
  "\<exists>s. map_step\<^sup>*\<^sup>* (sock_init [2 \<mapsto> ''c2''] [Deliver [\<lparr>MembershipID = 1, mem_ChannelID = 1, UserID = 2\<rparr>] ''hi'' ''ann'']) s \<and>
     map snd (emissions (Deliver [\<lparr>MembershipID = 1, mem_ChannelID = 1, UserID = 2\<rparr>] ''hi'' ''ann'') (reads_of 0 s)) =
       [(''c2'', ''ann:hi'')]"
proof -
  let ?m = "\<lparr>MembershipID = 1, mem_ChannelID = 1, UserID = 2\<rparr>" and ?ws = "[2 \<mapsto> ''c2''] :: ws_map"
  obtain s where s: "map_step\<^sup>*\<^sup>* (sock_init ?ws [Deliver [?m] ''hi'' ''ann'']) s" "map_final s"
    using shared_map.reaches_final [OF refl rtranclp.rtrancl_refl] unfolding sock_init_def by blast
  have "\<not> mp_fatal s"
    using fatal_clash [of ?ws "map ws_ops [Deliver [?m] ''hi'' ''ann'']" s] s(1) by (auto simp: sock_init_def map_clash_def)
  moreover have "length (mp_todo s) = 1"
    using shared_map.reachable_inv [OF refl s(1) [unfolded sock_init_def]] by (simp add: map_inv_def)
  ultimately have "mp_todo s ! 0 = []" using s(2) by (simp add: map_final_def list_all_length)
  then show ?thesis
    using realtime_no_misdelivery [OF s(1), of 0 "[?m]" "''hi''" "''ann''"] s(1) by (intro exI [of _ s]) simp
qed

end
