(* ===== verification/Slack_System.thy ===== *)
theory Slack_System
  imports Slack_Log Slack_Sockets
begin

text \<open>
  The chat server of \<open>slack/main.go\<close> as one system: the requests of \<open>Slack_Concurrent\<close>, cut at their
  statements, and the accesses of the connection map of \<open>Slack_Sockets\<close>, cut at each access, all
  interleaved. A heartbeat stores its connection before its statements; a message is delivered,
  member by member, after its statements and before its answer; opening a channel starts a goroutine of its own
  that delivers the first message while the handler goes on. Nothing more happens once the runtime has
  ended the process.
\<close>

subsection \<open>What a request does to the connection map\<close>

text \<open>The user and the connection that a heartbeat stores.\<close>

definition announcement :: "request \<Rightarrow> (int \<times> conn) option" where
  "announcement req =
     (case req of ReqHeartbeat t c (JStr s) \<Rightarrow> Some (fst (atoi (split_at CHR '','' s ! 0)), c) | _ \<Rightarrow> None)"

text \<open>The call of \<open>sendMessageOverWebSocket\<close> that a message makes, once its three statements were answered.\<close>

definition delivery :: "request \<Rightarrow> answer list \<Rightarrow> ws_access option" where
  "delivery req as =
     (case (req, as) of
        (ReqSendMessage up t senderId channelId body, Inr r1 # Inr r2 # Inr r3 # rest) \<Rightarrow>
          (case (decode_request body, scan_rows scan_membership (res_rows r2), query_row scan_name (res_rows r3)) of
             (Some msg, Some rows, Some found) \<Rightarrow>
               Some (Deliver (filter (\<lambda>m. UserID m \<noteq> fst (atoi senderId)) rows) msg (case found of None \<Rightarrow> [] | Some n \<Rightarrow> n))
           | _ \<Rightarrow> None)
      | _ \<Rightarrow> None)"

text \<open>The delivery that opening a channel has started, from the handler itself.\<close>

definition spawned :: "request \<Rightarrow> answer list \<Rightarrow> ws_access option" where
  "spawned req as =
     (case req of
        ReqCreateChannel up t senderName receiverName \<Rightarrow>
          (case createChannel replay_run up t senderName receiverName (as, None) of
             (w, e, (members, msg, userName) # calls) \<Rightarrow> Some (Deliver members msg userName)
           | (w, e, []) \<Rightarrow> None)
      | _ \<Rightarrow> None)"

definition announce_ops :: "request \<Rightarrow> (int, conn) map_op list" where
  "announce_ops req = (case announcement req of None \<Rightarrow> [] | Some (u, c) \<Rightarrow> ws_ops (Announce u c))"

text \<open>They are what the handlers do: the map a heartbeat leaves, the emissions of a message.\<close>

lemma announcement_heartbeat:
  "fst (snd (heartbeat run t c msg ws d)) = fold apply_op (announce_ops (ReqHeartbeat t c msg)) ws"
  by (simp add: heartbeat_def announce_ops_def announcement_def db_try_def Let_def split: json.splits prod.splits sum.splits)

lemma delivery_sendMessage:
  "snd (snd (sendMessage replay_run up t s c body ws (as, None))) =
     (case delivery (ReqSendMessage up t s c body) as of
        Some (Deliver ms msg name) \<Rightarrow> sendMessageOverWebSocket ws ms msg name
      | _ \<Rightarrow> [])"
proof (cases "\<exists>r1 r2 r3 rest. as = Inr r1 # Inr r2 # Inr r3 # rest")
  case True
  then show ?thesis by (auto simp: sendMessage_def delivery_def db_try_def Let_def split: option.splits)
next
  case False
  then have "delivery (ReqSendMessage up t s c body) as = None"
    by (auto simp: delivery_def split: list.splits sum.splits)
  moreover have "snd (snd (sendMessage replay_run up t s c body ws (as, None))) = []"
    using False by (auto simp: sendMessage_def db_try_def Let_def replay_success split: option.splits sum.splits prod.splits)
  ultimately show ?thesis by simp
qed

text \<open>Neither the statements nor the answer of a request depend on the map.\<close>

lemma handle_blind: "slack_handle run ws req d = slack_handle run ws' req d"
proof (cases req)
  case (ReqSendMessage up t s c body)
  then show ?thesis
    by (simp add: slack_handle_def sendMessage_def db_try_def Let_def split: option.splits sum.splits prod.splits)
next
  case (ReqHeartbeat t c msg)
  then show ?thesis
    by (simp add: slack_handle_def heartbeat_def db_try_def Let_def split: json.splits sum.splits prod.splits)
qed (simp_all add: slack_handle_def)

subsection \<open>The system\<close>

text \<open>
  Of \<open>n\<close> requests, number \<open>k\<close> uses the map in goroutine \<open>k\<close>, and the goroutine that it may start is
  \<open>n + k\<close>. \<open>ch_sent\<close> says which deliveries have begun.
\<close>

record 'db chat_sys =
  ch_server :: "'db cs_sys"
  ch_map :: sock_sys
  ch_sent :: "bool list"

definition call_at :: "'db cs_sys \<Rightarrow> nat \<Rightarrow> ws_access option" where
  "call_at S k =
     (if k < length (cs_reqs S) then (case cs_reqs S ! k of (req, as) \<Rightarrow> delivery req as)
      else (case cs_reqs S ! (k - length (cs_reqs S)) of (req, as) \<Rightarrow> spawned req as))"

inductive chat_step :: "'db slack_run \<Rightarrow> 'db chat_sys \<Rightarrow> 'db chat_sys \<Rightarrow> bool" for run where
  chat_access: "map_step (ch_map s) m \<Longrightarrow> chat_step run s (s\<lparr>ch_map := m\<rparr>)"
| chat_stmt: "\<not> mp_fatal (ch_map s) \<Longrightarrow> i < length (cs_reqs (ch_server s)) \<Longrightarrow> cs_reqs (ch_server s) ! i = (req, as) \<Longrightarrow>
    mp_todo (ch_map s) ! i = [] \<Longrightarrow> next_stmt Map.empty req as = Some q \<Longrightarrow> run q (cs_db (ch_server s)) = (a, d) \<Longrightarrow>
    chat_step run s (s\<lparr>ch_server := \<lparr>cs_db = d, cs_reqs = (cs_reqs (ch_server s))[i := (req, as @ [a])]\<rparr>\<rparr>)"
| chat_deliver: "\<not> mp_fatal (ch_map s) \<Longrightarrow> k < 2 * length (cs_reqs (ch_server s)) \<Longrightarrow> \<not> ch_sent s ! k \<Longrightarrow>
    call_at (ch_server s) k = Some call \<Longrightarrow>
    chat_step run s (s\<lparr>ch_map := (ch_map s)\<lparr>mp_todo := (mp_todo (ch_map s))[k := ws_ops call]\<rparr>, ch_sent := (ch_sent s)[k := True]\<rparr>)"

definition chat_init :: "'db \<Rightarrow> ws_map \<Rightarrow> request list \<Rightarrow> 'db chat_sys" where
  "chat_init d ws reqs =
     \<lparr>ch_server = cs_init d reqs, ch_map = map_init ws (map announce_ops reqs @ replicate (length reqs) []),
      ch_sent = replicate (2 * length reqs) False\<rparr>"

text \<open>The answer of request \<open>i\<close>, once it has done everything.\<close>

definition chat_answer :: "nat \<Rightarrow> 'db chat_sys \<Rightarrow> outcome option" where
  "chat_answer i s =
     (case cs_reqs (ch_server s) ! i of (req, as) \<Rightarrow>
        if next_stmt Map.empty req as = None \<and> (delivery req as = None \<or> ch_sent s ! i) \<and> mp_todo (ch_map s) ! i = []
        then Some (outcome_of Map.empty req as) else None)"

text \<open>What request \<open>i\<close> has emitted: the user looked up, the connection and the text.\<close>

definition chat_emitted :: "nat \<Rightarrow> 'db chat_sys \<Rightarrow> (int \<times> conn \<times> string) list" where
  "chat_emitted i s =
     (case cs_reqs (ch_server s) ! i of (req, as) \<Rightarrow>
        (case delivery req as of None \<Rightarrow> [] | Some call \<Rightarrow> emissions call (reads_of i (ch_map s))))"

subsection \<open>Its two halves\<close>

text \<open>The accesses of the map that goroutine \<open>k\<close> has begun.\<close>

definition chat_prog :: "request list \<Rightarrow> 'db chat_sys \<Rightarrow> nat \<Rightarrow> (int, conn) map_op list" where
  "chat_prog reqs s k =
     (if ch_sent s ! k then (case call_at (ch_server s) k of None \<Rightarrow> [] | Some call \<Rightarrow> ws_ops call)
      else if k < length reqs then announce_ops (reqs ! k) else [])"

abbreviation chat_progs :: "request list \<Rightarrow> 'db chat_sys \<Rightarrow> (int, conn) map_op list list" where
  "chat_progs reqs s \<equiv> map (chat_prog reqs s) [0..<2 * length reqs]"

definition chat_inv :: "'db slack_run \<Rightarrow> 'db \<Rightarrow> ws_map \<Rightarrow> request list \<Rightarrow> 'db chat_sys \<Rightarrow> bool" where
  "chat_inv run d ws reqs s \<longleftrightarrow>
     map fst (cs_reqs (ch_server s)) = reqs \<and> length (ch_sent s) = 2 * length reqs \<and>
     (\<forall>k < 2 * length reqs. ch_sent s ! k \<longrightarrow> call_at (ch_server s) k \<noteq> None) \<and>
     (cs_step run Map.empty)\<^sup>*\<^sup>* (cs_init d reqs) (ch_server s) \<and>
     map_step\<^sup>*\<^sup>* (map_init ws (chat_progs reqs s)) (ch_map s)"

lemma delivery_no_stmt: "delivery req as = Some call \<Longrightarrow> next_stmt Map.empty req as = None \<and> announce_ops req = []"
  by (auto simp: delivery_def next_stmt_def slack_handle_def sendMessage_def db_try_def Let_def announce_ops_def announcement_def
      split: request.splits list.splits sum.splits option.splits prod.splits)

lemma spawned_after:
  assumes "spawned (ReqCreateChannel up t s r) as = Some call"
  shows "\<exists>r1 r2 r3 r4 r5 rest. as = Inr r1 # Inr r2 # Inr r3 # Inr r4 # Inr r5 # rest"
  using assms
  by (auto simp: spawned_def createChannel_def with_user_id_def open_channel_def show_channel_def db_try_def Let_def replay_success
      split: option.splits sum.splits prod.splits list.splits if_splits)

lemma spawned_settled:
  "spawned (ReqCreateChannel up t s r) (Inr r1 # Inr r2 # Inr r3 # Inr r4 # Inr r5 # rest) =
   spawned (ReqCreateChannel up t s r) [Inr r1, Inr r2, Inr r3, Inr r4, Inr r5]"
  by (simp add: spawned_def createChannel_def with_user_id_def open_channel_def show_channel_def db_try_def Let_def
      split: option.splits sum.splits prod.splits)

lemma spawned_kept:
  assumes "spawned req as = Some call"
  shows "spawned req (as @ [a]) = Some call"
proof (cases req)
  case (ReqCreateChannel up t s r)
  obtain r1 r2 r3 r4 r5 rest where as: "as = Inr r1 # Inr r2 # Inr r3 # Inr r4 # Inr r5 # rest"
    using spawned_after assms unfolding ReqCreateChannel by blast
  show ?thesis
    using assms spawned_settled [of up t s r r1 r2 r3 r4 r5 rest] spawned_settled [of up t s r r1 r2 r3 r4 r5 "rest @ [a]"]
    unfolding ReqCreateChannel as by simp
qed (use assms in \<open>simp_all add: spawned_def\<close>)

text \<open>A call that was there to be made stays the same, whatever statement is next.\<close>

lemma call_at_kept:
  assumes "cs_step run Map.empty S S'" and "call_at S k = Some call" and "k < 2 * length (cs_reqs S)"
  shows "call_at S' k = Some call"
  using assms(1)
proof cases
  case (cs_stmt i req as q a d)
  have "delivery req as = None"
    using delivery_no_stmt [of req as] cs_stmt(4) by (cases "delivery req as") auto
  with cs_stmt assms(2,3) show ?thesis
    by (cases "k < length (cs_reqs S)"; cases "k = i \<or> k - length (cs_reqs S) = i")
      (auto simp: call_at_def nth_list_update spawned_kept)
qed

lemma request_at: "map fst xs = reqs \<Longrightarrow> k < length reqs \<Longrightarrow> \<exists>as. xs ! k = (reqs ! k, as)"
  by (cases "xs ! k") auto

lemma chat_init_inv: "chat_inv run d ws reqs (chat_init d ws reqs)"
proof -
  have "chat_progs reqs (chat_init d ws reqs) = map announce_ops reqs @ replicate (length reqs) []"
    by (rule nth_equalityI) (auto simp: chat_prog_def chat_init_def nth_append)
  then show ?thesis by (simp add: chat_inv_def) (simp add: chat_init_def cs_init_def comp_def)
qed

lemma chat_step_inv:
  assumes "chat_inv run d ws reqs s" and "chat_step run s t"
  shows "chat_inv run d ws reqs t"
proof -
  have reqs: "map fst (cs_reqs (ch_server s)) = reqs" "length (ch_sent s) = 2 * length reqs"
    and sent: "\<And>k. k < 2 * length reqs \<Longrightarrow> ch_sent s ! k \<Longrightarrow> call_at (ch_server s) k \<noteq> None"
    and server: "(cs_step run Map.empty)\<^sup>*\<^sup>* (cs_init d reqs) (ch_server s)"
    and map: "map_step\<^sup>*\<^sup>* (map_init ws (chat_progs reqs s)) (ch_map s)"
    using assms(1) by (simp_all add: chat_inv_def)
  have len: "length (cs_reqs (ch_server s)) = length reqs" using arg_cong [OF reqs(1), of length] by simp
  from assms(2) show ?thesis
  proof cases
    case (chat_access m)
    have same: "chat_prog reqs t = chat_prog reqs s" by (simp add: chat_access(1) chat_prog_def fun_eq_iff)
    have "map_step\<^sup>*\<^sup>* (map_init ws (chat_progs reqs t)) (ch_map t)"
      unfolding same using map chat_access by (simp add: rtranclp.rtrancl_into_rtrancl)
    with reqs sent server chat_access(1) show ?thesis by (simp add: chat_inv_def)
  next
    case (chat_stmt i req as q a d')
    have stmt: "cs_step run Map.empty (ch_server s) (ch_server t)"
      using cs_step.cs_stmt [OF chat_stmt(3,4,6), of run a d'] chat_stmt(1,7) by simp
    have kept: "call_at (ch_server t) k = call_at (ch_server s) k" if "k < 2 * length reqs" "ch_sent s ! k" for k
      using call_at_kept [OF stmt, of k] sent [OF that] that(1) len by auto
    have "chat_prog reqs t k = chat_prog reqs s k" if "k < 2 * length reqs" for k
      using kept [OF that] chat_stmt(1) by (simp add: chat_prog_def)
    then have same: "chat_progs reqs t = chat_progs reqs s" by simp
    have "map_step\<^sup>*\<^sup>* (map_init ws (chat_progs reqs t)) (ch_map t)"
      unfolding same using map chat_stmt(1) by simp
    moreover have "map fst (cs_reqs (ch_server t)) = reqs"
      using reqs(1) chat_stmt(1,3,4) by (auto simp: map_update list_update_same_conv)
    moreover have "call_at (ch_server t) k \<noteq> None" if "k < 2 * length reqs" "ch_sent t ! k" for k
      using kept [of k] sent [of k] that chat_stmt(1) by simp
    moreover have "length (ch_sent t) = 2 * length reqs" using reqs(2) chat_stmt(1) by simp
    ultimately show ?thesis using server stmt unfolding chat_inv_def by (meson rtranclp.rtrancl_into_rtrancl)
  next
    case (chat_deliver k call)
    have k: "k < 2 * length reqs" using chat_deliver(3) len by simp
    have "announce_ops (reqs ! k) = []" if mine: "k < length reqs"
    proof -
      obtain as where "cs_reqs (ch_server s) ! k = (reqs ! k, as)" 
        using request_at [OF reqs(1) mine] by blast
      then show ?thesis using delivery_no_stmt [of "reqs ! k" as call] mine chat_deliver(5) len by (simp add: call_at_def)
    qed
    then have "chat_progs reqs s ! k = []" using chat_deliver(4) k by (simp add: chat_prog_def)
    then have "map_step\<^sup>*\<^sup>* (map_init ws ((chat_progs reqs s)[k := ws_ops call])) (ch_map t)"
      using map_run_extend [OF map] chat_deliver(1) by simp
    moreover have "chat_progs reqs t = (chat_progs reqs s)[k := ws_ops call]"
    proof (rule nth_equalityI)
      fix j
      assume "j < length (chat_progs reqs t)"
      then show "chat_progs reqs t ! j = (chat_progs reqs s)[k := ws_ops call] ! j"
        using chat_deliver(1,5) k reqs(2) by (cases "j = k") (simp_all add: chat_prog_def)
    qed simp
    moreover have del: "call_at (ch_server t) j \<noteq> None" if "j < 2 * length reqs" "ch_sent t ! j" for j
      using sent [of j] that chat_deliver(1,5) by (cases "j = k") auto
    ultimately have "map_step\<^sup>*\<^sup>* (map_init ws (chat_progs reqs t)) (ch_map t)" by simp
    with del reqs server chat_deliver(1) show ?thesis by (simp add: chat_inv_def)
  qed
qed

interpretation chat: invariant_system "\<lambda>s. s = chat_init d ws reqs" "chat_step run" "chat_inv run d ws reqs" for d ws reqs run
  by unfold_locales (auto intro: chat_init_inv chat_step_inv)

text \<open>The accesses that any goroutine has begun are those of a heartbeat or of a delivery.\<close>

lemma call_at_delivers: "call_at S k = Some call \<Longrightarrow> \<exists>ms msg name. call = Deliver ms msg name"
  by (auto simp: call_at_def delivery_def spawned_def split: if_splits request.splits list.splits sum.splits option.splits prod.splits)

lemma chat_may_read:
  assumes "may_read ws (chat_progs reqs s) u (Some c)"
  shows "ws u = Some c \<or> (\<exists>req \<in> set reqs. announcement req = Some (u, c))"
proof -
  have "\<exists>req \<in> set reqs. announcement req = Some (u, c)" if "Store u c \<in> set (chat_prog reqs s k)" for k
  proof -
    have "Store u c \<notin> set (ws_ops call)" if "call_at (ch_server s) k = Some call" for call
      using call_at_delivers [OF that] by auto
    then have "k < length reqs" "Store u c \<in> set (announce_ops (reqs ! k))"
      using that by (auto simp: chat_prog_def split: if_splits option.splits)
    moreover from this(2) have "announcement (reqs ! k) = Some (u, c)" by (auto simp: announce_ops_def split: option.splits)
    ultimately show ?thesis by (metis nth_mem)
  qed
  moreover have "ws u = Some c \<or> (\<exists>k. Store u c \<in> set (chat_prog reqs s k))"
    using assms by (auto simp: may_read_def)
  ultimately show ?thesis by blast
qed

lemma chat_run:
  assumes "(chat_step run)\<^sup>*\<^sup>* (chat_init d ws reqs) s"
  shows "map fst (cs_reqs (ch_server s)) = reqs" and "length (cs_reqs (ch_server s)) = length reqs"
    and "(cs_step run Map.empty)\<^sup>*\<^sup>* (cs_init d reqs) (ch_server s)"
    and "map_step\<^sup>*\<^sup>* (map_init ws (chat_progs reqs s)) (ch_map s)"
proof -
  have inv: "chat_inv run d ws reqs s" by (rule chat.reachable_inv [OF refl assms])
  then show first: "map fst (cs_reqs (ch_server s)) = reqs" by (simp add: chat_inv_def)
  show "length (cs_reqs (ch_server s)) = length reqs" using arg_cong [OF first, of length] by simp
qed (use chat.reachable_inv [OF refl assms] in \<open>simp_all add: chat_inv_def\<close>)

subsection \<open>Runs end\<close>

text \<open>Statements and deliveries lower the first number, accesses of the map lower the second and leave the first.\<close>

definition chat_left :: "'db chat_sys \<Rightarrow> nat \<times> nat" where
  "chat_left s = (cs_variant (ch_server s) + tally Not (ch_sent s), map_variant (ch_map s))"

lemma chat_step_left:
  assumes "chat_inv run d ws reqs s" and "chat_step run s t"
  shows "(chat_left t, chat_left s) \<in> less_than <*lex*> less_than"
  using assms(2)
proof cases
  case (chat_access m)
  have "map_inv ws (chat_progs reqs s) (ch_map s)"
    using assms(1) shared_map.reachable_inv [OF refl] unfolding chat_inv_def by blast
  from map_step_variant [OF this chat_access(2)] chat_access(1) show ?thesis by (simp add: chat_left_def)
next
  case (chat_stmt i req as q a d')
  have "cs_step run Map.empty (ch_server s) (ch_server t)"
    using cs_step.cs_stmt [OF chat_stmt(3,4,6), of run a d'] chat_stmt(1,7) by simp
  from cs_step_variant [OF this] chat_stmt(1) show ?thesis by (simp add: chat_left_def)
next
  case (chat_deliver k call)
  have "length (ch_sent s) = 2 * length (cs_reqs (ch_server s))" using assms(1) unfolding chat_inv_def by (metis length_map)
  with tally_update [of k "ch_sent s" Not True] chat_deliver show ?thesis by (simp add: chat_left_def)
qed

text \<open>All statements are answered, all deliveries begun and all accesses of the map done.\<close>

definition chat_done :: "'db chat_sys \<Rightarrow> bool" where
  "chat_done s \<longleftrightarrow>
     cs_done Map.empty (ch_server s) \<and> list_all (\<lambda>ops. ops = []) (mp_todo (ch_map s)) \<and>
     (\<forall>k < 2 * length (cs_reqs (ch_server s)). call_at (ch_server s) k = None \<or> ch_sent s ! k)"

lemma chat_inv_lengths:
  assumes "chat_inv run d ws reqs s"
  shows "length (cs_reqs (ch_server s)) = length reqs" and "map_inv ws (chat_progs reqs s) (ch_map s)"
    and "length (mp_todo (ch_map s)) = 2 * length reqs"
proof -
  show "map_inv ws (chat_progs reqs s) (ch_map s)"
    using assms shared_map.reachable_inv [OF refl] unfolding chat_inv_def by blast
  then show "length (mp_todo (ch_map s)) = 2 * length reqs" by (simp add: map_inv_def)
  show "length (cs_reqs (ch_server s)) = length reqs" using assms unfolding chat_inv_def by (metis length_map)
qed

lemma chat_stuck:
  assumes "chat_inv run d ws reqs s"
  shows "(\<nexists>t. chat_step run s t) \<longleftrightarrow> mp_fatal (ch_map s) \<or> chat_done s"
proof -
  note len = chat_inv_lengths [OF assms]
  have "\<exists>t. chat_step run s t" if running: "\<not> mp_fatal (ch_map s)" "\<not> chat_done s"
  proof (cases "map_final (ch_map s)")
    case False
    with map_step_progress [OF len(2)] show ?thesis by (blast intro: chat_access)
  next
    case True
    then have idle: "list_all (\<lambda>ops. ops = []) (mp_todo (ch_map s))" using running(1) by (simp add: map_final_def)
    show ?thesis
    proof (cases "cs_done Map.empty (ch_server s)")
      case True
      with running idle obtain k call where "k < 2 * length (cs_reqs (ch_server s))" "call_at (ch_server s) k = Some call" "\<not> ch_sent s ! k"
        by (auto simp: chat_done_def)
      with chat_deliver [OF running(1)] show ?thesis by blast
    next
      case False
      then obtain i req as q where i: "i < length (cs_reqs (ch_server s))" "cs_reqs (ch_server s) ! i = (req, as)"
          "next_stmt Map.empty req as = Some q"
        by (fastforce simp: cs_done_def list_all_length)
      then have "mp_todo (ch_map s) ! i = []" using idle len(1,3) by (simp add: list_all_length)
      moreover obtain a d' where "run q (cs_db (ch_server s)) = (a, d')" by fastforce
      ultimately show ?thesis using chat_stmt [OF running(1) i(1,2) _ i(3), of run a d'] by blast
    qed
  qed
  moreover have "\<not> chat_step run s t" if "chat_done s" for t
  proof
    assume "chat_step run s t"
    then show False
    proof cases
      case (chat_access m)
      from chat_access(2) that show ?thesis by cases (auto simp: chat_done_def list_all_length)
    next
      case (chat_stmt i req as q a d')
      with that show ?thesis by (auto simp: chat_done_def cs_done_def list_all_length)
    next
      case (chat_deliver k call)
      with that show ?thesis by (auto simp: chat_done_def)
    qed
  qed
  moreover have "\<not> chat_step run s t" if "mp_fatal (ch_map s)" for t
    using that by (auto elim!: chat_step.cases map_step.cases)
  ultimately show ?thesis by blast
qed

lemma chat_done_answers:
  assumes "chat_inv run d ws reqs s" and "chat_done s" and "i < length reqs"
  shows "chat_answer i s \<noteq> None"
proof -
  note len = chat_inv_lengths [OF assms(1)]
  obtain req as where ra: "cs_reqs (ch_server s) ! i = (req, as)" by fastforce
  then have "next_stmt Map.empty req as = None"
    using assms(2,3) len(1) by (fastforce simp: chat_done_def cs_done_def list_all_length)
  moreover have "delivery req as = None \<or> ch_sent s ! i"
    using assms(2,3) len(1) ra unfolding chat_done_def by (auto dest!: spec [of _ i] simp: call_at_def)
  moreover have "mp_todo (ch_map s) ! i = []" using assms(2,3) len(3) by (simp add: chat_done_def list_all_length)
  ultimately show ?thesis by (simp add: chat_answer_def ra)
qed

subsection \<open>Who gets a message\<close>

definition members_of :: "mysql_rules \<Rightarrow> string \<Rightarrow> slack_tables \<Rightarrow> int list" where
  "members_of R cid T = map UserID (filter (\<lambda>m. eq_int R cid (mem_ChannelID m)) (memberships T))"

lemma members_of_grows: "tables_grown T T' \<Longrightarrow> prefix (members_of R cid T) (members_of R cid T')"
  by (auto simp: members_of_def tables_grown_def prefix_def)

lemma count_list_prefix: "prefix xs ys \<Longrightarrow> count_list xs a \<le> count_list ys a"
  by (auto simp: prefix_def)

lemma tables_grown_user:
  assumes "tables_grown T T'" and "us \<in> set (users T)"
  shows "\<exists>us' \<in> set (users T'). uId us' = uId us \<and> UserName us' = UserName us"
proof -
  have "set (map (\<lambda>u. (uId u, UserName u)) (users T)) \<subseteq> set (map (\<lambda>u. (uId u, UserName u)) (users T'))"
    using assms(1) unfolding tables_grown_def by (blast dest: set_mono_prefix)
  moreover have "(uId us, UserName us) \<in> set (map (\<lambda>u. (uId u, UserName u)) (users T))" using assms(2) by simp
  ultimately have "(uId us, UserName us) \<in> set (map (\<lambda>u. (uId u, UserName u)) (users T'))" by (rule subsetD)
  then show ?thesis by auto
qed

text \<open>The receivers and the name that a delivery works with, from the tables at some points of the run.\<close>

lemma delivery_from_tables:
  assumes "answers_ok R ws T0 T1 (ReqSendMessage up t sid cid body, as)" and "rules_ok R"
    and "delivery (ReqSendMessage up t sid cid body) as = Some (Deliver ms msg name)"
  shows "\<exists>T. tables_grown T0 T \<and> tables_grown T T1 \<and>
    mset (map UserID ms) = mset (filter (\<lambda>u. u \<noteq> fst (atoi sid)) (members_of R cid T)) \<and> decode_request body = Some msg \<and>
    (name = [] \<or> (\<exists>us \<in> set (users T1). eq_int R sid (uId us) \<and> UserName us = name))"
proof -
  obtain r1 r2 r3 rest rows found where as: "as = Inr r1 # Inr r2 # Inr r3 # rest" and msg: "decode_request body = Some msg"
    and rows: "scan_rows scan_membership (res_rows r2) = Some rows" "ms = filter (\<lambda>m. UserID m \<noteq> fst (atoi sid)) rows"
    and found: "query_row scan_name (res_rows r3) = Some found" "name = (case found of None \<Rightarrow> [] | Some n \<Rightarrow> n)"
    using assms(3) by (auto simp: delivery_def split: list.splits sum.splits option.splits)
  let ?req = "ReqSendMessage up t sid cid body"
  have "\<exists>i T T'. slack_sem R (SelMembers cid) i T = Some (r2, T') \<and> tables_grown T0 T \<and> tables_grown T T1"
    using sendMessage_next(2) [OF msg, of ws up t sid cid r1] by (intro answer_given [OF assms(1), of 1]) (simp_all add: as)
  then obtain i T T' where "slack_sem R (SelMembers cid) i T = Some (r2, T')" and T: "tables_grown T0 T" "tables_grown T T1" by blast
  then have "rows = reorder R i (filter (\<lambda>m. eq_int R cid (mem_ChannelID m)) (memberships T))" using rows(1) by auto
  then have "mset (map UserID ms) = mset (filter (\<lambda>u. u \<noteq> fst (atoi sid)) (members_of R cid T))"
    unfolding rows(2) members_of_def filter_map mset_map mset_filter using assms(2) by (simp add: comp_def)
  have "next_stmt ws ?req [Inr r1, Inr r2] = Some (SelUserName sid)"
    using msg rows(1) by (simp add: next_stmt_def slack_handle_def sendMessage_def db_try_def Let_def)
  then have "\<exists>i T T'. slack_sem R (SelUserName sid) i T = Some (r3, T') \<and> tables_grown T0 T \<and> tables_grown T T1"
    by (intro answer_given [OF assms(1), of 2]) (simp_all add: as numeral_2_eq_2)
  then obtain j S S' where "slack_sem R (SelUserName sid) j S = Some (r3, S')" and S: "tables_grown S T1" by blast
  then have row: "query_row scan_name (map (\<lambda>u. [VStr (UserName u)]) (reorder R j (filter (\<lambda>u. eq_int R sid (uId u)) (users S)))) = Some found"
    using found(1) by auto
  have "name = [] \<or> (\<exists>us \<in> set (users S). eq_int R sid (uId us) \<and> UserName us = name)"
  proof (cases "reorder R j (filter (\<lambda>u. eq_int R sid (uId u)) (users S))")
    case Nil
    with row found(2) show ?thesis by simp
  next
    case (Cons us rest')
    then have "us \<in> set (filter (\<lambda>u. eq_int R sid (uId u)) (users S))" using assms(2) by (metis list.set_intros(1) set_reorder)
    with Cons row found(2) show ?thesis by auto
  qed
  with tables_grown_user [OF S] have "name = [] \<or> (\<exists>us \<in> set (users T1). eq_int R sid (uId us) \<and> UserName us = name)" by metis
  with T msg \<open>mset (map UserID ms) = _\<close> show ?thesis by blast
qed

text \<open>A message that is answered with 200 has been handed to the delivery.\<close>

lemma sendMessage_delivers:
  assumes "outcome_of ws (ReqSendMessage up t s c body) as = Http w" and "rw_status w = Some 200" and "decode_request body = Some msg"
  shows "\<exists>ms name. delivery (ReqSendMessage up t s c body) as = Some (Deliver ms msg name)"
proof -
  obtain r1 r2 r3 rest where as: "as = Inr r1 # Inr r2 # Inr r3 # rest" using sendMessage_done [OF assms(1,2)] by blast
  with assms show ?thesis
    by (auto simp: delivery_def outcome_of_def slack_handle_def sendMessage_def db_try_def Let_def fail_text_def split: option.splits)
qed

lemma count_list_filter: "P a \<Longrightarrow> count_list (filter P xs) a = count_list xs a"
  by (induction xs) auto

lemma delivered_counts:
  assumes "mset (map UserID ms) = mset (filter P (members_of R cid T))" and "P u" and "tables_grown T0 T" and "tables_grown T T1"
  shows "count_list (members_of R cid T0) u \<le> count_list (map UserID ms) u \<and>
    count_list (map UserID ms) u \<le> count_list (members_of R cid T1) u"
proof -
  have "count_list (map UserID ms) u = count_list (members_of R cid T) u"
    using mset_eq_length_filter [OF assms(1)] count_list_filter [of P u] assms(2) by metis
  then show ?thesis
    using count_list_prefix [OF members_of_grows [OF assms(3)]] count_list_prefix [OF members_of_grows [OF assms(4)]] by metis
qed

subsection \<open>A request alone\<close>

lemma chat_stmts_alone:
  assumes "(cs_step run Map.empty)\<^sup>*\<^sup>* (cs_init d reqs) S" and "\<forall>req \<in> set reqs. announce_ops req = []"
  shows "(chat_step run)\<^sup>*\<^sup>* (chat_init d ws reqs) (chat_init d ws reqs\<lparr>ch_server := S\<rparr>)"
  using assms(1)
proof (induction rule: rtranclp_induct)
  case base
  show ?case by (simp add: chat_init_def)
next
  case (step S S')
  from step.hyps(2) show ?case
  proof cases
    case (cs_stmt i req as q a d')
    have "length (cs_reqs S) = length reqs"
      using cs.reachable_inv [OF refl step.hyps(1)] by (auto simp: cs_ok_def)
    then have "chat_step run (chat_init d ws reqs\<lparr>ch_server := S\<rparr>) (chat_init d ws reqs\<lparr>ch_server := S'\<rparr>)"
      using chat_stmt [of "chat_init d ws reqs\<lparr>ch_server := S\<rparr>" i req as q run a d'] cs_stmt assms(2)
      by (simp add: chat_init_def map_init_def nth_append)
    with step.IH show ?thesis by (rule run_then_step)
  qed
qed

lemma chat_accesses: "map_step\<^sup>*\<^sup>* m m' \<Longrightarrow> (chat_step run)\<^sup>*\<^sup>* (s\<lparr>ch_map := m\<rparr>) (s\<lparr>ch_map := m'\<rparr>)"
proof (induction rule: rtranclp_induct)
  case (step m' m'')
  then show ?case using chat_access [of "s\<lparr>ch_map := m'\<rparr>" m'' run] by (simp add: run_then_step)
qed simp

text \<open>From a quiet map, a goroutine makes its call, if there is one.\<close>

lemma chat_call_done:
  assumes "\<not> mp_fatal (ch_map s)" and "mp_writer (ch_map s) = None" and "k < 2 * length (cs_reqs (ch_server s))"
    and "length (mp_todo (ch_map s)) = 2 * length (cs_reqs (ch_server s))" and "mp_todo (ch_map s) ! k = []"
    and "length (ch_sent s) = 2 * length (cs_reqs (ch_server s))"
  shows "\<exists>t. (chat_step run)\<^sup>*\<^sup>* s t \<and> ch_server t = ch_server s \<and> \<not> mp_fatal (ch_map t) \<and> mp_writer (ch_map t) = None \<and>
    mp_todo (ch_map t) = mp_todo (ch_map s) \<and> (call_at (ch_server s) k = None \<or> ch_sent t ! k) \<and>
    length (ch_sent t) = length (ch_sent s) \<and> (\<forall>j. ch_sent s ! j \<longrightarrow> ch_sent t ! j)"
proof (cases "call_at (ch_server s) k = None \<or> ch_sent s ! k")
  case False
  then obtain call where call: "call_at (ch_server s) k = Some call" "\<not> ch_sent s ! k" by auto
  let ?m = "(ch_map s)\<lparr>mp_todo := (mp_todo (ch_map s))[k := ws_ops call]\<rparr>"
  let ?t = "s\<lparr>ch_map := ?m, ch_sent := (ch_sent s)[k := True]\<rparr>"
  have begun: "chat_step run s ?t" by (rule chat_deliver [OF assms(1,3) call(2,1)])
  obtain m where m: "map_step\<^sup>*\<^sup>* ?m m" "\<not> mp_fatal m" "mp_writer m = None" "mp_todo m = (mp_todo ?m)[k := []]"
    using run_alone [of ?m k "ws_ops call" "[]"] assms(1-4) by auto
  have same: "?t\<lparr>ch_map := ?m\<rparr> = ?t" by simp
  have "(chat_step run)\<^sup>*\<^sup>* ?t (?t\<lparr>ch_map := m\<rparr>)"
    using chat_accesses [OF m(1), of run ?t] unfolding same .
  with begun have "(chat_step run)\<^sup>*\<^sup>* s (?t\<lparr>ch_map := m\<rparr>)" by (rule converse_rtranclp_into_rtranclp)
  moreover have "mp_todo m = mp_todo (ch_map s)" using m(4) assms(5) list_update_id [of "mp_todo (ch_map s)" k] by simp
  moreover have "(ch_sent s)[k := True] ! j" if "ch_sent s ! j" for j
    using that assms(3,6) by (cases "j = k") simp_all
  ultimately show ?thesis using m(2,3) assms(3,6) by (intro exI [of _ "?t\<lparr>ch_map := m\<rparr>"]) simp
qed (use assms(1,2) in \<open>auto intro: exI [of _ s]\<close>)

text \<open>
  A request that is served alone, and is no heartbeat, gets the answer of its handler and leaves the database its
  handler leaves, and everything it started is done.
\<close>

lemma chat_alone:
  assumes "announce_ops req = []" and "slack_handle run ws req d = (v, d')"
  shows "\<exists>s as. (chat_step run)\<^sup>*\<^sup>* (chat_init d ws [req]) s \<and> ch_server s = \<lparr>cs_db = d', cs_reqs = [(req, as)]\<rparr> \<and>
    chat_done s \<and> chat_answer 0 s = Some v"
proof -
  have "slack_handle run Map.empty req d = (v, d')" using assms(2) handle_blind [of run ws] by metis
  then obtain as where *: "slack_handle replay_run Map.empty req (as, None) = (v, ([], None))"
      "alone run (slack_handle replay_run Map.empty req) d as d'"
    using same_prog_alone [OF same_handle, of run Map.empty req d] by auto
  let ?S = "\<lparr>cs_db = d', cs_reqs = [(req, as)]\<rparr>"
  let ?s = "chat_init d ws [req]\<lparr>ch_server := ?S\<rparr>"
  have last: "next_stmt Map.empty req as = None" "outcome_of Map.empty req as = v"
    using *(1) by (simp_all add: next_stmt_def outcome_of_def)
  have s: "(chat_step run)\<^sup>*\<^sup>* (chat_init d ws [req]) ?s"
    using chat_stmts_alone [OF alone_cs_run [OF *(2)], of ws] assms(1) by simp
  have quiet: "\<not> mp_fatal (ch_map ?s)" "mp_writer (ch_map ?s) = None" "mp_todo (ch_map ?s) = [[], []]" "length (ch_sent ?s) = 2"
    using assms(1) by (simp_all add: chat_init_def map_init_def)
  obtain t where t: "(chat_step run)\<^sup>*\<^sup>* ?s t" "ch_server t = ?S" "\<not> mp_fatal (ch_map t)" "mp_writer (ch_map t) = None"
      "mp_todo (ch_map t) = [[], []]" "call_at ?S 0 = None \<or> ch_sent t ! 0" "length (ch_sent t) = 2"
    using chat_call_done [of ?s 0 run] quiet by auto
  obtain u where u: "(chat_step run)\<^sup>*\<^sup>* t u" "ch_server u = ?S" "mp_todo (ch_map u) = [[], []]"
      "call_at ?S 1 = None \<or> ch_sent u ! 1" "ch_sent t ! 0 \<longrightarrow> ch_sent u ! 0"
    using chat_call_done [of t 1 run] t by auto
  have run: "(chat_step run)\<^sup>*\<^sup>* (chat_init d ws [req]) u" using s t(1) u(1) by (meson rtranclp_trans)
  have "chat_done u"
    using last(1) u t(6) by (auto simp: chat_done_def cs_done_def less_2_cases_iff numeral_2_eq_2 less_Suc_eq)
  moreover have "chat_answer 0 u = Some v"
    using last u t(6) by (auto simp: chat_answer_def call_at_def)
  ultimately show ?thesis using run u(2) by blast
qed

text \<open>
  Every run of the whole server ends, and when the runtime has not ended the process, everything is done and every request has its answer:
  the properties below speak of what every run comes to.
\<close>

lemma chat_ends:
  assumes "(chat_step run)\<^sup>*\<^sup>* (chat_init d ws reqs) s"
  shows "((\<nexists>t. chat_step run s t) \<longleftrightarrow> mp_fatal (ch_map s) \<or> chat_done s) \<and>
    (chat_done s \<longrightarrow> (\<forall>i < length reqs. chat_answer i s \<noteq> None)) \<and>
    (\<nexists>f. f 0 = s \<and> (\<forall>n. chat_step run (f n) (f (Suc n))))"
proof (intro conjI notI)
  have inv: "chat_inv run d ws reqs s" by (rule chat.reachable_inv [OF refl assms])
  then show "(\<nexists>t. chat_step run s t) \<longleftrightarrow> mp_fatal (ch_map s) \<or> chat_done s" by (rule chat_stuck)
  show "chat_done s \<longrightarrow> (\<forall>i < length reqs. chat_answer i s \<noteq> None)" using chat_done_answers [OF inv] by blast
  assume "\<exists>f. f 0 = s \<and> (\<forall>n. chat_step run (f n) (f (Suc n)))"
  then obtain f where f: "f 0 = s" "\<And>n. chat_step run (f n) (f (Suc n))" by blast
  have invs: "chat_inv run d ws reqs (f n)" for n
    by (induction n) (use inv f in \<open>auto intro: chat_step_inv\<close>)
  have "\<forall>n. (chat_left (f (Suc n)), chat_left (f n)) \<in> less_than <*lex*> less_than"
    using chat_step_left [OF invs f(2)] by (rule allI)
  then have "\<exists>g. \<forall>n. (g (Suc n), g n) \<in> less_than <*lex*> less_than"
    by (rule exI [of _ "\<lambda>n. chat_left (f n)"])
  moreover have "wf (less_than <*lex*> less_than)" by blast
  ultimately show False unfolding wf_iff_no_infinite_down_chain by blast
qed

subsection \<open>Properties\<close>

text \<open>
  C3. A message in the whole server, whatever other requests and heartbeats are served at the same
  time, and whichever statements of them fail. If it is answered with 200, it is stored exactly once, with the
  sender and the channel of its path, and it has been delivered: every emission goes to a member
  of that channel other than the sender, over a connection that this user had at the start or announced by a
  heartbeat, and says the sender's name and the text; and a user whose connection did not change is sent it as
  many times as it is a member: at least once for each membership there was at the start, and at most once for each there is now.
\<close>

theorem chat_message:
  assumes "slack_server run tables R" and "rules_ok R"
    and "(chat_step run)\<^sup>*\<^sup>* (chat_init d ws reqs) s" and "i < length reqs" and "reqs ! i = ReqSendMessage up t sid cid body"
    and "chat_answer i s = Some (Http w)" and "rw_status w = Some 200"
  shows "\<exists>m name.
    stored R Map.empty (cs_reqs (ch_server s) ! i) = [m] \<and> m \<in> set (messages (tables (cs_db (ch_server s)))) \<and>
    decode_request body = Some (Msg m) \<and> store_int R sid = Some (SenderID m) \<and> store_int R cid = Some (msg_ChannelID m) \<and>
    (name = [] \<or> (\<exists>us \<in> set (users (tables (cs_db (ch_server s)))). eq_int R sid (uId us) \<and> UserName us = name)) \<and>
    (\<forall>(u, c, l) \<in> set (chat_emitted i s).
       u \<noteq> fst (atoi sid) \<and> u \<in> set (members_of R cid (tables (cs_db (ch_server s)))) \<and> l = name @ '':'' @ Msg m \<and>
       (ws u = Some c \<or> (\<exists>req \<in> set reqs. announcement req = Some (u, c)))) \<and>
    (\<forall>u c. u \<noteq> fst (atoi sid) \<and> ws u = Some c \<and> (\<forall>req \<in> set reqs. \<forall>c'. announcement req = Some (u, c') \<longrightarrow> c' = c) \<longrightarrow>
       count_list (members_of R cid (tables d)) u \<le> count_list (chat_emitted i s) (u, c, name @ '':'' @ Msg m) \<and>
       count_list (chat_emitted i s) (u, c, name @ '':'' @ Msg m) \<le> count_list (members_of R cid (tables (cs_db (ch_server s)))) u)"
proof -
  let ?progs = "chat_progs reqs s" and ?now = "tables (cs_db (ch_server s))"
  note half = chat_run [OF assms(3)]
  obtain as where ra: "cs_reqs (ch_server s) ! i = (ReqSendMessage up t sid cid body, as)"
    using request_at [OF half(1) assms(4)] assms(5) by auto
  have i: "i < length (cs_reqs (ch_server s))" using half(2) assms(4) by simp
  have w: "outcome_of Map.empty (ReqSendMessage up t sid cid body) as = Http w"
    and finished: "mp_todo (ch_map s) ! i = []" "delivery (ReqSendMessage up t sid cid body) as \<noteq> None \<Longrightarrow> ch_sent s ! i"
    using assms(6) ra by (auto simp: chat_answer_def split: if_splits)
  obtain m where m: "stored R Map.empty (cs_reqs (ch_server s) ! i) = [m]" "m \<in> set (messages ?now)"
      "decode_request body = Some (Msg m)" "store_int R sid = Some (SenderID m)" "store_int R cid = Some (msg_ChannelID m)"
    using slack_server.answered_message [OF assms(1) half(3) i ra w assms(7)] by blast
  obtain ms name where del: "delivery (ReqSendMessage up t sid cid body) as = Some (Deliver ms (Msg m) name)"
    using sendMessage_delivers [OF w assms(7) m(3)] by blast
  have "answers_ok R Map.empty (tables d) ?now (ReqSendMessage up t sid cid body, as)"
    using slack_server.cs_run_answers [OF assms(1) half(3)] i ra by (metis list_all_length)
  from delivery_from_tables [OF this assms(2) del] obtain T where T: "tables_grown (tables d) T" "tables_grown T ?now"
    and ms: "mset (map UserID ms) = mset (filter (\<lambda>u. u \<noteq> fst (atoi sid)) (members_of R cid T))"
    and name: "name = [] \<or> (\<exists>us \<in> set (users ?now). eq_int R sid (uId us) \<and> UserName us = name)" by blast
  have emitted: "chat_emitted i s = emissions (Deliver ms (Msg m) name) (reads_of i (ch_map s))"
    by (simp add: chat_emitted_def ra del)
  have prog: "i < length ?progs" "?progs ! i = ws_ops (Deliver ms (Msg m) name)"
    using finished(2) assms(4) ra del half(2) by (simp_all add: chat_prog_def call_at_def)
  have "u \<noteq> fst (atoi sid) \<and> u \<in> set (members_of R cid ?now) \<and> l = name @ '':'' @ Msg m \<and>
      (ws u = Some c \<or> (\<exists>req \<in> set reqs. announcement req = Some (u, c)))"
    if e: "(u, c, l) \<in> set (chat_emitted i s)" for u c l
  proof -
    note legal = delivery_legal [OF half(4) prog(1) e [unfolded emitted]]
    have "u \<in> set (map UserID ms)"
      using delivery_users [OF half(4) prog] e unfolding emitted by (force elim: list_emb_set)
    then have "u \<in> set (filter (\<lambda>u. u \<noteq> fst (atoi sid)) (members_of R cid T))" using mset_eq_setD [OF ms] by simp
    then show ?thesis
      using legal chat_may_read [of ws reqs s u c] set_mono_prefix [OF members_of_grows [OF T(2)]] by auto
  qed
  moreover have "count_list (members_of R cid (tables d)) u \<le> count_list (chat_emitted i s) (u, c, name @ '':'' @ Msg m) \<and>
      count_list (chat_emitted i s) (u, c, name @ '':'' @ Msg m) \<le> count_list (members_of R cid ?now) u"
    if u: "u \<noteq> fst (atoi sid)" "ws u = Some c" "\<forall>req \<in> set reqs. \<forall>c'. announcement req = Some (u, c') \<longrightarrow> c' = c" for u c
  proof -
    have "c' = c" if "may_read ws ?progs u (Some c')" for c'
      using chat_may_read [OF that] u(2,3) by auto
    from delivery_served [OF half(4) prog finished(1) u(2) this]
    show ?thesis unfolding emitted using delivered_counts [OF ms u(1) T] by simp
  qed
  ultimately show ?thesis using m name by (intro exI [of _ m] exI [of _ name]) auto
qed

subsubsection \<open>Witnesses\<close>

lemma decode_hi: "decode_request (Some (JObj [(''msg'', JStr ''hi'')])) = Some ''hi''"
  by code_simp

theorem chat_message_witness:
  "\<exists>s w. (chat_step plain_run)\<^sup>*\<^sup>* (chat_init ((fresh_db one_channel)\<lparr>fd_next := 10\<rparr>) bob_online
        [ReqSendMessage True 0 (show_int 1) (show_int 5) (Some (JObj [(''msg'', JStr ''hi'')]))]) s \<and>
     chat_answer 0 s = Some (Http w) \<and> rw_status w = Some 200 \<and>
     (\<exists>name. 1 \<le> count_list (chat_emitted 0 s) (2, ''conn-b'', name @ '':hi''))"
proof -
  let ?body = "Some (JObj [(''msg'', JStr ''hi'')])" and ?d = "(fresh_db one_channel)\<lparr>fd_next := 10\<rparr>"
  let ?req = "ReqSendMessage True 0 (show_int 1) (show_int 5) ?body"
  obtain w d' emits where "sendMessage plain_run True 0 (show_int 1) (show_int 5) ?body bob_online ?d = (w, d', emits)"
    and status: "rw_status w = Some 200"
    by (simp add: sendMessage_def decode_hi concrete)
  then have w: "slack_handle plain_run bob_online ?req ?d = (Http w, d')" "rw_status w = Some 200"
    by (simp_all add: slack_handle_def)
  have "announce_ops ?req = []" by (simp add: announce_ops_def announcement_def)
  from chat_alone [OF this w(1)]
  obtain s where s: "(chat_step plain_run)\<^sup>*\<^sup>* (chat_init ?d bob_online [?req]) s" "chat_answer 0 s = Some (Http w)" by blast
  have "in_int64 1" by (simp add: in_int64_def)
  from atoi_show_int [OF this] have "fst (atoi (show_int 1)) = 1" by (metis fst_conv)
  then have ids: "fst (atoi (show_int 1)) = 1" "announcement ?req = None" by (simp_all add: announcement_def)
  have one: "0 < length [?req]" by simp
  from chat_message [OF sl_faulty.slack_server_axioms plain_rules_ok s(1) one nth_Cons_0 s(2) w(2)]
  have "\<exists>name. count_list (members_of plain_rules (show_int 5) (fd_tables ?d)) 2 \<le> count_list (chat_emitted 0 s) (2, ''conn-b'', name @ '':hi'')"
  proof (elim exE conjE, goal_cases)
    case (1 m name)
    have "Msg m = ''hi''" using 1(3) by (simp add: decode_hi)
    then show ?case
      using spec [OF spec [OF 1(8), of 2], of "''conn-b''"] ids by (intro exI [of _ name]) (simp add: bob_online_def)
  qed
  then obtain name where served:
    "count_list (members_of plain_rules (show_int 5) (fd_tables ?d)) 2 \<le> count_list (chat_emitted 0 s) (2, ''conn-b'', name @ '':hi'')" ..
  have "count_list (members_of plain_rules (show_int 5) one_channel) 2 = 1"
    using plain_rules_ok by (simp add: members_of_def one_channel_def two_users_def rules_ok_def)
  then have "1 \<le> count_list (chat_emitted 0 s) (2, ''conn-b'', name @ '':hi'')" using served by (simp add: fresh_db_def)
  with s w(2) show ?thesis by blast
qed

end
