(* ===== verification/Slack_Openings.thy ===== *)
theory Slack_Openings
  imports Slack_System
begin

text \<open>
  Opening a channel in the whole chat server of \<open>slack/main.go\<close>: the goroutine that \<open>createChannel\<close> starts
  after it has stored the first message, and who hears of the channel.
\<close>

subsection \<open>What is delivered\<close>

text \<open>What the goroutine that request \<open>i\<close> started has emitted.\<close>

definition opening_emitted :: "nat \<Rightarrow> 'db chat_sys \<Rightarrow> (int \<times> conn \<times> string) list" where
  "opening_emitted i s =
     (case cs_reqs (ch_server s) ! i of (req, as) \<Rightarrow>
        (case spawned req as of
           None \<Rightarrow> []
         | Some call \<Rightarrow> emissions call (reads_of (length (cs_reqs (ch_server s)) + i) (ch_map s))))"

abbreviation id_or_zero :: "int option \<Rightarrow> int" where
  "id_or_zero found \<equiv> (case found of None \<Rightarrow> 0 | Some i \<Rightarrow> i)"

lemma spawned_call:
  assumes "spawned (ReqCreateChannel up t sn rn) as = Some call"
  shows "\<exists>r1 r2 r3 r4 r5 rest f1 f2. as = Inr r1 # Inr r2 # Inr r3 # Inr r4 # Inr r5 # rest \<and>
    query_row scan_id (res_rows r2) = Some f2 \<and>
    call = Deliver [\<lparr>MembershipID = 0, mem_ChannelID = res_last_id r4, UserID = id_or_zero f2\<rparr>] (created_text rn) sn \<and>
    next_stmt Map.empty (ReqCreateChannel up t sn rn) [Inr r1] = Some (SelUserId rn) \<and>
    next_stmt Map.empty (ReqCreateChannel up t sn rn) [Inr r1, Inr r2, Inr r3, Inr r4] =
      Some (InsMessage (VInt (id_or_zero f1)) (VInt (res_last_id r4)) (created_text rn) t)"
proof -
  obtain r1 r2 r3 r4 r5 rest where as: "as = Inr r1 # Inr r2 # Inr r3 # Inr r4 # Inr r5 # rest"
    using spawned_after [OF assms] by blast
  have five: "spawned (ReqCreateChannel up t sn rn) [Inr r1, Inr r2, Inr r3, Inr r4, Inr r5] = Some call"
    using assms spawned_settled unfolding as by metis
  obtain f1 where f1: "query_row scan_id (res_rows r1) = Some f1"
    using five by (auto simp: spawned_def createChannel_def with_user_id_def db_try_def split: option.splits)
  obtain f2 where f2: "query_row scan_id (res_rows r2) = Some f2"
    using five f1 by (auto simp: spawned_def createChannel_def with_user_id_def db_try_def split: option.splits)
  obtain chs where chs: "scan_rows scan_channel (res_rows r3) = Some chs" "ChannelID (if chs = [] then new_channel else last chs) = 0"
    using five f1 f2
    by (auto simp: spawned_def createChannel_def with_user_id_def show_channel_def db_try_def Let_def split: option.splits if_splits)
  note handler = createChannel_def with_user_id_def open_channel_def db_try_def Let_def
  have "call = Deliver [\<lparr>MembershipID = 0, mem_ChannelID = res_last_id r4, UserID = id_or_zero f2\<rparr>] (created_text rn) sn"
    using five f1 f2 chs by (simp add: spawned_def handler split: prod.splits sum.splits)
  moreover have "next_stmt Map.empty (ReqCreateChannel up t sn rn) [Inr r1] = Some (SelUserId rn)"
    using f1 by (simp add: next_stmt_def slack_handle_def handler)
  moreover have "next_stmt Map.empty (ReqCreateChannel up t sn rn) [Inr r1, Inr r2, Inr r3, Inr r4] =
      Some (InsMessage (VInt (id_or_zero f1)) (VInt (res_last_id r4)) (created_text rn) t)"
    using f1 f2 chs by (simp add: next_stmt_def slack_handle_def handler)
  ultimately show ?thesis using as f2 by blast
qed

text \<open>A handler is at its insert of the first message only after four answers, and starts the goroutine right after the fifth.\<close>

lemma replay_failure:
  "replay_run q e = (Inl err, e') \<longleftrightarrow>
    (\<exists>bs. e = (Inl err # bs, None) \<and> e' = (bs, None)) \<or> err = ''pending'' \<and> (e = ([], None) \<and> e' = ([], Some q) \<or> (\<exists>bs p. e = (bs, Some p) \<and> e' = e))"
  by (cases "(q, e)" rule: replay_run.cases) auto

lemma opening_insert:
  assumes "next_stmt Map.empty (ReqCreateChannel up t sn rn) xs = Some (InsMessage a b m u)"
  shows "spawned (ReqCreateChannel up t sn rn) (xs @ [Inr r]) \<noteq> None"
proof -
  have "\<exists>r1 r2 r3 r4. xs = [Inr r1, Inr r2, Inr r3, Inr r4]"
    using assms
    by (auto simp: next_stmt_def slack_handle_def createChannel_def with_user_id_def open_channel_def show_channel_def db_try_def Let_def
        replay_success replay_failure split: prod.splits sum.splits option.splits if_splits)
  then obtain r1 r2 r3 r4 where xs: "xs = [Inr r1, Inr r2, Inr r3, Inr r4]" by blast
  show ?thesis
    using assms unfolding xs
    by (auto simp: next_stmt_def slack_handle_def spawned_def createChannel_def with_user_id_def open_channel_def show_channel_def
        db_try_def Let_def split: option.splits if_splits)
qed

lemma stored_member:
  "m \<in> set (stored R ws (req, as)) \<longleftrightarrow>
    (\<exists>k < length as. \<exists>q. next_stmt ws req (take k as) = Some q \<and> m \<in> set (inserted R q (as ! k)))"
proof (induction as rule: rev_induct)
  case Nil
  show ?case by (simp add: stored_def)
next
  case (snoc a as)
  have "stored R ws (req, as @ [a]) =
      stored R ws (req, as) @ (case next_stmt ws req as of None \<Rightarrow> [] | Some q \<Rightarrow> inserted R q a)"
    by (simp add: stored_def stored_after_append)
  then have "m \<in> set (stored R ws (req, as @ [a])) \<longleftrightarrow>
      m \<in> set (stored R ws (req, as)) \<or> (\<exists>q. next_stmt ws req as = Some q \<and> m \<in> set (inserted R q a))"
    by (auto split: option.splits)
  also have "\<dots> \<longleftrightarrow> (\<exists>k < length (as @ [a]). \<exists>q. next_stmt ws req (take k (as @ [a])) = Some q \<and> m \<in> set (inserted R q ((as @ [a]) ! k)))"
    unfolding snoc.IH by (auto simp: less_Suc_eq nth_append)
  finally show ?case .
qed

lemma inserted_stmt: "m \<in> set (inserted R q a) \<Longrightarrow> \<exists>x y n t r. q = InsMessage x y n t \<and> a = Inr r"
  by (auto simp: inserted_def split: slack_stmt.splits sum.splits)

lemma spawned_longer: "spawned req as \<noteq> None \<Longrightarrow> spawned req (as @ bs) = spawned req as"
proof (induction bs rule: rev_induct)
  case (snoc b bs)
  then obtain call where "spawned req (as @ bs) = Some call" by fastforce
  from spawned_kept [OF this, of b] snoc this show ?case by simp
qed simp

lemma stored_spawns:
  assumes "stored R Map.empty (ReqCreateChannel up t sn rn, as) \<noteq> []"
  shows "spawned (ReqCreateChannel up t sn rn) as \<noteq> None"
proof -
  obtain m where "m \<in> set (stored R Map.empty (ReqCreateChannel up t sn rn, as))" using assms by (meson last_in_set)
  then obtain k q where k: "k < length as" "next_stmt Map.empty (ReqCreateChannel up t sn rn) (take k as) = Some q" "m \<in> set (inserted R q (as ! k))"
    unfolding stored_member by blast
  then obtain x y n u r where "q = InsMessage x y n u" "as ! k = Inr r" using inserted_stmt by blast
  then have "spawned (ReqCreateChannel up t sn rn) (take (Suc k) as) \<noteq> None"
    using opening_insert [of up t sn rn "take k as" x y n u r] k(1,2) by (simp add: take_Suc_conv_app_nth)
  from spawned_longer [OF this, of "drop (Suc k) as"] this show ?thesis by simp
qed

text \<open>The answer to the query for a name is an id of that name, or there is none.\<close>

lemma named_id_selected:
  assumes "rules_ok R" and "slack_sem R (SelUserId n) i T = Some (r, T')" and "query_row scan_id (res_rows r) = Some f"
  shows "named_id R T n (id_or_zero f)"
proof -
  let ?match = "reorder R i (filter (\<lambda>u. collate_eq R n (UserName u)) (users T))"
  have mem: "set ?match = {u \<in> set (users T). collate_eq R n (UserName u)}" using assms(1) by auto
  have row: "query_row scan_id (map (\<lambda>u. [VInt (uId u)]) ?match) = Some f" using assms(2,3) by auto
  show ?thesis
  proof (cases ?match)
    case Nil
    with mem row show ?thesis by (auto simp: named_id_def)
  next
    case (Cons u us)
    with mem have "u \<in> set (users T)" "collate_eq R n (UserName u)" by auto
    with Cons row show ?thesis by (auto simp: named_id_def scan_id_def)
  qed
qed

text \<open>The receiver and the stored message, from the tables at some points of the run.\<close>

lemma spawned_from_tables:
  assumes "answers_ok R Map.empty T0 T1 (ReqCreateChannel up t sn rn, as)" and "rules_ok R"
    and "spawned (ReqCreateChannel up t sn rn) as = Some call"
  shows "\<exists>c u m T. call = Deliver [\<lparr>MembershipID = 0, mem_ChannelID = c, UserID = u\<rparr>] (created_text rn) sn \<and>
    tables_grown T0 T \<and> tables_grown T T1 \<and> named_id R T rn u \<and>
    m \<in> set (stored R Map.empty (ReqCreateChannel up t sn rn, as)) \<and> Msg m = created_text rn \<and> msg_ChannelID m = c \<and> CreatedAt m = store_time R t"
proof -
  let ?req = "ReqCreateChannel up t sn rn"
  obtain r1 r2 r3 r4 r5 rest f1 f2 where as: "as = Inr r1 # Inr r2 # Inr r3 # Inr r4 # Inr r5 # rest"
    and f2: "query_row scan_id (res_rows r2) = Some f2"
    and call: "call = Deliver [\<lparr>MembershipID = 0, mem_ChannelID = res_last_id r4, UserID = id_or_zero f2\<rparr>] (created_text rn) sn"
    and q2: "next_stmt Map.empty ?req [Inr r1] = Some (SelUserId rn)"
    and q5: "next_stmt Map.empty ?req [Inr r1, Inr r2, Inr r3, Inr r4] =
      Some (InsMessage (VInt (id_or_zero f1)) (VInt (res_last_id r4)) (created_text rn) t)"
    using spawned_call [OF assms(3)] by blast
  have "\<exists>i T T'. slack_sem R (SelUserId rn) i T = Some (r2, T') \<and> tables_grown T0 T \<and> tables_grown T T1"
    using q2 by (intro answer_given [OF assms(1), of 1]) (simp_all add: as)
  then obtain i T T' where sem: "slack_sem R (SelUserId rn) i T = Some (r2, T')" and T: "tables_grown T0 T" "tables_grown T T1" by blast
  have "named_id R T rn (id_or_zero f2)" using named_id_selected [OF assms(2) sem f2] .
  moreover have "\<exists>i S S'. slack_sem R (InsMessage (VInt (id_or_zero f1)) (VInt (res_last_id r4)) (created_text rn) t) i S = Some (r5, S') \<and>
      tables_grown T0 S \<and> tables_grown S T1"
    using q5 by (intro answer_given [OF assms(1), of 4]) (simp_all add: as numeral_eq_Suc)
  then obtain j S S' where ins: "slack_sem R (InsMessage (VInt (id_or_zero f1)) (VInt (res_last_id r4)) (created_text rn) t) j S = Some (r5, S')"
    by blast
  then obtain m where m: "m \<in> set (inserted R (InsMessage (VInt (id_or_zero f1)) (VInt (res_last_id r4)) (created_text rn) t) (Inr r5))"
      "Msg m = created_text rn" "msg_ChannelID m = res_last_id r4" "CreatedAt m = store_time R t"
    by (auto simp: inserted_def split: if_splits)
  have "m \<in> set (stored R Map.empty (?req, as))"
    unfolding stored_member using q5 m(1) by (intro exI [of _ 4]) (simp add: as numeral_eq_Suc)
  ultimately show ?thesis using call T m by blast
qed

text \<open>Who a name stood for is who it stands for now, or nobody.\<close>

lemma named_id_grown:
  assumes "named_id R T n u" and "tables_grown T T'"
  shows "u = 0 \<or> (\<exists>us \<in> set (users T'). uId us = u \<and> collate_eq R n (UserName us))"
  using assms(1) tables_grown_user [OF assms(2)] unfolding named_id_def by metis

lemma named_id_known:
  assumes "named_id R T n u" and "tables_grown T0 T" and "tables_grown T T'" and "us \<in> set (users T0)" and "collate_eq R n (UserName us)"
    and "\<forall>us \<in> set (users T'). collate_eq R n (UserName us) \<longrightarrow> uId us = k"
  shows "u = k"
proof -
  obtain us' where "us' \<in> set (users T)" "collate_eq R n (UserName us')"
    using tables_grown_user [OF assms(2,4)] assms(5) by metis
  then obtain v where "v \<in> set (users T)" "collate_eq R n (UserName v)" "uId v = u"
    using assms(1) unfolding named_id_def by blast
  with tables_grown_user [OF assms(3)] assms(6) show ?thesis by metis
qed

subsection \<open>Properties\<close>

text \<open>
  C4. Who hears of a new channel, in the whole server and whatever runs beside it and fails. The goroutine emits at most once,
  over a connection that the receiver had at the start or announced by a heartbeat, the sender's name
  and the first message, and only when that message is stored; nobody else hears of it. (The receiver of an unknown
  name is user 0, and a heartbeat without a number announces user 0: a client that sent one hears of the channel.) When
  everything is done and the message was stored, a receiver whose name is known, and nobody else's, and whose connection did
  not change has been sent it exactly once.
\<close>

theorem chat_opening:
  assumes "slack_server run tables R" and "rules_ok R"
    and "(chat_step run)\<^sup>*\<^sup>* (chat_init d ws reqs) s" and "i < length reqs" and "reqs ! i = ReqCreateChannel up t sn rn"
  shows "length (opening_emitted i s) \<le> 1 \<and>
    (\<forall>(u, c, l) \<in> set (opening_emitted i s).
       l = sn @ '':'' @ created_text rn \<and> (ws u = Some c \<or> (\<exists>req \<in> set reqs. announcement req = Some (u, c))) \<and>
       (u = 0 \<or> (\<exists>us \<in> set (users (tables (cs_db (ch_server s)))). uId us = u \<and> collate_eq R rn (UserName us))) \<and>
       (\<exists>m \<in> set (messages (tables (cs_db (ch_server s)))). Msg m = created_text rn \<and> CreatedAt m = store_time R t)) \<and>
    (\<forall>u c. chat_done s \<and> stored R Map.empty (cs_reqs (ch_server s) ! i) \<noteq> [] \<and>
       (\<exists>us \<in> set (users (tables d)). collate_eq R rn (UserName us)) \<and>
       (\<forall>us \<in> set (users (tables (cs_db (ch_server s)))). collate_eq R rn (UserName us) \<longrightarrow> uId us = u) \<and>
       ws u = Some c \<and> (\<forall>req \<in> set reqs. \<forall>c'. announcement req = Some (u, c') \<longrightarrow> c' = c) \<longrightarrow>
       opening_emitted i s = [(u, c, sn @ '':'' @ created_text rn)])"
proof -
  let ?progs = "chat_progs reqs s" and ?now = "tables (cs_db (ch_server s))" and ?k = "length reqs + i"
  note half = chat_run [OF assms(3)]
  obtain as where ra: "cs_reqs (ch_server s) ! i = (ReqCreateChannel up t sn rn, as)"
    using request_at [OF half(1) assms(4)] assms(5) by auto
  show ?thesis
  proof (cases "spawned (ReqCreateChannel up t sn rn) as")
    case None
    then have "opening_emitted i s = []" "stored R Map.empty (cs_reqs (ch_server s) ! i) = []"
      using ra stored_spawns [of R up t sn rn as] by (auto simp: opening_emitted_def)
    then show ?thesis by simp
  next
    case (Some call)
    have "answers_ok R Map.empty (tables d) ?now (ReqCreateChannel up t sn rn, as)"
      using slack_server.cs_run_answers [OF assms(1) half(3)] assms(4) half(2) ra by (metis list_all_length)
    from spawned_from_tables [OF this assms(2) Some] obtain ch u m T
      where call: "call = Deliver [\<lparr>MembershipID = 0, mem_ChannelID = ch, UserID = u\<rparr>] (created_text rn) sn"
        and T: "tables_grown (tables d) T" "tables_grown T ?now" "named_id R T rn u"
        and m: "m \<in> set (stored R Map.empty (ReqCreateChannel up t sn rn, as))" "Msg m = created_text rn" "CreatedAt m = store_time R t"
      by blast
    have stored: "m \<in> set (messages ?now)"
      using slack_server.stored_in_table [OF assms(1) half(3), of i] assms(4) half(2) m(1) ra by auto
    have emitted: "opening_emitted i s = emissions call (reads_of ?k (ch_map s))"
      using ra Some half(2) by (simp add: opening_emitted_def)
    have k: "?k < length ?progs" using assms(4) by simp
    have prog: "?progs ! ?k = (if ch_sent s ! ?k then ws_ops call else [])"
      using assms(4) half(2) ra Some by (simp add: chat_prog_def call_at_def)
    have users: "subseq (map fst (opening_emitted i s)) [u]"
    proof (cases "ch_sent s ! ?k")
      case True
      then have "?progs ! ?k = ws_ops call" using prog by simp
      from delivery_users [OF half(4) k this [unfolded call]] show ?thesis by (simp add: emitted call)
    next
      case False
      with prog have "reads_of ?k (ch_map s) = []" using reads_in_order [OF half(4) k] by auto
      then show ?thesis by (simp add: emitted call)
    qed
    have one: "length (opening_emitted i s) \<le> 1" using list_emb_length [OF users] by simp
    have legal: "may_read ws ?progs v (Some c) \<and> l = sn @ '':'' @ created_text rn \<and> v = u"
      if "(v, c, l) \<in> set (opening_emitted i s)" for v c l
    proof -
      have "v \<in> set (map fst (opening_emitted i s))" using that by force
      from list_emb_set [OF users this] have "v = u" by auto
      with delivery_legal [OF half(4) k that [unfolded emitted call]] show ?thesis by simp
    qed
    have served: "opening_emitted i s = [(v, c, sn @ '':'' @ created_text rn)]"
      if fin: "chat_done s" and known: "\<exists>us \<in> set (users (tables d)). collate_eq R rn (UserName us)"
        "\<forall>us \<in> set (users ?now). collate_eq R rn (UserName us) \<longrightarrow> uId us = v"
        and c: "ws v = Some c" "\<forall>req \<in> set reqs. \<forall>c'. announcement req = Some (v, c') \<longrightarrow> c' = c" for v c
    proof -
      have v: "u = v" using named_id_known [OF T(3,1,2)] known by blast
      have "ch_sent s ! ?k" using fin assms(4) half(2) ra Some by (auto simp: chat_done_def call_at_def dest: spec [of _ ?k])
      moreover have "mp_todo (ch_map s) ! ?k = []"
        using fin assms(4) chat_inv_lengths(3) [OF chat.reachable_inv [OF refl assms(3)]] by (simp add: chat_done_def list_all_length)
      moreover have "c' = c" if "may_read ws ?progs v (Some c')" for c'
        using chat_may_read [OF that] c by auto
      ultimately have "count_list (opening_emitted i s) (v, c, sn @ '':'' @ created_text rn) = count_list (map UserID [\<lparr>MembershipID = 0, mem_ChannelID = ch, UserID = u\<rparr>]) v"
        using delivery_served [OF half(4) k _ _ c(1), of "[\<lparr>MembershipID = 0, mem_ChannelID = ch, UserID = u\<rparr>]" "created_text rn" sn] prog
        unfolding emitted call by simp
      then have "count_list (opening_emitted i s) (v, c, sn @ '':'' @ created_text rn) = 1" by (simp add: v)
      with one show ?thesis by (cases "opening_emitted i s") (auto split: if_splits)
    qed
    show ?thesis
    proof (intro conjI allI impI, rule one)
      show "\<forall>(v, c, l) \<in> set (opening_emitted i s). l = sn @ '':'' @ created_text rn \<and>
          (ws v = Some c \<or> (\<exists>req \<in> set reqs. announcement req = Some (v, c))) \<and>
          (v = 0 \<or> (\<exists>us \<in> set (users ?now). uId us = v \<and> collate_eq R rn (UserName us))) \<and>
          (\<exists>m \<in> set (messages ?now). Msg m = created_text rn \<and> CreatedAt m = store_time R t)"
        using legal chat_may_read named_id_grown [OF T(3,2)] stored m(2,3) by blast
    qed (use served in blast)
  qed
qed

text \<open>Ann opens a channel with Bob, who is connected.\<close>

theorem chat_opening_witness:
  "\<exists>s. (chat_step plain_run)\<^sup>*\<^sup>* (chat_init ((fresh_db two_users)\<lparr>fd_next := 10\<rparr>) bob_online [ReqCreateChannel True 0 ''ann'' ''bob'']) s \<and>
     opening_emitted 0 s = [(2, ''conn-b'', ''ann:channel created b/w you and bob'')]"
proof -
  let ?req = "ReqCreateChannel True 0 ''ann'' ''bob''" and ?d = "(fresh_db two_users)\<lparr>fd_next := 10\<rparr>"
  obtain w d' where w: "slack_handle plain_run bob_online ?req ?d = (Http w, d')"
      "fd_tables d' = opened 4 0 ''ann'' ''bob'' 1 2 (13, 14, 15, 16) two_users"
    by (simp add: slack_handle_def channel_defs concrete created_text_def opened_def)
  have none: "announcement ?req = None" "announce_ops ?req = []" by (simp_all add: announce_ops_def announcement_def)
  from chat_alone [OF none(2) w(1)] obtain s as where s: "(chat_step plain_run)\<^sup>*\<^sup>* (chat_init ?d bob_online [?req]) s"
    "ch_server s = \<lparr>cs_db = d', cs_reqs = [(?req, as)]\<rparr>" "chat_done s" by blast
  have "mset (messages (fd_tables d')) = mset (messages (fd_tables ?d)) + holdings (stored plain_rules Map.empty) [(?req, as)]"
    using slack_server.cs_run_messages [OF sl_faulty.slack_server_axioms chat_run(3) [OF s(1)]] s(2) by simp
  then have msg: "stored plain_rules Map.empty (?req, as) \<noteq> []" using w(2) by (auto simp: concrete opened_def)
  have "opening_emitted 0 s = [(2, ''conn-b'', ''ann'' @ '':'' @ created_text ''bob'')]"
    using chat_opening [OF sl_faulty.slack_server_axioms plain_rules_ok s(1), of 0 True 0 "''ann''" "''bob''"] s(2,3) msg w(2) none(1)
    by (auto simp: concrete opened_def bob_online_def)
  with s(1) show ?thesis by (auto simp: created_text_def)
qed

end
