(* ===== verification/Slack_Channels.thy ===== *)
theory Slack_Channels
  imports Slack_Openings
begin

text \<open>
  Channels and memberships under concurrent requests to the chat server of \<open>slack/main.go\<close>: what an answered
  \<open>createChannel\<close> has stored or shown, whatever runs beside it and fails, and that nothing else touches the
  memberships. What a request has added is read off its statements and the answers it had.
\<close>

subsection \<open>What a request adds to the memberships\<close>

definition members_inserted :: "slack_stmt \<Rightarrow> answer \<Rightarrow> Membership list" where
  "members_inserted q a =
     (case (q, a) of
        (InsMembership c u, Inr r) \<Rightarrow> [\<lparr>MembershipID = res_last_id r, mem_ChannelID = c, UserID = u\<rparr>]
      | _ \<Rightarrow> [])"

fun members_after :: "request \<Rightarrow> answer list \<Rightarrow> answer list \<Rightarrow> Membership list" where
  "members_after req past [] = []"
| "members_after req past (a # as) =
     (case next_stmt Map.empty req past of None \<Rightarrow> [] | Some q \<Rightarrow> members_inserted q a) @ members_after req (past @ [a]) as"

definition members_added :: "request \<times> answer list \<Rightarrow> Membership list" where
  "members_added ra = members_after (fst ra) [] (snd ra)"

lemma members_after_append:
  "members_after req past (as @ bs) = members_after req past as @ members_after req (past @ as) bs"
  by (induction as arbitrary: past) simp_all

lemma members_added_snoc:
  "next_stmt Map.empty req as = Some q \<Longrightarrow> members_added (req, as @ [a]) = members_added (req, as) @ members_inserted q a"
  by (simp add: members_added_def members_after_append)

lemma slack_sem_memberships:
  "slack_sem R q i T = Some (r, T') \<Longrightarrow> memberships T' = memberships T @ members_inserted q (Inr r)"
  by (cases q) (auto simp: members_inserted_def split: if_splits option.splits)

lemma members_inserted_failed [simp]: "members_inserted q (Inl e) = []"
  by (simp add: members_inserted_def split: slack_stmt.splits)

lemma stmts_blind: "next_stmt ws = next_stmt Map.empty" "outcome_of ws = outcome_of Map.empty"
  by (intro ext; simp add: next_stmt_def outcome_of_def handle_blind [of replay_run ws _ _ Map.empty])+

context slack_server
begin

lemma run_memberships: "run q d = (a, d') \<Longrightarrow> memberships (tables d') = memberships (tables d) @ members_inserted q a"
proof (cases a)
  case (Inl e)
  assume "run q d = (a, d')"
  with run_err [of q d e d'] Inl show ?thesis by simp
next
  case (Inr r)
  assume "run q d = (a, d')"
  with run_ok [of q d r d'] Inr slack_sem_memberships show ?thesis by blast
qed

lemma cs_run_memberships:
  assumes "(cs_step run ws)\<^sup>*\<^sup>* (cs_init d reqs) s"
  shows "\<exists>new. memberships (tables (cs_db s)) = memberships (tables d) @ new \<and> mset new = holdings members_added (cs_reqs s)"
  using assms
proof (induction rule: rtranclp_induct)
  case base
  have "holdings members_added (map (\<lambda>req. (req, [])) reqs) = {#}"
    by (induction reqs) (simp_all add: members_added_def)
  then show ?case by (simp add: cs_init_def)
next
  case (step s t)
  from step.hyps(2) show ?case
  proof cases
    case (cs_stmt i req as q a d')
    have "holdings members_added ((cs_reqs s)[i := (req, as @ [a])]) =
        holdings members_added (cs_reqs s) + mset (members_inserted q a)"
      using holdings_update [OF cs_stmt(2), of members_added "(req, as @ [a])"] cs_stmt(3)
        members_added_snoc [OF cs_stmt(4) [unfolded stmts_blind(1) [of ws]]] by simp
    with step.IH run_memberships [OF cs_stmt(5)] cs_stmt(1) show ?thesis by auto
  qed
qed

end

subsection \<open>What an answered \<open>createChannel\<close> has done\<close>

lemmas create_defs = createChannel_def with_user_id_def open_channel_def show_channel_def db_try_def Let_def

lemma created_answers:
  assumes "outcome_of Map.empty (ReqCreateChannel up t sn rn) as = Http w" and "rw_status w = Some 200"
  obtains r1 r2 r3 rest f1 f2 chs where "as = Inr r1 # Inr r2 # Inr r3 # rest" "query_row scan_id (res_rows r1) = Some f1"
    "query_row scan_id (res_rows r2) = Some f2" "scan_rows scan_channel (res_rows r3) = Some chs"
proof -
  note out = assms(1) [unfolded outcome_of_def slack_handle_def create_defs]
  obtain r1 rest1 f1 where 1: "as = Inr r1 # rest1" "query_row scan_id (res_rows r1) = Some f1"
    using out assms(2) by (auto simp: fail_text_def replay_success split: prod.splits sum.splits option.splits)
  obtain r2 rest2 f2 where 2: "rest1 = Inr r2 # rest2" "query_row scan_id (res_rows r2) = Some f2"
    using out assms(2) 1 by (auto simp: fail_text_def replay_success split: prod.splits sum.splits option.splits)
  obtain r3 rest chs where 3: "rest2 = Inr r3 # rest" "scan_rows scan_channel (res_rows r3) = Some chs"
    using out assms(2) 1 2 by (auto simp: fail_text_def replay_success split: prod.splits sum.splits option.splits if_splits)
  from that 1 2 3 show ?thesis by blast
qed

lemma created_opened:
  assumes "outcome_of Map.empty (ReqCreateChannel up t sn rn) (Inr r1 # Inr r2 # Inr r3 # rest) = Http w" and "rw_status w = Some 200"
    and "query_row scan_id (res_rows r1) = Some f1" and "query_row scan_id (res_rows r2) = Some f2"
    and "scan_rows scan_channel (res_rows r3) = Some chs" and "ChannelID (if chs = [] then new_channel else last chs) = 0"
  shows "\<exists>r4 r5 r6 r7 rest'. rest = Inr r4 # Inr r5 # Inr r6 # Inr r7 # rest'"
  using assms by (auto simp: outcome_of_def slack_handle_def create_defs fail_text_def replay_success split: prod.splits sum.splits)

lemma created_shown:
  assumes "outcome_of Map.empty (ReqCreateChannel up t sn rn) (Inr r1 # Inr r2 # Inr r3 # rest) = Http w" and "rw_status w = Some 200"
    and "query_row scan_id (res_rows r1) = Some f1" and "query_row scan_id (res_rows r2) = Some f2"
    and "scan_rows scan_channel (res_rows r3) = Some chs" and "ChannelID (if chs = [] then new_channel else last chs) \<noteq> 0"
  shows "\<exists>r4 rest' ms. rest = Inr r4 # rest' \<and> scan_rows scan_message (res_rows r4) = Some ms \<and>
    w = http_json up (JArr (map message_json ms)) new_response"
  using assms
  by (auto simp: outcome_of_def slack_handle_def create_defs fail_text_def replay_success split: prod.splits sum.splits option.splits if_splits)

text \<open>The statements of an answered request, one after the other.\<close>

lemma created_queries:
  assumes "query_row scan_id (res_rows r1) = Some f1" and "query_row scan_id (res_rows r2) = Some f2"
  shows "next_stmt Map.empty (ReqCreateChannel up t sn rn) [] = Some (SelUserId sn)"
    and "next_stmt Map.empty (ReqCreateChannel up t sn rn) [Inr r1] = Some (SelUserId rn)"
    and "next_stmt Map.empty (ReqCreateChannel up t sn rn) [Inr r1, Inr r2] = Some (SelChannels (id_or_zero f1) (id_or_zero f2))"
  using assms by (simp_all add: next_stmt_def slack_handle_def create_defs)

lemma created_open_stmts:
  assumes "query_row scan_id (res_rows r1) = Some f1" and "query_row scan_id (res_rows r2) = Some f2"
    and "scan_rows scan_channel (res_rows r3) = Some chs" and "ChannelID (if chs = [] then new_channel else last chs) = 0"
  shows "next_stmt Map.empty (ReqCreateChannel up t sn rn) [Inr r1, Inr r2, Inr r3] = Some (InsChannel ''DM'' (sn @ ''_'' @ rn))"
    and "next_stmt Map.empty (ReqCreateChannel up t sn rn) [Inr r1, Inr r2, Inr r3, Inr r4] =
      Some (InsMessage (VInt (id_or_zero f1)) (VInt (res_last_id r4)) (created_text rn) t)"
    and "next_stmt Map.empty (ReqCreateChannel up t sn rn) [Inr r1, Inr r2, Inr r3, Inr r4, Inr r5] =
      Some (InsMembership (res_last_id r4) (id_or_zero f1))"
    and "next_stmt Map.empty (ReqCreateChannel up t sn rn) [Inr r1, Inr r2, Inr r3, Inr r4, Inr r5, Inr r6] =
      Some (InsMembership (res_last_id r4) (id_or_zero f2))"
    and "next_stmt Map.empty (ReqCreateChannel up t sn rn) [Inr r1, Inr r2, Inr r3, Inr r4, Inr r5, Inr r6, Inr r7] = None"
    and "outcome_of Map.empty (ReqCreateChannel up t sn rn) [Inr r1, Inr r2, Inr r3, Inr r4, Inr r5, Inr r6, Inr r7] =
      Http (http_json up (JArr [message_json \<lparr>MessageID = res_last_id r5, SenderID = 0, msg_ChannelID = res_last_id r4,
        Msg = created_text rn, CreatedAt = zero_time\<rparr>]) new_response)"
  using assms by (simp_all add: next_stmt_def outcome_of_def slack_handle_def create_defs)

lemma created_show_stmts:
  assumes "query_row scan_id (res_rows r1) = Some f1" and "query_row scan_id (res_rows r2) = Some f2"
    and "scan_rows scan_channel (res_rows r3) = Some chs" and "chs \<noteq> []" and "ChannelID (last chs) \<noteq> 0"
  shows "next_stmt Map.empty (ReqCreateChannel up t sn rn) [Inr r1, Inr r2, Inr r3] = Some (SelMessages (ChannelID (last chs)))"
    and "next_stmt Map.empty (ReqCreateChannel up t sn rn) [Inr r1, Inr r2, Inr r3, Inr r4] = None"
  using assms by (simp_all add: next_stmt_def slack_handle_def create_defs split: option.splits)

text \<open>No answer comes after the end of a handler.\<close>

lemma answers_ok_ends:
  assumes "answers_ok R ws T0 T1 (req, as @ rest)" and "next_stmt ws req as = None"
  shows "rest = []"
proof (rule ccontr)
  assume "rest \<noteq> []"
  then have "\<exists>q. next_stmt ws req (take (length as) (as @ rest)) = Some q"
    using assms(1) unfolding answers_ok_def by (auto dest: spec [of _ "length as"])
  with assms(2) show False by simp
qed

text \<open>
  A channel opened between the users \<open>a\<close> and \<open>b\<close> on the way from \<open>T0\<close> to \<open>T1\<close>: at some point they shared no channel; a new
  \<open>DM\<close> channel is there, the request has stored the sender's and the receiver's membership of it and the first message,
  and nothing else, and the page shows that message without its sender and time.
\<close>

definition channel_opened ::
    "mysql_rules \<Rightarrow> slack_tables \<Rightarrow> slack_tables \<Rightarrow> time \<Rightarrow> string \<Rightarrow> string \<Rightarrow> int \<Rightarrow> int \<Rightarrow> request \<times> answer list \<Rightarrow> json \<Rightarrow> bool" where
  "channel_opened R T0 T1 t sn rn a b ra page \<longleftrightarrow>
     (\<exists>T c k1 k2 k. tables_grown T0 T \<and> tables_grown T T1 \<and> shared_channels a b T = [] \<and>
        c \<notin> set (map ChannelID (channels T0)) \<and>
        \<lparr>ChannelID = c, ChannelType = ''DM'', ChannelName = sn @ ''_'' @ rn\<rparr> \<in> set (channels T1) \<and>
        members_added ra = [\<lparr>MembershipID = k1, mem_ChannelID = c, UserID = a\<rparr>, \<lparr>MembershipID = k2, mem_ChannelID = c, UserID = b\<rparr>] \<and>
        stored R Map.empty ra =
          [\<lparr>MessageID = k, SenderID = a, msg_ChannelID = c, Msg = created_text rn, CreatedAt = store_time R t\<rparr>] \<and>
        page = JArr [message_json \<lparr>MessageID = k, SenderID = 0, msg_ChannelID = c, Msg = created_text rn, CreatedAt = zero_time\<rparr>])"

text \<open>A channel shown: one that the two shared at some point, with its ten newest messages of some point, and nothing stored.\<close>

definition channel_shown ::
    "mysql_rules \<Rightarrow> slack_tables \<Rightarrow> slack_tables \<Rightarrow> int \<Rightarrow> int \<Rightarrow> request \<times> answer list \<Rightarrow> json \<Rightarrow> bool" where
  "channel_shown R T0 T1 a b ra page \<longleftrightarrow>
     (\<exists>T T' ch i. tables_grown T0 T \<and> tables_grown T T1 \<and> tables_grown T0 T' \<and> tables_grown T' T1 \<and>
        ch \<in> set (shared_channels a b T) \<and> members_added ra = [] \<and> stored R Map.empty ra = [] \<and>
        page = JArr (map message_json (newest 10 (ChannelID ch) (reorder R i (messages T')))))"

lemma opening_answered:
  assumes "answers_ok R Map.empty T0 T1 (ReqCreateChannel up t sn rn, as)" and "rules_ok R" and "slack_wf T1"
    and "as = [Inr r1, Inr r2, Inr r3, Inr r4, Inr r5, Inr r6, Inr r7]"
    and "query_row scan_id (res_rows r1) = Some f1" and "query_row scan_id (res_rows r2) = Some f2"
    and "scan_rows scan_channel (res_rows r3) = Some chs" and "ChannelID (if chs = [] then new_channel else last chs) = 0"
  shows "channel_opened R T0 T1 t sn rn (id_or_zero f1) (id_or_zero f2) (ReqCreateChannel up t sn rn, as)
    (JArr [message_json \<lparr>MessageID = res_last_id r5, SenderID = 0, msg_ChannelID = res_last_id r4,
        Msg = created_text rn, CreatedAt = zero_time\<rparr>])"
proof -
  let ?a = "id_or_zero f1" and ?b = "id_or_zero f2" and ?c = "res_last_id r4"
  note st = created_queries [OF assms(5,6), of up t sn rn] created_open_stmts [OF assms(5-8), of up t sn rn]
  have given: "\<exists>i T T'. slack_sem R q i T = Some (r, T') \<and> tables_grown T0 T \<and> tables_grown T T1 \<and> tables_grown T' T1"
    if "k < length as" "as ! k = Inr r" "next_stmt Map.empty (ReqCreateChannel up t sn rn) (take k as) = Some q" for k q r
    by (rule answer_left [OF assms(1) that])
  obtain i T T' where T: "slack_sem R (SelChannels ?a ?b) i T = Some (r3, T')" "tables_grown T0 T" "tables_grown T T1"
    using given [of 2 r3] st(3) assms(4) by (auto simp: numeral_eq_Suc)
  have "chs = reorder R i (shared_channels ?a ?b T)" using T(1) assms(7) by auto
  moreover have "chs = []"
  proof (rule ccontr)
    assume *: "chs \<noteq> []"
    then have "last chs \<in> set (channels T)"
      using \<open>chs = _\<close> last_in_set [OF *] assms(2) by (auto simp: shared_channels_set)
    then have "last chs \<in> set (channels T1)" using T(3) by (auto simp: tables_grown_def dest: set_mono_prefix)
    then have "0 < ChannelID (last chs)" using assms(3) by (auto simp: slack_wf_def list_all_iff)
    with * assms(8) show False by simp
  qed
  ultimately have none: "shared_channels ?a ?b T = []" using assms(2) by (metis set_empty set_reorder)
  obtain j S S' where S: "slack_sem R (InsChannel ''DM'' (sn @ ''_'' @ rn)) j S = Some (r4, S')" "tables_grown T0 S" "tables_grown S' T1"
    using given [of 3 r4] st(4) assms(4) by (auto simp: numeral_eq_Suc)
  have row: "?c \<notin> set (map ChannelID (channels S))" "\<lparr>ChannelID = ?c, ChannelType = ''DM'', ChannelName = sn @ ''_'' @ rn\<rparr> \<in> set (channels S')"
    using S(1) unfolding slack_sem_insert_convs by (auto simp: fresh_id_def)
  then have new: "?c \<notin> set (map ChannelID (channels T0))"
      "\<lparr>ChannelID = ?c, ChannelType = ''DM'', ChannelName = sn @ ''_'' @ rn\<rparr> \<in> set (channels T1)"
    using S(2,3) by (auto simp: tables_grown_def dest: set_mono_prefix)
  have "4 < length as" "as ! 4 = Inr r5" "take 4 as = [Inr r1, Inr r2, Inr r3, Inr r4]" by (simp_all add: assms(4))
  then obtain l U U' where U: "slack_sem R (InsMessage (VInt ?a) (VInt ?c) (created_text rn) t) l U = Some (r5, U')"
    using given [of 4 r5] st(5) by metis
  have store: "store_arg R (VInt ?a) = Some ?a" "store_arg R (VInt ?c) = Some ?c"
    using U unfolding slack_sem_insert_convs by (metis option.discI store_arg.simps(1))+
  have "members_added (ReqCreateChannel up t sn rn, as) =
      [\<lparr>MembershipID = res_last_id r6, mem_ChannelID = ?c, UserID = ?a\<rparr>, \<lparr>MembershipID = res_last_id r7, mem_ChannelID = ?c, UserID = ?b\<rparr>]"
    unfolding members_added_def assms(4) using st by (simp add: members_inserted_def)
  moreover have "stored R Map.empty (ReqCreateChannel up t sn rn, as) =
      [\<lparr>MessageID = res_last_id r5, SenderID = ?a, msg_ChannelID = ?c, Msg = created_text rn, CreatedAt = store_time R t\<rparr>]"
    unfolding stored_def assms(4) using st store by (simp add: inserted_def)
  ultimately show ?thesis unfolding channel_opened_def using T(2,3) none new by blast
qed

lemma showing_answered:
  assumes "answers_ok R Map.empty T0 T1 (ReqCreateChannel up t sn rn, as)" and "rules_ok R"
    and "as = [Inr r1, Inr r2, Inr r3, Inr r4]"
    and "query_row scan_id (res_rows r1) = Some f1" and "query_row scan_id (res_rows r2) = Some f2"
    and "scan_rows scan_channel (res_rows r3) = Some chs" and "chs \<noteq> []" and "ChannelID (last chs) \<noteq> 0"
    and "scan_rows scan_message (res_rows r4) = Some ms"
  shows "channel_shown R T0 T1 (id_or_zero f1) (id_or_zero f2) (ReqCreateChannel up t sn rn, as) (JArr (map message_json ms))"
proof -
  let ?a = "id_or_zero f1" and ?b = "id_or_zero f2"
  note st = created_queries [OF assms(4,5), of up t sn rn] created_show_stmts [OF assms(4-8), of up t sn rn]
  have at: "2 < length as" "as ! 2 = Inr r3" "take 2 as = [Inr r1, Inr r2]" "3 < length as" "as ! 3 = Inr r4" "take 3 as = [Inr r1, Inr r2, Inr r3]"
    by (simp_all add: assms(3))
  obtain i T S where T: "slack_sem R (SelChannels ?a ?b) i T = Some (r3, S)" "tables_grown T0 T" "tables_grown T T1"
    using answer_given [OF assms(1) at(1,2)] st(3) at(3) by metis
  have "chs = reorder R i (shared_channels ?a ?b T)" using T(1) assms(6) by auto
  then have shared: "last chs \<in> set (shared_channels ?a ?b T)" using last_in_set [OF assms(7)] assms(2) by simp
  obtain j T' S' where T': "slack_sem R (SelMessages (ChannelID (last chs))) j T' = Some (r4, S')" "tables_grown T0 T'" "tables_grown T' T1"
    using answer_given [OF assms(1) at(4,5)] st(4) at(6) by metis
  have "ms = newest 10 (ChannelID (last chs)) (reorder R j (messages T'))" using T'(1) assms(9) by auto
  moreover have "members_added (ReqCreateChannel up t sn rn, as) = []"
    unfolding members_added_def assms(3) using st by (simp add: members_inserted_def)
  moreover have "stored R Map.empty (ReqCreateChannel up t sn rn, as) = []"
    unfolding stored_def assms(3) using st by (simp add: inserted_def)
  ultimately show ?thesis unfolding channel_shown_def using T(2,3) T'(2,3) shared by blast
qed

text \<open>An answered request has done one or the other, for the users its names stood for.\<close>

lemma channel_answered:
  assumes "answers_ok R Map.empty T0 T1 (ReqCreateChannel up t sn rn, as)" and "rules_ok R" and "slack_wf T1"
    and "outcome_of Map.empty (ReqCreateChannel up t sn rn) as = Http w" and "rw_status w = Some 200"
  shows "\<exists>a b page T T'. tables_grown T0 T \<and> tables_grown T T1 \<and> tables_grown T0 T' \<and> tables_grown T' T1 \<and>
    named_id R T sn a \<and> named_id R T' rn b \<and> w = http_json up page new_response \<and>
    (channel_opened R T0 T1 t sn rn a b (ReqCreateChannel up t sn rn, as) page \<or>
     channel_shown R T0 T1 a b (ReqCreateChannel up t sn rn, as) page)"
proof -
  let ?req = "ReqCreateChannel up t sn rn"
  obtain r1 r2 r3 rest f1 f2 chs where as: "as = Inr r1 # Inr r2 # Inr r3 # rest" and f: "query_row scan_id (res_rows r1) = Some f1"
    "query_row scan_id (res_rows r2) = Some f2" and chs: "scan_rows scan_channel (res_rows r3) = Some chs"
    using created_answers [OF assms(4,5)] by blast
  note ids = created_queries [OF f, of up t sn rn]
  obtain i T S where T: "slack_sem R (SelUserId sn) i T = Some (r1, S)" "tables_grown T0 T" "tables_grown T T1"
    using answer_given [OF assms(1), of 0 r1] ids(1) by (auto simp: as)
  obtain j T' S' where T': "slack_sem R (SelUserId rn) j T' = Some (r2, S')" "tables_grown T0 T'" "tables_grown T' T1"
    using answer_given [OF assms(1), of 1 r2] ids(2) by (auto simp: as)
  note named = named_id_selected [OF assms(2) T(1) f(1)] named_id_selected [OF assms(2) T'(1) f(2)]
  have "\<exists>page. w = http_json up page new_response \<and>
    (channel_opened R T0 T1 t sn rn (id_or_zero f1) (id_or_zero f2) (?req, as) page \<or>
     channel_shown R T0 T1 (id_or_zero f1) (id_or_zero f2) (?req, as) page)"
  proof (cases "ChannelID (if chs = [] then new_channel else last chs) = 0")
    case True
    obtain r4 r5 r6 r7 more where rest: "rest = Inr r4 # Inr r5 # Inr r6 # Inr r7 # more"
      using created_opened [OF assms(4) [unfolded as] assms(5) f chs True] by blast
    note st = created_open_stmts [OF f chs True, of up t sn rn]
    have "more = []"
      using answers_ok_ends [of R Map.empty T0 T1 ?req "[Inr r1, Inr r2, Inr r3, Inr r4, Inr r5, Inr r6, Inr r7]" more] assms(1) st(5)
      by (simp add: as rest)
    then have seven: "as = [Inr r1, Inr r2, Inr r3, Inr r4, Inr r5, Inr r6, Inr r7]" by (simp add: as rest)
    have "w = http_json up (JArr [message_json \<lparr>MessageID = res_last_id r5, SenderID = 0, msg_ChannelID = res_last_id r4,
        Msg = created_text rn, CreatedAt = zero_time\<rparr>]) new_response" using assms(4) st(6) seven by simp
    with opening_answered [OF assms(1-3) seven f chs True] show ?thesis by blast
  next
    case False
    then have some: "chs \<noteq> []" "ChannelID (last chs) \<noteq> 0" by (auto simp: new_channel_def split: if_splits)
    obtain r4 more ms where rest: "rest = Inr r4 # more" "scan_rows scan_message (res_rows r4) = Some ms"
      and w: "w = http_json up (JArr (map message_json ms)) new_response"
      using created_shown [OF assms(4) [unfolded as] assms(5) f chs False] by blast
    have "more = []"
      using answers_ok_ends [of R Map.empty T0 T1 ?req "[Inr r1, Inr r2, Inr r3, Inr r4]" more] assms(1) created_show_stmts(2) [OF f chs some]
      by (simp add: as rest)
    then have four: "as = [Inr r1, Inr r2, Inr r3, Inr r4]" by (simp add: as rest)
    with showing_answered [OF assms(1,2) four f chs some rest(2)] w show ?thesis by blast
  qed
  with T T' named show ?thesis by blast
qed

text \<open>No other request inserts a membership.\<close>

lemma replay_waiting: "snd (snd (replay_run q (bs, None))) = (if bs = [] then Some q else None)"
  by (cases bs) simp_all

lemma members_only_by_create:
  assumes "next_stmt Map.empty req past = Some (InsMembership c u)"
  shows "\<exists>up t sn rn. req = ReqCreateChannel up t sn rn"
proof (cases req)
  case (ReqCreateUser up t n)
  with assms show ?thesis
    by (auto simp: next_stmt_def slack_handle_def createUser_def db_try_def Let_def replay_success replay_failure
        split: prod.splits sum.splits option.splits if_splits)
next
  case (ReqSendMessage up t s c body)
  with assms show ?thesis
    by (auto simp: next_stmt_def slack_handle_def sendMessage_def db_try_def Let_def replay_success replay_failure
        split: prod.splits sum.splits option.splits if_splits)
next
  case (ReqStatus up t)
  with assms show ?thesis
    by (auto simp: next_stmt_def slack_handle_def slack_status_def db_try_def Let_def replay_success replay_failure
        split: prod.splits sum.splits option.splits if_splits)
next
  case (ReqHeartbeat t c msg)
  with assms show ?thesis
    by (auto simp: next_stmt_def slack_handle_def heartbeat_def db_try_def Let_def replay_success replay_failure
        split: prod.splits sum.splits option.splits if_splits json.splits simp: replay_waiting)
qed simp

lemma others_add_none:
  assumes "\<nexists>up t sn rn. req = ReqCreateChannel up t sn rn"
  shows "members_added (req, as) = []"
proof -
  have "members_inserted q a = []" if "next_stmt Map.empty req past = Some q" for q past a
    using members_only_by_create [of req past] that assms by (cases q) (auto simp: members_inserted_def)
  then have "members_after req past as = []" for past
    by (induction as arbitrary: past) (auto split: option.splits)
  then show ?thesis by (simp add: members_added_def)
qed

subsection \<open>Properties\<close>

text \<open>
  C5. Channels and memberships under any concurrent requests and any failures. The memberships are the old ones followed by new ones,
  and these are, counted with multiplicity, exactly those that \<open>createChannel\<close> requests have inserted; no other request adds any.
  A \<open>createChannel\<close> that is answered with 200 was for the users \<open>a\<close> and \<open>b\<close> that its two names stood for when it asked (user 0 for an unknown
  name), and has done one of two things. Either it has opened a channel, when the two shared none at that moment: a new \<open>DM\<close> channel of the
  two names, exactly one membership of it for \<open>a\<close> and one for \<open>b\<close>, exactly one message, from \<open>a\<close>, and that message is the page. Or it has
  stored nothing at all, and the page is the ten newest messages of a channel that the two shared.
\<close>

theorem slack_channels:
  assumes "slack_server run tables R" and "rules_ok R" and "slack_wf (tables d)" and "(cs_step run ws)\<^sup>*\<^sup>* (cs_init d reqs) s"
  shows "(\<exists>new. memberships (tables (cs_db s)) = memberships (tables d) @ new \<and> mset new = holdings members_added (cs_reqs s)) \<and>
    (\<forall>(req, as) \<in> set (cs_reqs s). (\<nexists>up t sn rn. req = ReqCreateChannel up t sn rn) \<longrightarrow> members_added (req, as) = []) \<and>
    (\<forall>up t sn rn as w. (ReqCreateChannel up t sn rn, as) \<in> set (cs_reqs s) \<and>
       outcome_of ws (ReqCreateChannel up t sn rn) as = Http w \<and> rw_status w = Some 200 \<longrightarrow>
       (\<exists>a b page T T'. tables_grown (tables d) T \<and> tables_grown T (tables (cs_db s)) \<and>
          tables_grown (tables d) T' \<and> tables_grown T' (tables (cs_db s)) \<and>
          named_id R T sn a \<and> named_id R T' rn b \<and> w = http_json up page new_response \<and>
          (channel_opened R (tables d) (tables (cs_db s)) t sn rn a b (ReqCreateChannel up t sn rn, as) page \<or>
           channel_shown R (tables d) (tables (cs_db s)) a b (ReqCreateChannel up t sn rn, as) page)))"
proof (intro conjI allI impI, goal_cases)
  case 1
  show ?case by (rule slack_server.cs_run_memberships [OF assms(1,4)])
next
  case 2
  show ?case using others_add_none by blast
next
  case (3 up t sn rn as w)
  have wf: "slack_wf (tables (cs_db s))"
    using slack_server.cs_run_wf [OF assms(1,4)] assms(3) by (simp add: cs_init_def)
  have "answers_ok R ws (tables d) (tables (cs_db s)) (ReqCreateChannel up t sn rn, as)"
    using slack_server.cs_run_answers [OF assms(1,4)] 3 by (simp add: list_all_iff)
  then have "answers_ok R Map.empty (tables d) (tables (cs_db s)) (ReqCreateChannel up t sn rn, as)"
    unfolding answers_ok_def stmts_blind(1) [of ws] .
  from channel_answered [OF this assms(2) wf] 3 show ?case unfolding stmts_blind(2) [of ws] by blast
qed

text \<open>Ann opens a channel with Bob.\<close>

theorem slack_channels_witness:
  "\<exists>s as page a b. (cs_step plain_run Map.empty)\<^sup>*\<^sup>* (cs_init ((fresh_db two_users)\<lparr>fd_next := 10\<rparr>) [ReqCreateChannel True 0 ''ann'' ''bob'']) s \<and>
     cs_reqs s = [(ReqCreateChannel True 0 ''ann'' ''bob'', as)] \<and>
     outcome_of Map.empty (ReqCreateChannel True 0 ''ann'' ''bob'') as = Http (http_json True page new_response) \<and>
     map UserID (memberships (fd_tables (cs_db s))) = [1, 2] \<and> {#a, b#} = {#1, 2#} \<and>
     channel_opened plain_rules two_users (fd_tables (cs_db s)) 0 ''ann'' ''bob'' a b (ReqCreateChannel True 0 ''ann'' ''bob'', as) page"
proof -
  let ?req = "ReqCreateChannel True 0 ''ann'' ''bob''" and ?d = "(fresh_db two_users)\<lparr>fd_next := 10\<rparr>"
  obtain w d' where w: "slack_handle plain_run Map.empty ?req ?d = (Http w, d')" "rw_status w = Some 200"
      "fd_tables d' = opened 4 0 ''ann'' ''bob'' 1 2 (13, 14, 15, 16) two_users"
    by (simp add: slack_handle_def channel_defs concrete created_text_def opened_def)
  obtain s where run: "(cs_step plain_run Map.empty)\<^sup>*\<^sup>* (cs_init ?d [?req]) s" and fin: "cs_done Map.empty s"
    using cs.reaches_final [OF refl rtranclp.rtrancl_refl, of plain_run Map.empty] by blast
  then obtain as where as: "cs_reqs s = [(?req, as)]" "outcome_of Map.empty ?req as = Http w" "cs_db s = d'"
    using slack_alone [OF run fin] w(1) by auto
  have users: "map UserID (memberships (fd_tables d')) = [1, 2]" using w(3) by (simp add: opened_def concrete)
  have wf: "slack_wf (fd_tables ?d)" by (simp add: slack_wf_def concrete)
  note channels = slack_channels [OF sl_faulty.slack_server_axioms plain_rules_ok wf run]
  have added: "mset (map UserID (members_added (?req, as))) = {#1, 2#}"
  proof -
    obtain new where "memberships (fd_tables d') = new" "mset new = mset (members_added (?req, as))"
      using conjunct1 [OF channels] as by (auto simp: concrete)
    then show ?thesis using users by (metis mset_map mset.simps)
  qed
  obtain a b page where "w = http_json True page new_response"
      "channel_opened plain_rules (fd_tables ?d) (fd_tables d') 0 ''ann'' ''bob'' a b (?req, as) page \<or>
       channel_shown plain_rules (fd_tables ?d) (fd_tables d') a b (?req, as) page"
    using conjunct2 [OF conjunct2 [OF channels], rule_format, of True 0 "''ann''" "''bob''" as w] as w(2) by auto
  moreover have "\<not> channel_shown plain_rules (fd_tables ?d) (fd_tables d') a b (?req, as) page"
    using added by (auto simp: channel_shown_def)
  ultimately have page: "w = http_json True page new_response"
      "channel_opened plain_rules two_users (fd_tables d') 0 ''ann'' ''bob'' a b (?req, as) page"
    by (auto simp: fresh_db_def)
  then have both: "{#a, b#} = {#1, 2#}" using added by (auto simp: channel_opened_def)
  show ?thesis using run as users page both
    by (intro exI [of _ s] exI [of _ as] exI [of _ page] exI [of _ a] exI [of _ b] conjI) simp_all
qed

end
