(* ===== verification/Connection_Times.thy ===== *)
theory Connection_Times
  imports Slack_Server Online_Indicator Go_Map
begin

text \<open>
  The map \<open>timeTaken\<close> of \<open>slack/main.go\<close> and \<open>online_offline_indicator/main.go\<close>, which both programs
  fill in the connect handler and read in the disconnect handler. The socket library serves every
  connection in goroutines of its own, so the map is shared; a goroutine is the list of the handlers it
  calls, with the time of each.
\<close>

datatype socket_event = Connected time conn | Disconnected time conn

fun time_ops :: "socket_event \<Rightarrow> (conn, time) map_op list" where
  "time_ops (Connected now c) = [Store c now]"
| "time_ops (Disconnected now c) = [Load c]"

definition time_prog :: "socket_event list \<Rightarrow> (conn, time) map_op list" where
  "time_prog evs = concat (map time_ops evs)"

definition times_init :: "socket_event list list \<Rightarrow> (conn, time) map_sys" where
  "times_init gs = map_init Map.empty (map time_prog gs)"

text \<open>The ends of the lines that the disconnect handlers print, from what they read.\<close>

fun printed :: "socket_event list \<Rightarrow> (conn \<times> time option) list \<Rightarrow> (conn \<times> string) list" where
  "printed (Connected now c # evs) rs = printed evs rs"
| "printed (Disconnected now c # evs) (r # rs) = (c, duration_string (since_entry now (snd r))) # printed evs rs"
| "printed evs rs = []"

text \<open>Alone, the accesses are those of the handlers of both programs.\<close>

lemma time_ops_sequential:
  "fold apply_op (time_ops (Connected now c)) m = ws_on_connect now c m"
  "fold apply_op (time_ops (Connected now c)) m = on_connect now c m"
  "printed [Disconnected now c] (reads_alone m (time_ops (Disconnected now c))) = [(c, ws_on_disconnect now c m)]"
  "printed [Disconnected now c] (reads_alone m (time_ops (Disconnected now c))) = [(c, on_disconnect now c m)]"
  by (simp_all add: ws_on_connect_def on_connect_def ws_on_disconnect_def on_disconnect_def)

lemma time_prog_simps [simp]:
  "time_prog [] = []" "time_prog (e # evs) = time_ops e @ time_prog evs"
  by (simp_all add: time_prog_def)

lemma store_in_prog: "Store c now \<in> set (time_prog evs) \<longleftrightarrow> Connected now c \<in> set evs"
proof -
  have "Store c now \<in> set (time_ops e) \<longleftrightarrow> e = Connected now c" for e by (cases e) auto
  then show ?thesis by (auto simp: time_prog_def)
qed

lemma time_prog_Nil: "time_prog evs = [] \<longleftrightarrow> evs = []"
proof (cases evs)
  case (Cons e es)
  then show ?thesis by (cases e) simp_all
qed simp

text \<open>
  C35. The unlocked map again. Two handlers that run at once can end either process exactly when
  one of them notes a connection. And as long as that does not happen, the times are right: a
  goroutine that sees a connection come up and go down prints how long it lasted, if no other goroutine connects
  under the same id.
\<close>

theorem connection_times:
  "((\<exists>s. map_step\<^sup>*\<^sup>* (times_init gs) s \<and> mp_fatal s) \<longleftrightarrow>
     (\<exists>i j now c. i < length gs \<and> j < length gs \<and> i \<noteq> j \<and> Connected now c \<in> set (gs ! i) \<and> 0 < length (gs ! j))) \<and>
   (\<forall>s i t0 t1 c. map_step\<^sup>*\<^sup>* (times_init gs) s \<and> i < length gs \<and> gs ! i = [Connected t0 c, Disconnected t1 c] \<and>
     mp_todo s ! i = [] \<and> (\<forall>j < length gs. \<forall>now. j \<noteq> i \<longrightarrow> Connected now c \<notin> set (gs ! j)) \<longrightarrow>
     printed (gs ! i) (reads_of i s) = [(c, duration_string (time_sub t1 t0))])"
proof (intro conjI allI impI)
  have "map_clash (map time_prog gs) \<longleftrightarrow>
      (\<exists>i j now c. i < length gs \<and> j < length gs \<and> i \<noteq> j \<and> Connected now c \<in> set (gs ! i) \<and> 0 < length (gs ! j))"
    unfolding map_clash_def length_map by (auto simp: store_in_prog time_prog_Nil cong: conj_cong)
  then show "(\<exists>s. map_step\<^sup>*\<^sup>* (times_init gs) s \<and> mp_fatal s) \<longleftrightarrow>
      (\<exists>i j now c. i < length gs \<and> j < length gs \<and> i \<noteq> j \<and> Connected now c \<in> set (gs ! i) \<and> 0 < length (gs ! j))"
    unfolding times_init_def fatal_iff .
next
  fix s i t0 t1 c
  assume *: "map_step\<^sup>*\<^sup>* (times_init gs) s \<and> i < length gs \<and> gs ! i = [Connected t0 c, Disconnected t1 c] \<and>
     mp_todo s ! i = [] \<and> (\<forall>j < length gs. \<forall>now. j \<noteq> i \<longrightarrow> Connected now c \<notin> set (gs ! j))"
  then have run: "map_step\<^sup>*\<^sup>* (map_init Map.empty (map time_prog gs)) s" "i < length (map time_prog gs)"
    and prog: "map time_prog gs ! i = [Store c t0, Load c]" by (simp_all add: times_init_def)
  have "owned (map time_prog gs) i c" using * by (auto simp: owned_def store_in_prog)
  from owned_reads [OF run this] * prog
  have "filter (\<lambda>r. fst r = c) (reads_of i s) = [(c, Some t0)]" by simp
  moreover have "map fst (reads_of i s) = [c]" using reads_in_order [OF run] * prog by auto
  ultimately have "reads_of i s = [(c, Some t0)]" by auto
  with * show "printed (gs ! i) (reads_of i s) = [(c, duration_string (time_sub t1 t0))]" by (simp add: since_entry_def)
qed

theorem connection_times_witness:
  "\<exists>s. map_step\<^sup>*\<^sup>* (times_init [[Connected 0 ''a'', Disconnected 1500000000 ''a''], [Connected 1 ''b'']]) s \<and> mp_fatal s"
proof -
  let ?gs = "[[Connected 0 ''a'', Disconnected 1500000000 ''a''], [Connected 1 ''b'']]"
  have "\<exists>i j now c. i < length ?gs \<and> j < length ?gs \<and> i \<noteq> j \<and> Connected now c \<in> set (?gs ! i) \<and> 0 < length (?gs ! j)"
    by (intro exI [of _ 0] exI [of _ 1]) auto
  with connection_times [of ?gs] show ?thesis by blast
qed

end
