(* ===== verification/Go_Mux.thy ===== *)
theory Go_Mux
  imports Go_Http
begin

text \<open>
  What the \<open>main\<close> functions use of \<open>http.ServeMux\<close> (Go 1.22): patterns with literal segments, \<open>{name}\<close>
  wildcards and a trailing slash for a subtree, the search that prefers a literal to a wildcard and a
  wildcard to a subtree, the values of the wildcards, the redirect of paths that are not clean and of a
  subtree without its slash. A path is the escaped path of the request (\<open>URL.EscapedPath\<close>). Where a
  redirect leads is not modelled. \<open>url.PathEscape\<close> is what a client uses to build such a path.
\<close>

subsection \<open>Percent encoding\<close>

definition hex_digit :: "nat \<Rightarrow> char" where
  "hex_digit n = ''0123456789ABCDEF'' ! n"

definition hex_val :: "char \<Rightarrow> nat option" where
  "hex_val c =
     (let n = of_char c :: nat in
      if 48 \<le> n \<and> n \<le> 57 then Some (n - 48)
      else if 65 \<le> n \<and> n \<le> 70 then Some (n - 55)
      else if 97 \<le> n \<and> n \<le> 102 then Some (n - 87)
      else None)"

definition path_safe :: "char \<Rightarrow> bool" where
  "path_safe c =
     (let n = of_char c :: nat in
      48 \<le> n \<and> n \<le> 57 \<or> 65 \<le> n \<and> n \<le> 90 \<or> 97 \<le> n \<and> n \<le> 122 \<or> c \<in> set ''-_.~$&+:=@'')"

definition escape_char :: "char \<Rightarrow> string" where
  "escape_char c =
     (if path_safe c then [c] else [CHR ''%'', hex_digit (of_char c div 16), hex_digit (of_char c mod 16)])"

definition path_escape :: "string \<Rightarrow> string" where
  "path_escape s = concat (map escape_char s)"

fun path_unescape :: "string \<Rightarrow> string option" where
  "path_unescape [] = Some []"
| "path_unescape (c # s) =
     (if c = CHR ''%'' then
        (case s of
           a # b # r \<Rightarrow>
             (case (hex_val a, hex_val b) of
                (Some x, Some y) \<Rightarrow> map_option ((#) (char_of (16 * x + y))) (path_unescape r)
              | _ \<Rightarrow> None)
         | _ \<Rightarrow> None)
      else map_option ((#) c) (path_unescape s))"

text \<open>A segment that is not a valid encoding is used as it is.\<close>

definition unescaped :: "string \<Rightarrow> string" where
  "unescaped s = (case path_unescape s of None \<Rightarrow> s | Some t \<Rightarrow> t)"

lemma hex_val_digit: "n < 16 \<Longrightarrow> hex_val (hex_digit n) = Some n"
proof -
  assume "n < 16"
  moreover have "list_all (\<lambda>n. hex_val (hex_digit n) = Some n) [0..<16]" by code_simp
  ultimately show ?thesis by (simp add: list_all_iff)
qed

lemma high_nibble: "(of_char c :: nat) div 16 < 16"
  using nat_of_char_less_256 [of c] by linarith

lemma unescape_char: "path_unescape (escape_char c @ s) = map_option ((#) c) (path_unescape s)"
proof -
  have "c \<noteq> CHR ''%''" if "path_safe c"
    using that by (auto simp: path_safe_def)
  then show ?thesis by (simp add: escape_char_def hex_val_digit high_nibble)
qed

lemma unescape_escape [simp]: "path_unescape (path_escape s) = Some s"
  by (induction s) (simp_all add: path_escape_def unescape_char)

lemma unescaped_escape [simp]: "unescaped (path_escape s) = s"
  by (simp add: unescaped_def)

lemma hex_digit_no_slash: "n < 16 \<Longrightarrow> hex_digit n \<noteq> CHR ''/''"
  using hex_val_digit [of n] by (auto simp: hex_val_def)

lemma escape_char_no_slash: "CHR ''/'' \<notin> set (escape_char c)"
  using hex_digit_no_slash [of "of_char c div 16"] hex_digit_no_slash [of "of_char c mod 16"] high_nibble [of c]
  by (auto simp: escape_char_def path_safe_def)

lemma escape_no_slash [simp]: "CHR ''/'' \<notin> set (path_escape s)"
  using escape_char_no_slash by (auto simp: path_escape_def)

lemma escape_safe: "list_all path_safe s \<Longrightarrow> path_escape s = s"
  by (induction s) (simp_all add: path_escape_def escape_char_def)

lemma escape_inject [simp]: "path_escape s = path_escape t \<longleftrightarrow> s = t"
  by (metis unescape_escape option.inject)

lemma escape_dots [simp]:
  "path_escape s = [] \<longleftrightarrow> s = []" "path_escape s = ''.'' \<longleftrightarrow> s = ''.''" "path_escape s = ''..'' \<longleftrightarrow> s = ''..''"
  using escape_inject [of s "[]"] escape_inject [of s "''.''"] escape_inject [of s "''..''"]
    escape_safe [of "''.''"] escape_safe [of "''..''"] escape_safe [of "[]"]
  by (simp_all add: path_safe_def)

subsection \<open>Patterns and the search\<close>

datatype pat_seg = PLit string | is_wild: PWild string | PMulti

definition parse_seg :: "string \<Rightarrow> pat_seg" where
  "parse_seg s = (if s = [] then PMulti else if hd s = CHR ''{'' then PWild (butlast (tl s)) else PLit s)"

text \<open>
  A pattern starts with a slash; an empty last segment is the subtree. No pattern of the programs uses
  \<open>{name...}\<close>, \<open>{$}\<close>, a method or a host.
\<close>

definition parse_pattern :: "string \<Rightarrow> pat_seg list" where
  "parse_pattern p = map parse_seg (split_at CHR ''/'' (tl p))"

definition wild_names :: "pat_seg list \<Rightarrow> string list" where
  "wild_names ps = concat (map (\<lambda>p. case p of PWild n \<Rightarrow> [n] | _ \<Rightarrow> []) ps)"

text \<open>The segments of a path, decoded; a trailing slash is a segment of its own.\<close>

definition first_segment :: "string \<Rightarrow> string \<times> string" where
  "first_segment path =
     (if path = ''/'' then (''/'', [])
      else (unescaped (takeWhile (\<lambda>c. c \<noteq> CHR ''/'') (tl path)), dropWhile (\<lambda>c. c \<noteq> CHR ''/'') (tl path)))"

function path_segments :: "string \<Rightarrow> string list" where
  "path_segments path = (if path = [] then [] else fst (first_segment path) # path_segments (snd (first_segment path)))"
  by pat_completeness auto
termination
proof (relation "measure length")
  show "(snd (first_segment path), path) \<in> measure length" if "path \<noteq> []" for path
    using that length_dropWhile_le [of "\<lambda>c. c \<noteq> CHR ''/''" "tl path"] by (cases path) (auto simp: first_segment_def)
qed simp

declare path_segments.simps [simp del]

definition under_lit :: "string \<Rightarrow> (pat_seg list \<times> 'a) list \<Rightarrow> (pat_seg list \<times> 'a) list" where
  "under_lit s m = map (\<lambda>(ps, a). (tl ps, a)) (filter (\<lambda>(ps, a). ps \<noteq> [] \<and> hd ps = PLit s) m)"

definition under_wild :: "(pat_seg list \<times> 'a) list \<Rightarrow> (pat_seg list \<times> 'a) list" where
  "under_wild m = map (\<lambda>(ps, a). (tl ps, a)) (filter (\<lambda>(ps, a). ps \<noteq> [] \<and> is_wild (hd ps)) m)"

definition pick :: "pat_seg list \<Rightarrow> (pat_seg list \<times> 'a) list \<Rightarrow> ('a \<times> string list) option" where
  "pick ps m = map_option (\<lambda>a. (a, [])) (map_of m ps)"

fun match_path :: "(pat_seg list \<times> 'a) list \<Rightarrow> string list \<Rightarrow> ('a \<times> string list) option" where
  "match_path m [] = pick [] m"
| "match_path m (seg # rest) =
     (case match_path (under_lit seg m) rest of
        Some r \<Rightarrow> Some r
      | None \<Rightarrow>
          (case (if seg = ''/'' then None else match_path (under_wild m) rest) of
             Some (a, vs) \<Rightarrow> Some (a, seg # vs)
           | None \<Rightarrow> pick [PMulti] m))"

subsection \<open>Clean paths\<close>

fun clean_segs :: "string list \<Rightarrow> string list \<Rightarrow> string list" where
  "clean_segs acc [] = rev acc"
| "clean_segs acc (s # ss) =
     (if s = [] \<or> s = ''.'' then clean_segs acc ss
      else if s = ''..'' then clean_segs (tl acc) ss
      else clean_segs (s # acc) ss)"

definition join_path :: "string list \<Rightarrow> string" where
  "join_path ss = concat (map (\<lambda>s. CHR ''/'' # s) ss)"

definition rooted_clean :: "string \<Rightarrow> string" where
  "rooted_clean p = (let ss = clean_segs [] (split_at CHR ''/'' p) in if ss = [] then ''/'' else join_path ss)"

definition clean_path :: "string \<Rightarrow> string" where
  "clean_path p =
     (if p = [] then ''/''
      else let q = (if hd p = CHR ''/'' then p else CHR ''/'' # p); np = rooted_clean q in
        if last q = CHR ''/'' \<and> np \<noteq> ''/'' then np @ ''/'' else np)"

subsection \<open>Routing\<close>

type_synonym 'h mux = "(string \<times> 'h) list"

datatype 'h routed = Routed 'h "(string \<times> string) list" | MovedPermanently | NotFound

definition mux_match :: "'h mux \<Rightarrow> string \<Rightarrow> ((pat_seg list \<times> 'h) \<times> string list) option" where
  "mux_match mux path = match_path (map (\<lambda>(p, h). (parse_pattern p, (parse_pattern p, h))) mux) (path_segments path)"

definition exact_match :: "((pat_seg list \<times> 'h) \<times> string list) option \<Rightarrow> string \<Rightarrow> bool" where
  "exact_match n path =
     (case n of
        None \<Rightarrow> False
      | Some ((ps, h), vs) \<Rightarrow>
          last ps \<noteq> PMulti \<or> path \<noteq> [] \<and> last path = CHR ''/'' \<and> length ps = count_list path CHR ''/'')"

definition mux_route :: "'h mux \<Rightarrow> string \<Rightarrow> 'h routed" where
  "mux_route mux escaped =
     (let path = clean_path escaped; n = mux_match mux path in
      if \<not> exact_match n path \<and> exact_match (mux_match mux (path @ ''/'')) (path @ ''/'') then MovedPermanently
      else if path \<noteq> escaped then MovedPermanently
      else (case n of None \<Rightarrow> NotFound | Some ((ps, h), vs) \<Rightarrow> Routed h (zip (wild_names ps) vs)))"

definition path_value :: "(string \<times> string) list \<Rightarrow> string \<Rightarrow> string" where
  "path_value vs name = (case map_of vs name of None \<Rightarrow> [] | Some v \<Rightarrow> v)"

subsection \<open>Laws of paths\<close>

definition plain_seg :: "string \<Rightarrow> bool" where
  "plain_seg s \<longleftrightarrow> s \<noteq> [] \<and> s \<noteq> ''.'' \<and> s \<noteq> ''..'' \<and> CHR ''/'' \<notin> set s"

lemma plain_escape [simp]: "plain_seg (path_escape s) \<longleftrightarrow> s \<notin> {[], ''.'', ''..''}"
  by (simp add: plain_seg_def)

lemma join_path_simps [simp]:
  "join_path [] = []" "join_path (s # ss) = CHR ''/'' # s @ join_path ss" "join_path (ss @ ts) = join_path ss @ join_path ts"
  by (simp_all add: join_path_def)

lemma join_path_Nil [simp]: "join_path ss = [] \<longleftrightarrow> ss = []"
  by (cases ss) simp_all

lemma join_path_slash: "join_path ss = [] \<or> hd (join_path ss) = CHR ''/''"
  by (cases ss) simp_all

lemma split_slash_Cons: "split_at CHR ''/'' (CHR ''/'' # p) = [] # split_at CHR ''/'' p"
  by simp

lemma split_join: "list_all (\<lambda>s. CHR ''/'' \<notin> set s) ss \<Longrightarrow> CHR ''/'' \<notin> set s \<Longrightarrow>
    split_at CHR ''/'' (s @ join_path ss) = s # ss"
  by (induction ss arbitrary: s) (simp_all add: split_at_none split_at_first del: split_at.simps)

lemma clean_segs_plain: "list_all plain_seg ss \<Longrightarrow> clean_segs acc ss = rev acc @ ss"
  by (induction ss arbitrary: acc) (simp_all add: plain_seg_def)

lemma clean_segs_out: "list_all plain_seg acc \<Longrightarrow> list_all (\<lambda>s. CHR ''/'' \<notin> set s) ss \<Longrightarrow> list_all plain_seg (clean_segs acc ss)"
proof (induction acc ss rule: clean_segs.induct)
  case (2 acc s ss)
  then show ?case by (cases acc) (auto simp: plain_seg_def)
qed simp

lemma split_no_slash: "list_all (\<lambda>s. CHR ''/'' \<notin> set s) (split_at CHR ''/'' p)"
  by (induction p) (auto split: list.splits)

lemma rooted_clean_form: "rooted_clean p = ''/'' \<or> (\<exists>ss. ss \<noteq> [] \<and> list_all plain_seg ss \<and> rooted_clean p = join_path ss)"
  using clean_segs_out [OF _ split_no_slash, of "[]" p] by (auto simp: rooted_clean_def Let_def)

lemma clean_path_form:
  "clean_path p = ''/'' \<or> (\<exists>ss. ss \<noteq> [] \<and> list_all plain_seg ss \<and> (clean_path p = join_path ss \<or> clean_path p = join_path ss @ ''/''))"
  using rooted_clean_form unfolding clean_path_def Let_def by (auto split: if_splits)

lemma join_last: "ss \<noteq> [] \<Longrightarrow> list_all plain_seg ss \<Longrightarrow> last (join_path ss) \<noteq> CHR ''/''"
proof (induction ss rule: rev_induct)
  case (snoc s ss)
  then have s: "s \<noteq> []" "CHR ''/'' \<notin> set s" by (simp_all add: plain_seg_def)
  then have "last s \<noteq> CHR ''/''" by (metis last_in_set)
  with s(1) show ?case by simp
qed simp

lemma rooted_clean_join: "ss \<noteq> [] \<Longrightarrow> list_all plain_seg ss \<Longrightarrow> rooted_clean (join_path ss) = join_path ss"
proof -
  assume ss: "ss \<noteq> []" "list_all plain_seg ss"
  then have "split_at CHR ''/'' ([] @ join_path ss) = [] # ss"
    by (intro split_join) (auto simp: list_all_iff plain_seg_def)
  with ss show ?thesis by (simp add: rooted_clean_def clean_segs_plain)
qed

lemma clean_join [simp]: "ss \<noteq> [] \<Longrightarrow> list_all plain_seg ss \<Longrightarrow> clean_path (join_path ss) = join_path ss"
  using join_last [of ss] rooted_clean_join [of ss] join_path_slash [of ss] by (auto simp: clean_path_def Let_def)

lemma first_segment_join:
  "s \<noteq> [] \<Longrightarrow> CHR ''/'' \<notin> set s \<Longrightarrow> rest = [] \<or> hd rest = CHR ''/'' \<Longrightarrow> first_segment (CHR ''/'' # s @ rest) = (unescaped s, rest)"
proof -
  assume s: "s \<noteq> []" "CHR ''/'' \<notin> set s" and rest: "rest = [] \<or> hd rest = CHR ''/''"
  from s(2) have all: "\<And>c. c \<in> set s \<Longrightarrow> c \<noteq> CHR ''/''" by blast
  have "takeWhile (\<lambda>c. c \<noteq> CHR ''/'') (s @ rest) = s @ takeWhile (\<lambda>c. c \<noteq> CHR ''/'') rest"
    "dropWhile (\<lambda>c. c \<noteq> CHR ''/'') (s @ rest) = dropWhile (\<lambda>c. c \<noteq> CHR ''/'') rest"
    using all by (simp_all add: takeWhile_append2 dropWhile_append2)
  moreover have "takeWhile (\<lambda>c. c \<noteq> CHR ''/'') rest = []" "dropWhile (\<lambda>c. c \<noteq> CHR ''/'') rest = rest"
    using rest by (cases rest; simp)+
  ultimately show ?thesis using s(1) by (simp add: first_segment_def)
qed

lemma path_segments_Nil [simp]: "path_segments [] = []"
  by (simp add: path_segments.simps)

lemma path_segments_slash [simp]: "path_segments ''/'' = [''/'']"
  by (simp add: path_segments.simps first_segment_def)

lemma path_segments_Cons:
  "plain_seg s \<Longrightarrow> rest = [] \<or> hd rest = CHR ''/'' \<Longrightarrow> path_segments (CHR ''/'' # s @ rest) = unescaped s # path_segments rest"
  using first_segment_join [of s rest] by (simp add: plain_seg_def path_segments.simps [of "CHR ''/'' # s @ rest"])

lemma path_segments_join:
  "list_all plain_seg ss \<Longrightarrow> rest = [] \<or> hd rest = CHR ''/'' \<Longrightarrow>
    path_segments (join_path ss @ rest) = map unescaped ss @ path_segments rest"
proof (induction ss)
  case (Cons s ss)
  then have "join_path ss @ rest = [] \<or> hd (join_path ss @ rest) = CHR ''/''" using join_path_slash [of ss] by (cases ss) auto
  with Cons path_segments_Cons [of s "join_path ss @ rest"] show ?case by simp
qed simp

lemma count_slash_join: "list_all plain_seg ss \<Longrightarrow> count_list (join_path ss) CHR ''/'' = length ss"
  by (induction ss) (simp_all add: plain_seg_def)

text \<open>Which paths of given segments are clean: all proper, the last possibly empty (a trailing slash).\<close>

lemma clean_join_slash: "list_all plain_seg ss \<Longrightarrow> clean_path (join_path ss @ ''/'') = join_path ss @ ''/''"
proof (cases "ss = []")
  case False
  assume ss: "list_all plain_seg ss"
  have "split_at CHR ''/'' ([] @ join_path (ss @ [[]])) = [] # ss @ [[]]"
    by (intro split_join) (use ss in \<open>auto simp: list_all_iff plain_seg_def\<close>)
  moreover have "clean_segs acc (ss @ [[]]) = rev acc @ ss" for acc
    using ss by (induction ss arbitrary: acc) (simp_all add: plain_seg_def)
  ultimately have "rooted_clean (join_path ss @ ''/'') = join_path ss"
    using False by (simp add: rooted_clean_def)
  then show ?thesis using False ss join_path_slash [of ss] by (cases ss) (auto simp: clean_path_def Let_def plain_seg_def)
qed (simp add: clean_path_def rooted_clean_def)

lemma clean_join_iff:
  assumes "list_all (\<lambda>s. CHR ''/'' \<notin> set s) ss" and "ss \<noteq> []"
  shows "clean_path (join_path ss) = join_path ss \<longleftrightarrow> list_all plain_seg (butlast ss) \<and> (last ss = [] \<or> plain_seg (last ss))"
proof
  have split: "split_at CHR ''/'' (join_path ss) = [] # ss" using split_join [OF assms(1), of "[]"] by simp
  assume "clean_path (join_path ss) = join_path ss"
  then consider "join_path ss = ''/''" | ts where "list_all plain_seg ts" "ts \<noteq> []" "join_path ss = join_path ts"
    | ts where "list_all plain_seg ts" "join_path ss = join_path (ts @ [[]])"
    using clean_path_form [of "join_path ss"] by auto
  then show "list_all plain_seg (butlast ss) \<and> (last ss = [] \<or> plain_seg (last ss))"
  proof cases
    case 1
    with split show ?thesis by auto
  next
    case 2
    then have "split_at CHR ''/'' (join_path ss) = [] # ts"
      using split_join [of ts "[]"] by (auto simp: list_all_iff plain_seg_def)
    with split have "ss = ts" by simp
    with 2 show ?thesis by (simp add: list_all_iff in_set_butlastD)
  next
    case 3
    then have "split_at CHR ''/'' (join_path ss) = [] # ts @ [[]]"
      using split_join [of "ts @ [[]]" "[]"] by (auto simp: list_all_iff plain_seg_def)
    with split 3 show ?thesis by simp
  qed
next
  assume *: "list_all plain_seg (butlast ss) \<and> (last ss = [] \<or> plain_seg (last ss))"
  have ss: "butlast ss @ [last ss] = ss" using assms(2) by simp
  show "clean_path (join_path ss) = join_path ss"
  proof (cases "last ss = []")
    case True
    with clean_join_slash [of "butlast ss"] * show ?thesis by (subst (1 2) ss [symmetric]) simp
  next
    case False
    with * have "list_all plain_seg (butlast ss @ [last ss])" by simp
    with ss assms(2) clean_join [of ss] show ?thesis by simp
  qed
qed

lemma join_segments:
  assumes "list_all plain_seg ss" and "s = [] \<or> plain_seg s"
  shows "path_segments (join_path ss @ CHR ''/'' # s) = map unescaped ss @ [if s = [] then ''/'' else unescaped s]"
  using assms path_segments_join [of ss "CHR ''/'' # s"] path_segments_Cons [of s "[]"] by auto

subsection \<open>What the search finds\<close>

text \<open>When one pattern matches, and the values of its wildcards.\<close>

fun seg_match :: "pat_seg list \<Rightarrow> string list \<Rightarrow> string list option" where
  "seg_match [] ss = (if ss = [] then Some [] else None)"
| "seg_match (PMulti # ps) ss = (if ps = [] \<and> ss \<noteq> [] then Some [] else None)"
| "seg_match (PLit l # ps) ss = (if ss \<noteq> [] \<and> hd ss = l then seg_match ps (tl ss) else None)"
| "seg_match (PWild n # ps) ss =
     (if ss \<noteq> [] \<and> hd ss \<noteq> ''/'' then map_option ((#) (hd ss)) (seg_match ps (tl ss)) else None)"

lemma under_lit_iff: "(ps, a) \<in> set (under_lit s m) \<longleftrightarrow> (PLit s # ps, a) \<in> set m"
  by (force simp: under_lit_def neq_Nil_conv image_iff)

lemma under_wild_iff: "(ps, a) \<in> set (under_wild m) \<longleftrightarrow> (\<exists>n. (PWild n # ps, a) \<in> set m)"
  by (force simp: under_wild_def neq_Nil_conv image_iff is_wild_def)

lemma pick_None: "pick ps m = None \<longleftrightarrow> (\<forall>a. (ps, a) \<notin> set m)"
  by (auto simp: pick_def map_of_eq_None_iff image_iff)

lemma pick_Some: "pick ps m = Some (a, vs) \<Longrightarrow> (ps, a) \<in> set m \<and> vs = []"
  by (auto simp: pick_def dest: map_of_SomeD)

lemma match_path_None: "match_path m ss = None \<longleftrightarrow> (\<forall>ps a. (ps, a) \<in> set m \<longrightarrow> seg_match ps ss = None)"
proof (induction ss arbitrary: m)
  case Nil
  have "seg_match ps [] = None \<longleftrightarrow> ps \<noteq> []" for ps by (induction ps "[] :: string list" rule: seg_match.induct) auto
  then show ?case by (auto simp: pick_None)
next
  case (Cons s rest)
  have "match_path m (s # rest) = None \<longleftrightarrow> match_path (under_lit s m) rest = None \<and>
      (s \<noteq> ''/'' \<longrightarrow> match_path (under_wild m) rest = None) \<and> pick [PMulti] m = None"
    by (auto split: option.splits)
  also have "\<dots> \<longleftrightarrow> (\<forall>ps a. (PLit s # ps, a) \<in> set m \<longrightarrow> seg_match ps rest = None) \<and>
      (s \<noteq> ''/'' \<longrightarrow> (\<forall>ps a n. (PWild n # ps, a) \<in> set m \<longrightarrow> seg_match ps rest = None)) \<and> (\<forall>a. ([PMulti], a) \<notin> set m)"
    unfolding Cons.IH pick_None under_lit_iff under_wild_iff by blast
  also have "\<dots> \<longleftrightarrow> (\<forall>ps a. (ps, a) \<in> set m \<longrightarrow> seg_match ps (s # rest) = None)"
  proof (intro iffI allI impI)
    fix ps a
    assume "(\<forall>ps a. (PLit s # ps, a) \<in> set m \<longrightarrow> seg_match ps rest = None) \<and>
      (s \<noteq> ''/'' \<longrightarrow> (\<forall>ps a n. (PWild n # ps, a) \<in> set m \<longrightarrow> seg_match ps rest = None)) \<and> (\<forall>a. ([PMulti], a) \<notin> set m)"
      and "(ps, a) \<in> set m"
    then show "seg_match ps (s # rest) = None" by (cases "(ps, s # rest)" rule: seg_match.cases) (simp_all, blast+)
  qed (fastforce split: if_splits)
  finally show ?case by auto
qed

lemma match_path_Some:
  "match_path m ss = Some (a, vs) \<Longrightarrow>
    \<exists>ps. (ps, a) \<in> set m \<and> seg_match ps ss = Some vs \<and> (ps = [PMulti] \<longrightarrow> (\<forall>qs b. (qs, b) \<in> set m \<longrightarrow> qs \<noteq> [PMulti] \<longrightarrow> seg_match qs ss = None))"
proof (induction ss arbitrary: m vs)
  case Nil
  then show ?case by (auto dest!: pick_Some)
next
  case (Cons s rest)
  consider (lit) "match_path (under_lit s m) rest = Some (a, vs)"
    | (wild) ws where "s \<noteq> ''/''" "match_path (under_wild m) rest = Some (a, ws)" "vs = s # ws"
    | (multi) "match_path (under_lit s m) rest = None" "s \<noteq> ''/'' \<longrightarrow> match_path (under_wild m) rest = None" "pick [PMulti] m = Some (a, vs)"
    using Cons.prems by (auto split: option.splits if_splits)
  then show ?case
  proof cases
    case lit
    from Cons.IH [OF this] obtain ps where "(PLit s # ps, a) \<in> set m" "seg_match ps rest = Some vs"
      by (auto simp: under_lit_iff)
    then show ?thesis by (intro exI [of _ "PLit s # ps"]) simp
  next
    case wild
    from Cons.IH [OF wild(2)] obtain ps n where "(PWild n # ps, a) \<in> set m" "seg_match ps rest = Some ws"
      by (auto simp: under_wild_iff)
    with wild show ?thesis by (intro exI [of _ "PWild n # ps"]) simp
  next
    case multi
    have "seg_match qs (s # rest) = None" if "(qs, b) \<in> set m" "qs \<noteq> [PMulti]" for qs b
      using multi(1,2) that unfolding match_path_None under_lit_iff under_wild_iff
      by (cases "(qs, s # rest)" rule: seg_match.cases) (simp_all, blast+)
    with pick_Some [OF multi(3)] show ?thesis by (intro exI [of _ "[PMulti]"]) auto
  qed
qed


lemma mux_match_Some:
  assumes "mux_match mux p = Some ((ps, h), vs)"
  shows "\<exists>pat. (pat, h) \<in> set mux \<and> ps = parse_pattern pat \<and> seg_match ps (path_segments p) = Some vs \<and>
    (ps = [PMulti] \<longrightarrow> (\<forall>q k. (q, k) \<in> set mux \<longrightarrow> parse_pattern q \<noteq> [PMulti] \<longrightarrow> seg_match (parse_pattern q) (path_segments p) = None))"
  using match_path_Some [OF assms [unfolded mux_match_def]] by fastforce

lemma mux_match_total:
  assumes "(''/'', h) \<in> set mux" and "path_segments p \<noteq> []"
  shows "\<exists>ps k vs. mux_match mux p = Some ((ps, k), vs)"
proof -
  have "parse_pattern ''/'' = [PMulti]" by code_simp
  then have "seg_match (parse_pattern ''/'') (path_segments p) = Some []" using assms(2) by simp
  with assms(1) have "mux_match mux p \<noteq> None" unfolding mux_match_def match_path_None by fastforce
  then show ?thesis by auto
qed

end
