(* ===== verification/Go_Routes.thy ===== *)
theory Go_Routes
  imports Go_Mux
begin

text \<open>
  Routing laws for the tables of the programs: every pattern but \<open>/\<close> starts with a literal, no two with the
  same one, and a subtree is a single literal with its slash. For such a table a path is served by the
  one pattern that matches it, else by \<open>/\<close>; it is redirected when it is not clean or when it is the root
  of a subtree without its slash.
\<close>

subsection \<open>Tables whose patterns start with different literals\<close>

definition literal_heads :: "'h mux \<Rightarrow> bool" where
  "literal_heads mux \<longleftrightarrow>
     distinct (map (\<lambda>(q, k). hd (parse_pattern q)) mux) \<and> (\<forall>(q, k) \<in> set mux. q = ''/'' \<or> (\<exists>a. hd (parse_pattern q) = PLit a))"

lemma parse_pattern_not_Nil [simp]: "parse_pattern p \<noteq> []"
  by (simp add: parse_pattern_def)

lemma parse_root [simp]: "parse_pattern ''/'' = [PMulti]"
  by code_simp

lemma literal_head_match:
  assumes "literal_heads mux" and "(q, k) \<in> set mux" and "q \<noteq> ''/''" and "seg_match (parse_pattern q) ss = Some vs"
  shows "hd (parse_pattern q) = PLit (hd ss)"
proof -
  obtain a where "hd (parse_pattern q) = PLit a" using assms(1-3) by (fastforce simp: literal_heads_def)
  then show ?thesis using assms(4) by (cases "parse_pattern q") (auto split: if_splits)
qed

lemma literal_heads_unique:
  assumes "literal_heads mux" and "(q, k) \<in> set mux" and "(q', k') \<in> set mux" and "hd (parse_pattern q) = hd (parse_pattern q')"
  shows "(q, k) = (q', k')"
proof -
  have "inj_on (\<lambda>(q, k). hd (parse_pattern q)) (set mux)" using assms(1) by (simp add: literal_heads_def distinct_map)
  from inj_onD [OF this _ assms(2,3)] assms(4) show ?thesis by simp
qed

lemma mux_match_pattern:
  assumes "literal_heads mux" and "(q, k) \<in> set mux" and "q \<noteq> ''/''" and "seg_match (parse_pattern q) (path_segments p) = Some vs"
  shows "mux_match mux p = Some ((parse_pattern q, k), vs)"
proof -
  have "mux_match mux p \<noteq> None"
    using assms(2,4) unfolding mux_match_def match_path_None by fastforce
  then obtain ps h ws where m: "mux_match mux p = Some ((ps, h), ws)" by auto
  from mux_match_Some [OF this] obtain q' where q': "(q', h) \<in> set mux" "ps = parse_pattern q'"
    "seg_match ps (path_segments p) = Some ws"
    and root: "ps = [PMulti] \<longrightarrow> seg_match (parse_pattern q) (path_segments p) = None \<or> parse_pattern q = [PMulti]"
    using assms(2) by blast
  have head: "hd (parse_pattern q) = PLit (hd (path_segments p))" by (rule literal_head_match [OF assms])
  with root assms(4) have "q' \<noteq> ''/''" using q'(2) by auto
  from literal_head_match [OF assms(1) q'(1) this] q'(2,3) head
  have "(q, k) = (q', h)" using literal_heads_unique [OF assms(1,2) q'(1)] by simp
  with m q' assms(4) show ?thesis by simp
qed

lemma mux_match_root:
  assumes "literal_heads mux" and "(''/'', k) \<in> set mux" and "path_segments p \<noteq> []"
    and "\<forall>(q, h) \<in> set mux. q \<noteq> ''/'' \<longrightarrow> seg_match (parse_pattern q) (path_segments p) = None"
  shows "mux_match mux p = Some (([PMulti], k), [])"
proof -
  obtain ps h vs where m: "mux_match mux p = Some ((ps, h), vs)" using mux_match_total [OF assms(2,3)] by blast
  from mux_match_Some [OF this] obtain q where q: "(q, h) \<in> set mux" "ps = parse_pattern q" "seg_match ps (path_segments p) = Some vs"
    by blast
  with assms(4) have "q = ''/''" by fastforce
  with q literal_heads_unique [OF assms(1,2) q(1)] assms(3) m show ?thesis by (auto split: if_splits)
qed

lemma seg_matches:
  "seg_match [PLit a] ss = (if ss = [a] then Some [] else None)"
  "seg_match [PLit a, PMulti] ss = (if 2 \<le> length ss \<and> hd ss = a then Some [] else None)"
  "seg_match [PLit a, PWild n] ss = (if length ss = 2 \<and> hd ss = a \<and> ss ! 1 \<noteq> ''/'' then Some (tl ss) else None)"
  "seg_match [PLit a, PWild n, PWild m] ss =
    (if length ss = 3 \<and> hd ss = a \<and> ss ! 1 \<noteq> ''/'' \<and> ss ! 2 \<noteq> ''/'' then Some (tl ss) else None)"
  by (cases ss rule: list.exhaust; cases "tl ss"; cases "tl (tl ss)"; cases "tl (tl (tl ss))"; simp)+

subsection \<open>Redirects\<close>

definition flat_mux :: "'h mux \<Rightarrow> bool" where
  "flat_mux mux \<longleftrightarrow> literal_heads mux \<and>
     (\<forall>(q, k) \<in> set mux. PLit ''/'' \<notin> set (parse_pattern q) \<and> PLit [] \<notin> set (parse_pattern q) \<and>
        (q = ''/'' \<or> last (parse_pattern q) \<noteq> PMulti \<or> (\<exists>a. parse_pattern q = [PLit a, PMulti])))"

text \<open>The root of a subtree, without its slash.\<close>

definition lacks_slash :: "'h mux \<Rightarrow> string \<Rightarrow> bool" where
  "lacks_slash mux p \<longleftrightarrow> (\<exists>a q k. path_segments p = [a] \<and> (q, k) \<in> set mux \<and> parse_pattern q = [PLit a, PMulti])"

lemma seg_match_slash:
  "seg_match ps ss = Some vs \<Longrightarrow> ss \<noteq> [] \<Longrightarrow> last ss = ''/'' \<Longrightarrow> PLit ''/'' \<notin> set ps \<Longrightarrow> last ps = PMulti"
proof (induction ps ss arbitrary: vs rule: seg_match.induct)
  case (3 l ps ss)
  then have sub: "seg_match ps (tl ss) = Some vs" "hd ss = l" by (simp_all split: if_splits)
  with 3 have rest: "tl ss \<noteq> []" by (cases ss) auto
  then have "ps \<noteq> []" using sub(1) by auto
  moreover have "last ps = PMulti"
    using "3.IH" [OF _ sub(1) rest] "3.prems" sub(2) rest by (cases ss) auto
  ultimately show ?case by simp
next
  case (4 n ps ss)
  then obtain ws where sub: "seg_match ps (tl ss) = Some ws" "hd ss \<noteq> ''/''" by (auto split: if_splits)
  with 4 have rest: "tl ss \<noteq> []" by (cases ss) auto
  then have "ps \<noteq> []" using sub(1) by auto
  moreover have "last ps = PMulti"
    using "4.IH" [OF _ sub(1) rest] "4.prems" sub(2) rest by (cases ss) auto
  ultimately show ?case by simp
qed (auto split: if_splits)

lemma clean_slash:
  assumes "clean_path p = p"
  shows "path_segments p \<noteq> [] \<and> path_segments (p @ ''/'') \<noteq> [] \<and> last (path_segments (p @ ''/'')) = ''/'' \<and>
    2 \<le> count_list (p @ ''/'') CHR ''/'' \<and>
    (count_list (p @ ''/'') CHR ''/'' = 2 \<longrightarrow>
      path_segments (p @ ''/'') = [[], ''/''] \<or> (\<exists>x. path_segments p = [x] \<and> path_segments (p @ ''/'') = [x, ''/''])) \<and>
    (\<forall>x. path_segments p = [x] \<and> x \<noteq> ''/'' \<longrightarrow> last p \<noteq> CHR ''/'' \<and> path_segments (p @ ''/'') = [x, ''/''] \<and> count_list (p @ ''/'') CHR ''/'' = 2)"
proof -
  have two: "path_segments ''//'' = [[], ''/'']" by code_simp
  consider "p = ''/''" | ss where "ss \<noteq> []" "list_all plain_seg ss" "p = join_path ss"
    | ss where "ss \<noteq> []" "list_all plain_seg ss" "p = join_path ss @ ''/''"
    using clean_path_form [of p] assms by metis
  then show ?thesis
  proof cases
    case 1
    with two show ?thesis by simp
  next
    case 2
    then show ?thesis using path_segments_join [of ss "[]"] path_segments_join [of ss "''/''"] count_slash_join [of ss] join_last [of ss]
      by (cases ss) auto
  next
    case 3
    then show ?thesis using path_segments_join [of ss "''/''"] path_segments_join [of ss "''//''"] count_slash_join [of ss] two
      by (cases ss) auto
  qed
qed

lemma slash_exact:
  assumes "flat_mux mux" and "clean_path p = p"
  shows "exact_match (mux_match mux (p @ ''/'')) (p @ ''/'') \<longleftrightarrow>
    lacks_slash mux p" (is "?exact \<longleftrightarrow> ?sub")
proof
  note cl = clean_slash [OF assms(2)]
  assume ?exact
  then obtain ps h vs where m: "mux_match mux (p @ ''/'') = Some ((ps, h), vs)"
    and ex: "last ps \<noteq> PMulti \<or> length ps = count_list (p @ ''/'') CHR ''/''"
    by (auto simp: exact_match_def split: option.splits)
  from mux_match_Some [OF m] obtain q where q: "(q, h) \<in> set mux" "ps = parse_pattern q"
    "seg_match ps (path_segments (p @ ''/'')) = Some vs" by blast
  have lits: "PLit ''/'' \<notin> set ps" "PLit [] \<notin> set ps" and shape: "q = ''/'' \<or> last ps \<noteq> PMulti \<or> (\<exists>a. ps = [PLit a, PMulti])"
    using assms(1) q(1,2) by (auto simp: flat_mux_def)
  have multi: "last ps = PMulti" using seg_match_slash [OF q(3) _ _ lits(1)] cl by blast
  with ex have len: "length ps = count_list (p @ ''/'') CHR ''/''" by simp
  then have "2 \<le> length ps" using cl by presburger
  then have "q \<noteq> ''/''" using q(2) by auto
  with shape multi obtain a where a: "ps = [PLit a, PMulti]" by blast
  then have "count_list (p @ ''/'') CHR ''/'' = 2" using len by simp
  with cl have "path_segments (p @ ''/'') = [[], ''/''] \<or> (\<exists>x. path_segments p = [x] \<and> path_segments (p @ ''/'') = [x, ''/''])"
    by blast
  with q(3) a lits(2) have "path_segments p = [a]" by (auto split: if_splits)
  moreover have "parse_pattern q = [PLit a, PMulti]" using a q(2) by simp
  ultimately show ?sub using q(1) unfolding lacks_slash_def by blast
next
  assume ?sub
  then obtain a q k where sub: "path_segments p = [a]" "(q, k) \<in> set mux" "parse_pattern q = [PLit a, PMulti]"
    unfolding lacks_slash_def by blast
  then have "a \<noteq> ''/''" "q \<noteq> ''/''" using assms(1) by (force simp: flat_mux_def)+
  then have two: "path_segments (p @ ''/'') = [a, ''/'']" "count_list (p @ ''/'') CHR ''/'' = 2"
    using clean_slash [OF assms(2)] sub(1) by blast+
  have "mux_match mux (p @ ''/'') = Some ((parse_pattern q, k), [])"
    by (rule mux_match_pattern [OF _ sub(2) \<open>q \<noteq> ''/''\<close>]) (use assms(1) sub(3) two in \<open>auto simp: flat_mux_def\<close>)
  with sub(3) two(2) show ?exact by (simp add: exact_match_def)
qed

lemma mux_route_clean:
  assumes "flat_mux mux" and "clean_path p = p"
  shows "mux_route mux p =
    (if \<not> exact_match (mux_match mux p) p \<and> lacks_slash mux p
     then MovedPermanently
     else (case mux_match mux p of None \<Rightarrow> NotFound | Some ((ps, h), vs) \<Rightarrow> Routed h (zip (wild_names ps) vs)))"
  using assms(2) slash_exact [OF assms] by (simp add: mux_route_def Let_def)

lemma mux_route_unclean: "clean_path p \<noteq> p \<Longrightarrow> mux_route mux p = MovedPermanently"
  by (simp add: mux_route_def Let_def)

lemma mux_route_pattern:
  assumes "flat_mux mux" and "clean_path p = p" and "(q, k) \<in> set mux" and "q \<noteq> ''/''"
    and "seg_match (parse_pattern q) (path_segments p) = Some vs"
  shows "mux_route mux p = Routed k (zip (wild_names (parse_pattern q)) vs)"
proof -
  have lits: "literal_heads mux" using assms(1) by (simp add: flat_mux_def)
  note m = mux_match_pattern [OF lits assms(3-5)]
  have "exact_match (mux_match mux p) p" if "path_segments p = [a]" for a
  proof -
    have "last (parse_pattern q) \<noteq> PMulti \<or> (\<exists>b. parse_pattern q = [PLit b, PMulti])"
      using assms(1,3,4) by (auto simp: flat_mux_def)
    with assms(5) that m show ?thesis by (auto simp: exact_match_def split: if_splits)
  qed
  then show ?thesis unfolding mux_route_clean [OF assms(1,2)] by (auto simp: m lacks_slash_def)
qed

lemma mux_route_root:
  assumes "flat_mux mux" and "clean_path p = p" and "(''/'', k) \<in> set mux"
    and "\<forall>(q, h) \<in> set mux. q \<noteq> ''/'' \<longrightarrow> seg_match (parse_pattern q) (path_segments p) = None"
    and "\<not> lacks_slash mux p"
  shows "mux_route mux p = Routed k []"
proof -
  have "literal_heads mux" using assms(1) by (simp add: flat_mux_def)
  moreover have "path_segments p \<noteq> []" using clean_slash [OF assms(2)] by blast
  ultimately have "mux_match mux p = Some (([PMulti], k), [])" by (rule mux_match_root [OF _ assms(3) _ assms(4)])
  with assms(5) show ?thesis unfolding mux_route_clean [OF assms(1,2)] by simp
qed

lemma mux_route_slash:
  assumes "flat_mux mux" and "clean_path p = p" and "(''/'', h) \<in> set mux"
    and "(q, k) \<in> set mux" and "parse_pattern q = [PLit a, PMulti]" and "path_segments p = [a]"
  shows "mux_route mux p = MovedPermanently"
proof -
  have lits: "literal_heads mux" using assms(1) by (simp add: flat_mux_def)
  have "seg_match (parse_pattern r) [a] = None" if r: "(r, i) \<in> set mux" "r \<noteq> ''/''" for r i
  proof (rule ccontr)
    assume "seg_match (parse_pattern r) [a] \<noteq> None"
    then obtain vs where "seg_match (parse_pattern r) [a] = Some vs" by blast
    from literal_head_match [OF lits r this] have "(r, i) = (q, k)"
      using literal_heads_unique [OF lits r(1) assms(4)] assms(5) by simp
    with assms(5) \<open>seg_match (parse_pattern r) [a] \<noteq> None\<close> show False by simp
  qed
  then have m: "mux_match mux p = Some (([PMulti], h), [])"
    by (intro mux_match_root [OF lits assms(3)]) (auto simp: assms(6))
  have "a \<noteq> ''/''" using assms(1,4,5) by (force simp: flat_mux_def)
  then have "last p \<noteq> CHR ''/''" using clean_slash [OF assms(2)] assms(6) by blast
  then have "\<not> exact_match (mux_match mux p) p" using m by (simp add: exact_match_def)
  moreover have "lacks_slash mux p" using assms(4-6) unfolding lacks_slash_def by blast
  ultimately show ?thesis unfolding mux_route_clean [OF assms(1,2)] by simp
qed

end
