(* ===== verification/Slack_Routes.thy ===== *)
theory Slack_Routes
  imports Slack_Concurrent Go_Routes
begin

text \<open>
  The routes of \<open>main\<close> in \<open>slack/main.go\<close>: which handler a path reaches and with which path values, and
  the server for one request from its path to its answer. The file server answers from its files. The socket library is a parameter:
  which heartbeat events a request to its path raises; the registered handler then runs for each of them.
\<close>

datatype slack_endpoint = EpFiles | EpCreateUser | EpCreateChannel | EpSendMessage | EpSocket | EpStatus

definition slack_mux :: "slack_endpoint mux" where
  "slack_mux =
     [(''/'', EpFiles), (''/createUser/{userName}'', EpCreateUser),
      (''/channel/{senderName}/{receiverName}'', EpCreateChannel), (''/message/{senderId}/{channelId}'', EpSendMessage),
      (''/socket.io/'', EpSocket), (''/status'', EpStatus)]"

definition slack_request_of :: "bool \<Rightarrow> time \<Rightarrow> json option \<Rightarrow> slack_endpoint routed \<Rightarrow> request option" where
  "slack_request_of up t body rt =
     (case rt of
        Routed ep vs \<Rightarrow>
          (case ep of
             EpCreateUser \<Rightarrow> Some (ReqCreateUser up t (path_value vs ''userName''))
           | EpCreateChannel \<Rightarrow> Some (ReqCreateChannel up t (path_value vs ''senderName'') (path_value vs ''receiverName''))
           | EpSendMessage \<Rightarrow> Some (ReqSendMessage up t (path_value vs ''senderId'') (path_value vs ''channelId'') body)
           | EpStatus \<Rightarrow> Some (ReqStatus up t)
           | _ \<Rightarrow> None)
      | _ \<Rightarrow> None)"

text \<open>The heartbeats that a request to the socket library has delivered, one after the other; one that panics ends the process.\<close>

fun socket_events :: "'db slack_run \<Rightarrow> (time \<times> conn \<times> json) list \<Rightarrow> ws_map \<Rightarrow> 'db \<Rightarrow> unit go \<times> ws_map \<times> 'db" where
  "socket_events run [] wsMap d = (Inr (), wsMap, d)"
| "socket_events run ((t, c, msg) # events) wsMap d =
     (case heartbeat run t c msg wsMap d of
        (Inl p, wsMap', d') \<Rightarrow> (Inl p, wsMap', d')
      | (Inr _, wsMap', d') \<Rightarrow> socket_events run events wsMap' d')"

text \<open>
  One request: the outcome of its handler, if it reaches one of the four (the answers of the file server and the socket library are
  theirs), and the database it leaves. That a panicking heartbeat ends the process is said by \<open>socket_events\<close>, and what is left of the
  connection map by \<open>Slack_Sockets\<close> and \<open>Slack_System\<close>; here only the database and the answer are kept.
\<close>

definition slack_serve ::
    "'db slack_run \<Rightarrow> ws_map \<Rightarrow> (time \<times> conn \<times> json) list \<Rightarrow> bool \<Rightarrow> time \<Rightarrow> json option \<Rightarrow> string \<Rightarrow> 'db \<Rightarrow> outcome option \<times> 'db" where
  "slack_serve run ws events up t body p d =
     (case slack_request_of up t body (mux_route slack_mux p) of
        Some req \<Rightarrow> (case slack_handle run ws req d of (out, d1) \<Rightarrow> (Some out, d1))
      | None \<Rightarrow>
          (case mux_route slack_mux p of
             Routed EpSocket vs \<Rightarrow> (None, snd (snd (socket_events run events ws d)))
           | _ \<Rightarrow> (None, d)))"

lemma slack_serve_handler:
  "slack_serve run ws events up t body p d = (Some out, d') \<longleftrightarrow>
    (\<exists>req. slack_request_of up t body (mux_route slack_mux p) = Some req \<and> slack_handle run ws req d = (out, d'))"
  by (auto simp: slack_serve_def split: option.splits prod.splits routed.splits slack_endpoint.splits)

subsection \<open>Where a path leads\<close>

definition slack_target :: "string list \<Rightarrow> slack_endpoint routed" where
  "slack_target ss =
     (if ss = [''socket.io''] then MovedPermanently
      else if ss = [''status''] then Routed EpStatus []
      else if length ss = 2 \<and> hd ss = ''createUser'' \<and> ss ! 1 \<noteq> ''/'' then Routed EpCreateUser [(''userName'', ss ! 1)]
      else if length ss = 3 \<and> hd ss = ''channel'' \<and> ss ! 1 \<noteq> ''/'' \<and> ss ! 2 \<noteq> ''/''
        then Routed EpCreateChannel [(''senderName'', ss ! 1), (''receiverName'', ss ! 2)]
      else if length ss = 3 \<and> hd ss = ''message'' \<and> ss ! 1 \<noteq> ''/'' \<and> ss ! 2 \<noteq> ''/''
        then Routed EpSendMessage [(''senderId'', ss ! 1), (''channelId'', ss ! 2)]
      else if 2 \<le> length ss \<and> hd ss = ''socket.io'' then Routed EpSocket []
      else Routed EpFiles [])"

lemma slack_patterns:
  "parse_pattern ''/createUser/{userName}'' = [PLit ''createUser'', PWild ''userName'']"
  "parse_pattern ''/channel/{senderName}/{receiverName}'' = [PLit ''channel'', PWild ''senderName'', PWild ''receiverName'']"
  "parse_pattern ''/message/{senderId}/{channelId}'' = [PLit ''message'', PWild ''senderId'', PWild ''channelId'']"
  "parse_pattern ''/socket.io/'' = [PLit ''socket.io'', PMulti]"
  "parse_pattern ''/status'' = [PLit ''status'']"
  by code_simp+

lemma slack_flat: "flat_mux slack_mux"
  by (simp add: flat_mux_def literal_heads_def slack_mux_def slack_patterns)

lemma slack_none:
  assumes "slack_target ss = Routed EpFiles []" and "(q, k) \<in> set slack_mux" and "q \<noteq> ''/''"
  shows "seg_match (parse_pattern q) ss = None"
proof -
  have none: "\<not> (length ss = 2 \<and> hd ss = ''createUser'' \<and> ss ! 1 \<noteq> ''/'')" "ss \<noteq> [''status'']"
    "\<not> (length ss = 3 \<and> hd ss = ''channel'' \<and> ss ! 1 \<noteq> ''/'' \<and> ss ! 2 \<noteq> ''/'')"
    "\<not> (length ss = 3 \<and> hd ss = ''message'' \<and> ss ! 1 \<noteq> ''/'' \<and> ss ! 2 \<noteq> ''/'')"
    "\<not> (2 \<le> length ss \<and> hd ss = ''socket.io'')"
    using assms(1) by (auto simp: slack_target_def split: if_splits)
  from assms(2,3) have "parse_pattern q \<in>
      {[PLit ''createUser'', PWild ''userName''], [PLit ''channel'', PWild ''senderName'', PWild ''receiverName''],
       [PLit ''message'', PWild ''senderId'', PWild ''channelId''], [PLit ''socket.io'', PMulti], [PLit ''status'']}"
    unfolding slack_mux_def using slack_patterns by auto
  then show ?thesis unfolding insert_iff empty_iff by (elim disjE) (simp_all only: seg_matches none if_False)
qed

lemma slack_other:
  assumes "ss \<noteq> [''socket.io'']" and "ss \<noteq> [''status'']" and "\<And>b. ss = [''createUser'', b] \<Longrightarrow> b = ''/''"
    and "\<And>b c. ss = [''channel'', b, c] \<Longrightarrow> b = ''/'' \<or> c = ''/''" and "\<And>b c. ss = [''message'', b, c] \<Longrightarrow> b = ''/'' \<or> c = ''/''"
    and "\<And>b r. ss \<noteq> ''socket.io'' # b # r"
  shows "slack_target ss = Routed EpFiles []"
proof -
  have "ss ! 1 = ''/''" if "length ss = 2" "hd ss = ''createUser''"
    using that assms(3) by (auto simp: numeral_eq_Suc length_Suc_conv)
  moreover have "ss ! 1 = ''/'' \<or> ss ! 2 = ''/''" if "length ss = 3" "hd ss = ''channel'' \<or> hd ss = ''message''"
    using that assms(4,5) by (auto simp: numeral_eq_Suc length_Suc_conv)
  moreover have "\<not> (2 \<le> length ss \<and> hd ss = ''socket.io'')"
    using assms(6) by (cases ss rule: list.exhaust; cases "tl ss") auto
  ultimately show ?thesis using assms(1,2) unfolding slack_target_def by auto
qed

lemma slack_route_clean:
  assumes "clean_path p = p"
  shows "mux_route slack_mux p = slack_target (path_segments p)"
proof -
  let ?ss = "path_segments p"
  note pattern = mux_route_pattern [OF slack_flat assms]
  have mem: "(''/'', EpFiles) \<in> set slack_mux" "(''/createUser/{userName}'', EpCreateUser) \<in> set slack_mux"
    "(''/channel/{senderName}/{receiverName}'', EpCreateChannel) \<in> set slack_mux"
    "(''/message/{senderId}/{channelId}'', EpSendMessage) \<in> set slack_mux" "(''/socket.io/'', EpSocket) \<in> set slack_mux"
    "(''/status'', EpStatus) \<in> set slack_mux" by (simp_all add: slack_mux_def)
  consider (slash) "?ss = [''socket.io'']" | (status) "?ss = [''status'']"
    | (user) b where "?ss = [''createUser'', b]" "b \<noteq> ''/''"
    | (chan) b c where "?ss = [''channel'', b, c]" "b \<noteq> ''/''" "c \<noteq> ''/''"
    | (message) b c where "?ss = [''message'', b, c]" "b \<noteq> ''/''" "c \<noteq> ''/''"
    | (sock) b r where "?ss = ''socket.io'' # b # r" | (other) "slack_target ?ss = Routed EpFiles []"
    using slack_other [of ?ss] by blast
  then show ?thesis
  proof cases
    case slash
    with mux_route_slash [OF slack_flat assms mem(1,5) slack_patterns(4)] show ?thesis by (simp add: slack_target_def)
  next
    case status
    then show ?thesis using pattern [OF mem(6)] by (simp add: slack_patterns wild_names_def slack_target_def)
  next
    case user
    then show ?thesis using pattern [OF mem(2)] by (simp add: slack_patterns wild_names_def slack_target_def)
  next
    case chan
    then show ?thesis using pattern [OF mem(3)] by (simp add: slack_patterns wild_names_def slack_target_def)
  next
    case message
    then show ?thesis using pattern [OF mem(4)] by (simp add: slack_patterns wild_names_def slack_target_def)
  next
    case sock
    then show ?thesis using pattern [OF mem(5)] by (simp add: slack_patterns wild_names_def slack_target_def)
  next
    case other
    then have "?ss \<noteq> [''socket.io'']" by (auto simp: slack_target_def)
    then have "\<not> lacks_slash slack_mux p" by (auto simp: lacks_slash_def slack_mux_def slack_patterns)
    with mux_route_root [OF slack_flat assms mem(1)] slack_none [OF other] other show ?thesis by auto
  qed
qed

subsection \<open>Paths a client builds\<close>

definition unroutable :: "string list" where
  "unroutable = [[], ''.'', ''..'', ''/'']"

lemma unescaped_roots [simp]:
  "unescaped ''createUser'' = ''createUser''" "unescaped ''channel'' = ''channel''" "unescaped ''message'' = ''message''"
  by code_simp+

lemma plain_roots [simp]: "plain_seg ''createUser''" "plain_seg ''channel''" "plain_seg ''message''"
  by (simp_all add: plain_seg_def)

text \<open>The decoded last segment: an empty name leaves a trailing slash.\<close>

lemma last_value: "(if path_escape n = [] then ''/'' else unescaped (path_escape n)) = (if n = [] then ''/'' else n)"
  by simp

lemma route_one:
  assumes "plain_seg root"
  shows "mux_route slack_mux (CHR ''/'' # root @ CHR ''/'' # path_escape n) =
    (if n \<in> {''.'', ''..''} then MovedPermanently else slack_target [unescaped root, if n = [] then ''/'' else n])"
proof -
  have "CHR ''/'' \<notin> set root" using assms by (simp add: plain_seg_def)
  then have "clean_path (join_path [root, path_escape n]) = join_path [root, path_escape n] \<longleftrightarrow> n \<notin> {''.'', ''..''}"
    using clean_join_iff [of "[root, path_escape n]"] assms by auto
  with slack_route_clean [of "join_path [root, path_escape n]"] mux_route_unclean [of "join_path [root, path_escape n]" slack_mux]
    join_segments [of "[root]" "path_escape n"] assms show ?thesis by auto
qed

lemma route_two:
  assumes "plain_seg root"
  shows "mux_route slack_mux (CHR ''/'' # root @ CHR ''/'' # path_escape m @ CHR ''/'' # path_escape n) =
    (if m \<in> {[], ''.'', ''..''} \<or> n \<in> {''.'', ''..''} then MovedPermanently
     else slack_target [unescaped root, m, if n = [] then ''/'' else n])"
proof -
  let ?p = "join_path [root, path_escape m, path_escape n]"
  have "CHR ''/'' \<notin> set root" using assms by (simp add: plain_seg_def)
  then have "clean_path ?p = ?p \<longleftrightarrow> m \<notin> {[], ''.'', ''..''} \<and> n \<notin> {''.'', ''..''}"
    using clean_join_iff [of "[root, path_escape m, path_escape n]"] assms by auto
  with slack_route_clean [of ?p] mux_route_unclean [of ?p slack_mux]
    join_segments [of "[root, path_escape m]" "path_escape n"] assms show ?thesis by auto
qed

lemma request_createUser:
  "slack_request_of up t body (mux_route slack_mux (''/createUser/'' @ path_escape n)) =
    (if n \<in> set unroutable then None else Some (ReqCreateUser up t n))"
  using route_one [of "''createUser''" n] by (auto simp: slack_request_of_def slack_target_def unroutable_def path_value_def)

lemma request_createChannel:
  "slack_request_of up t body (mux_route slack_mux (''/channel/'' @ path_escape a @ ''/'' @ path_escape b)) =
    (if a \<in> set unroutable \<or> b \<in> set unroutable then None else Some (ReqCreateChannel up t a b))"
  using route_two [of "''channel''" a b] by (auto simp: slack_request_of_def slack_target_def unroutable_def path_value_def)

lemma request_sendMessage:
  "slack_request_of up t body (mux_route slack_mux (''/message/'' @ path_escape a @ ''/'' @ path_escape b)) =
    (if a \<in> set unroutable \<or> b \<in> set unroutable then None else Some (ReqSendMessage up t a b body))"
  using route_two [of "''message''" a b] by (auto simp: slack_request_of_def slack_target_def unroutable_def path_value_def)

lemma show_int_safe: "path_escape (show_int i) = show_int i"
proof (rule escape_safe)
  have "path_safe c" if "is_digit c \<or> c = CHR ''-''" for c
    using that by (auto simp: path_safe_def is_digit_def Let_def)
  then show "list_all path_safe (show_int i)" using show_int_set by (auto simp: list_all_iff)
qed

lemma show_int_routable: "show_int i \<notin> set unroutable"
proof
  assume "show_int i \<in> set unroutable"
  moreover have "show_int i \<noteq> []" by (simp add: show_int_def)
  moreover have "CHR ''.'' \<notin> set (show_int i)" "CHR ''/'' \<notin> set (show_int i)"
    using show_int_set by (force simp: is_digit_def)+
  ultimately show False by (auto simp: unroutable_def)
qed

subsection \<open>Answers\<close>

text \<open>
  What every answer looks like, for a client that takes it or not (\<open>up\<close>): status 200 and one JSON value, or status 500 and a
  text.
\<close>

definition answer_typed :: "bool \<Rightarrow> response \<Rightarrow> bool" where
  "answer_typed up w \<longleftrightarrow>
     rw_status w = Some 200 \<and> (\<exists>j. rw_body w = (if up then [Json j] else [])) \<or>
     rw_status w = Some 500 \<and> (\<exists>msg. rw_body w = (if up then [Text msg] else []))"

named_theorems typed

lemma typed_http [typed]:
  "answer_typed up (fail_text up msg)" "answer_typed up (http_json up j new_response)"
  by (simp_all add: answer_typed_def fail_text_def http_json_def http_defs)

lemma typed_db_try [typed]:
  "(\<And>d1. answer_typed up (fst (f d1))) \<Longrightarrow> (\<And>r d1. answer_typed up (fst (k r d1))) \<Longrightarrow> answer_typed up (fst (db_try run q d f k))"
  by (simp add: db_try_def split: prod.splits sum.splits)

lemma createUser_typed: "answer_typed up (fst (createUser run up t n d))"
  unfolding createUser_def by (intro typed_db_try) (auto simp: Let_def typed split: option.splits)

lemma createChannel_typed: "answer_typed up (fst (createChannel run up t s r d))"
  unfolding createChannel_def with_user_id_def open_channel_def show_channel_def Let_def
  by (auto simp: typed split: option.splits intro!: typed_db_try)

lemma sendMessage_typed: "decode_request body \<noteq> None \<Longrightarrow> answer_typed up (fst (sendMessage run up t s c body ws d))"
  unfolding sendMessage_def Let_def by (auto simp: typed split: option.splits intro!: typed_db_try)

lemma sendMessage_400:
  "decode_request body = None \<Longrightarrow> rw_status (fst (sendMessage run up t s c body ws d)) = Some 400 \<and>
    rw_body (fst (sendMessage run up t s c body ws d)) = (if up then [Text (''Invalid request payload'' @ [CHR 0x0A])] else [])"
  by (simp add: sendMessage_def http_error_def http_defs)

lemma slack_status_typed: "answer_typed up (fst (slack_status run up t d))"
proof -
  have "answer_typed up (snd (write_chunk up (Json j) (write_header 200 new_response)))" for j
    by (simp add: answer_typed_def http_defs)
  then show ?thesis unfolding slack_status_def by (intro typed_db_try) (auto simp: typed split: option.splits)
qed

lemma slack_handle_typed:
  assumes "slack_handle run ws req d = (out, d')" and "slack_request_of up t body rt = Some req"
  shows "\<exists>w. out = Http w \<and>
    (if (\<exists>s c. req = ReqSendMessage up t s c body) \<and> decode_request body = None
     then rw_status w = Some 400 \<and> rw_body w = (if up then [Text (''Invalid request payload'' @ [CHR 0x0A])] else [])
     else answer_typed up w)"
proof (cases req)
  case (ReqSendMessage u t' s c b)
  with assms(2) have "u = up" "t' = t" "b = body" by (auto simp: slack_request_of_def split: routed.splits slack_endpoint.splits)
  with ReqSendMessage assms(1) sendMessage_typed [of body up run t s c ws d] sendMessage_400 [of body run up t s c ws d] show ?thesis
    by (auto simp: slack_handle_def split: prod.splits)
next
  case (ReqCreateUser u t' n)
  with assms(2) have "u = up" by (auto simp: slack_request_of_def split: routed.splits slack_endpoint.splits)
  with ReqCreateUser assms(1) createUser_typed [of u run t' n d] show ?thesis by (auto simp: slack_handle_def split: prod.splits)
next
  case (ReqCreateChannel u t' s r)
  with assms(2) have "u = up" by (auto simp: slack_request_of_def split: routed.splits slack_endpoint.splits)
  with ReqCreateChannel assms(1) createChannel_typed [of u run t' s r d] show ?thesis by (auto simp: slack_handle_def split: prod.splits)
next
  case (ReqStatus u t')
  with assms(2) have "u = up" by (auto simp: slack_request_of_def split: routed.splits slack_endpoint.splits)
  with ReqStatus assms(1) slack_status_typed [of u run t' d] show ?thesis by (auto simp: slack_handle_def split: prod.splits)
qed (use assms(2) in \<open>auto simp: slack_request_of_def split: routed.splits slack_endpoint.splits\<close>)

subsection \<open>Properties\<close>

text \<open>
  Where every path leads. A path that is not clean is redirected, and so is the socket path without its
  slash; a clean path reaches the handler of the pattern that its decoded segments match, with these segments as path values,
  and the file server when it matches none. (A segment that decodes to a slash never matches a
  wildcard.)
\<close>

theorem slack_routes:
  "mux_route slack_mux p = (if clean_path p = p then slack_target (path_segments p) else MovedPermanently)"
  by (simp add: slack_route_clean mux_route_unclean)

text \<open>
  C18. Names survive the trip through the URL. A client that writes names into a path with percent
  encoding reaches the handler with exactly these names, whatever bytes they are made of, except
  for the empty name, the slash and the two dot names: with one of these no handler is reached.
\<close>

theorem slack_url_roundtrip:
  "slack_request_of up t body (mux_route slack_mux (''/createUser/'' @ path_escape n)) =
     (if n \<in> {[], ''.'', ''..'', ''/''} then None else Some (ReqCreateUser up t n)) \<and>
   slack_request_of up t body (mux_route slack_mux (''/channel/'' @ path_escape m @ ''/'' @ path_escape n)) =
     (if m \<in> {[], ''.'', ''..'', ''/''} \<or> n \<in> {[], ''.'', ''..'', ''/''} then None else Some (ReqCreateChannel up t m n)) \<and>
   slack_request_of up t body (mux_route slack_mux (''/message/'' @ path_escape m @ ''/'' @ path_escape n)) =
     (if m \<in> {[], ''.'', ''..'', ''/''} \<or> n \<in> {[], ''.'', ''..'', ''/''} then None else Some (ReqSendMessage up t m n body))"
  unfolding request_createUser request_createChannel request_sendMessage by (simp add: unroutable_def)

text \<open>
  C19. The type of an answer. Whatever the path, the body, the connections and the database do, a request that reaches a
  handler is answered in one of three ways: with status 200 and one JSON value, with status 500 and a text, or, exactly when it is a
  message whose body is not a request, with status 400 and the text of \<open>http.Error\<close>. (A client that is gone takes no body.)
\<close>

theorem slack_answer_type:
  "case slack_serve run ws events up t body p d of
     (None, d') \<Rightarrow> slack_request_of up t body (mux_route slack_mux p) = None
   | (Some out, d') \<Rightarrow> \<exists>w. out = Http w \<and>
       (if (\<exists>s c. slack_request_of up t body (mux_route slack_mux p) = Some (ReqSendMessage up t s c body)) \<and> decode_request body = None
        then rw_status w = Some 400 \<and> rw_body w = (if up then [Text (''Invalid request payload'' @ [CHR 0x0A])] else [])
        else rw_status w = Some 200 \<and> (\<exists>j. rw_body w = (if up then [Json j] else [])) \<or>
          rw_status w = Some 500 \<and> (\<exists>msg. rw_body w = (if up then [Text msg] else [])))"
proof (cases "slack_request_of up t body (mux_route slack_mux p)")
  case None
  obtain d' where "slack_serve run ws events up t body p d = (None, d')"
    using slack_serve_handler [of run ws events up t body p d] None by (cases "slack_serve run ws events up t body p d") (auto split: option.splits)
  with None show ?thesis by simp
next
  case (Some req)
  obtain out d' where h: "slack_handle run ws req d = (out, d')" by fastforce
  have "slack_serve run ws events up t body p d = (Some out, d')" using Some h by (simp add: slack_serve_handler)
  then show ?thesis
    using slack_handle_typed [OF h Some] by (simp only: Some option.case prod.case option.inject answer_typed_def)
qed

end
