(* ===== verification/Slack_Session.thy ===== *)
theory Slack_Session
  imports Slack_Routes
begin

text \<open>
  A session of two users over the routes of \<open>slack/main.go\<close>: one opens a channel with the other, reads its id off the
  answer and writes a message, the other asks for the channel.
\<close>

lemma shared_channels_frame:
  "channels T = channels T' \<Longrightarrow> memberships T = memberships T' \<Longrightarrow> shared_channels a b T = shared_channels a b T'"
  by (simp add: shared_channels_def)

lemma only_user_frame: "users T = users T' \<Longrightarrow> only_user R T = only_user R T'"
  by (simp add: only_user_def fun_eq_iff)

lemma newest_two:
  assumes "mset (filter (\<lambda>m. msg_ChannelID m = c) ms) = {#x, y#}"
  shows "mset (newest 10 c ms) = {#x, y#}"
proof -
  have "length (filter (\<lambda>m. msg_ChannelID m = c) ms) = 2" using arg_cong [OF assms, of size] unfolding size_mset by simp
  with assms show ?thesis by (simp add: newest_def)
qed

text \<open>After the opening and one message, the channel shows both.\<close>

lemma opened_then_sent:
  assumes "slack_wf T" and "fresh_id c (map ChannelID (channels T))"
    and "mset ms = mset (messages (opened 4 t s r a b (c, m, b1, b2) T)) + {#x#}" and "msg_ChannelID x = c"
  shows "mset (newest 10 c ms) = {#\<lparr>MessageID = m, SenderID = a, msg_ChannelID = c, Msg = created_text r, CreatedAt = t\<rparr>, x#}"
proof (rule newest_two)
  have "filter (\<lambda>m. msg_ChannelID m = c) (messages T) = []"
    using assms(1,2) by (auto simp: slack_wf_def fresh_id_def list_all_iff filter_empty_conv)
  then show "mset (filter (\<lambda>m. msg_ChannelID m = c) ms) =
      {#\<lparr>MessageID = m, SenderID = a, msg_ChannelID = c, Msg = created_text r, CreatedAt = t\<rparr>, x#}"
    unfolding mset_filter assms(3) using assms(4) by (simp add: opened_def add_mset_commute flip: mset_filter)
qed

text \<open>The handler behind a path.\<close>

lemma serve_createChannel:
  assumes "slack_serve run ws ev up t body (''/channel/'' @ path_escape s @ ''/'' @ path_escape r) d = (Some (Http w), d')"
  obtains calls where "createChannel run up t s r d = (w, d', calls)"
  using assms unfolding slack_serve_handler request_createChannel by (auto simp: slack_handle_def split: if_splits prod.splits)

lemma serve_sendMessage:
  assumes "slack_serve run ws ev up t body (''/message/'' @ show_int k @ ''/'' @ show_int c) d = (Some (Http w), d')"
  obtains emits where "sendMessage run up t (show_int k) (show_int c) body ws d = (w, d', emits)"
  using assms unfolding slack_serve_handler request_sendMessage [of up t body "show_int k" "show_int c", unfolded show_int_safe]
  by (auto simp: show_int_routable slack_handle_def split: prod.splits)

lemma json_message_channel: "message_json m = message_json m' \<Longrightarrow> msg_ChannelID m = msg_ChannelID m'"
  by (simp add: message_json_def)

context slack_server
begin

lemma session:
  assumes wf: "slack_wf (tables d)" and a: "only_user R (tables d) s a" and b: "only_user R (tables d) r b"
    and none: "shared_channels a b (tables d) = []"
    and first: "slack_serve run ws ev1 True t1 body1 (''/channel/'' @ path_escape s @ ''/'' @ path_escape r) d = (Some (Http w1), d1)"
      "rw_status w1 = Some 200" "rw_body w1 = [Json (JArr [message_json hello])]"
    and second: "slack_serve run ws ev2 True t2 body2 (''/message/'' @ show_int a @ ''/'' @ show_int (msg_ChannelID hello)) d1 = (Some (Http w2), d2)"
      "rw_status w2 = Some 200" "decode_request body2 = Some txt"
    and third: "slack_serve run ws ev3 True t3 body3 (''/channel/'' @ path_escape r @ ''/'' @ path_escape s) d2 = (Some (Http w3), d3)"
      "rw_status w3 = Some 200"
    and small: "- (2 ^ 31) \<le> a \<and> a < 2 ^ 31" "- (2 ^ 31) \<le> msg_ChannelID hello \<and> msg_ChannelID hello < 2 ^ 31"
  shows "\<exists>ms m i. rw_body w3 = [Json (JArr (map message_json ms))] \<and>
    mset ms = {#\<lparr>MessageID = m, SenderID = a, msg_ChannelID = msg_ChannelID hello, Msg = created_text r, CreatedAt = store_time R t1\<rparr>,
      \<lparr>MessageID = i, SenderID = a, msg_ChannelID = msg_ChannelID hello, Msg = txt, CreatedAt = store_time R t2\<rparr>#}"
proof -
  obtain calls where create: "createChannel run True t1 s r d = (w1, d1, calls)" by (rule serve_createChannel [OF first(1)])
  obtain c m b1 b2 where c: "tables d1 = opened 4 (store_time R t1) s r a b (c, m, b1, b2) (tables d)"
    "calls = [open_call s r b c]" "fresh_id c (map ChannelID (channels (tables d)))" "w1 = open_reply True r c m"
    using channel_opens [OF wf a b none create first(2)] .
  have "message_json hello = message_json \<lparr>MessageID = m, SenderID = 0, msg_ChannelID = c, Msg = created_text r, CreatedAt = zero_time\<rparr>"
    using first(3) by (simp add: c(4) open_reply_def http_json_body)
  from json_message_channel [OF this] have op: "msg_ChannelID hello = c" by simp
  have wf1: "slack_wf (tables d1)" using createChannel_wf [OF wf, of True t1 s r] create by simp
  obtain emits where sent: "sendMessage run True t2 (show_int a) (show_int c) body2 ws d1 = (w2, d2, emits)"
    using serve_sendMessage [OF second(1)] op by metis
  obtain i where T2: "tables d2 = (tables d1)\<lparr>messages := messages (tables d1) @
      [\<lparr>MessageID = i, SenderID = a, msg_ChannelID = c, Msg = txt, CreatedAt = store_time R t2\<rparr>]\<rparr>"
    using message_sent [OF wf1 sent second(2) small [unfolded op]] second(3) by auto
  have wf2: "slack_wf (tables d2)" using sendMessage_wf [OF wf1, of True t2 "show_int a" "show_int c" body2 ws] sent by simp
  have "only_user R (tables d2) = only_user R (tables d)" by (rule only_user_frame) (simp add: T2 c(1) opened_def)
  with a b have users: "only_user R (tables d2) r b" "only_user R (tables d2) s a" by simp_all
  have same: "shared_channels b a (tables d2) = shared_channels b a (tables d1)" by (rule shared_channels_frame) (simp_all add: T2)
  have "\<lparr>ChannelID = c, ChannelType = ''DM'', ChannelName = s @ ''_'' @ r\<rparr> \<in> set (shared_channels b a (tables d1))"
    by (auto simp: c(1) opened_def shared_channels_set)
  then have some: "shared_channels b a (tables d2) \<noteq> []" using same by auto
  obtain calls3 where shown: "createChannel run True t3 r s d2 = (w3, d3, calls3)" by (rule serve_createChannel [OF third(1)])
  obtain ch j where ch: "ch \<in> set (shared_channels b a (tables d2))"
    "w3 = http_json True (JArr (map message_json (newest 10 (ChannelID ch) (reorder R j (messages (tables d2)))))) new_response"
    using channel_shows [OF wf2 users some shown third(2)] by metis
  have id: "ChannelID ch = c" using opened_shared [OF wf c(3) none] ch(1) same unfolding c(1) by metis
  have "mset (newest 10 c (reorder R j (messages (tables d2)))) =
     {#\<lparr>MessageID = m, SenderID = a, msg_ChannelID = c, Msg = created_text r, CreatedAt = store_time R t1\<rparr>,
       \<lparr>MessageID = i, SenderID = a, msg_ChannelID = c, Msg = txt, CreatedAt = store_time R t2\<rparr>#}"
    by (rule opened_then_sent [OF wf c(3)]) (use rules in \<open>simp_all add: T2 c(1)\<close>)
  with ch(2) id op show ?thesis by (auto simp: http_json_body)
qed

end

text \<open>
  C6. A conversation end to end. Two users who share no channel, with names of any bytes: one requests the channel
  with the other, takes the channel id from the answer and posts a text to the message path built from it;
  then the other one requests the channel with the first. If all three are answered with 200, the
  last answer lists exactly two messages, the opening one and the text, both from the first user and in that channel.
\<close>

theorem slack_session:
  assumes "slack_server run tables R" and "slack_wf (tables d)"
    and "only_user R (tables d) s a" and "only_user R (tables d) r b" and "shared_channels a b (tables d) = []"
    and "slack_serve run ws ev1 True t1 body1 (''/channel/'' @ path_escape s @ ''/'' @ path_escape r) d = (Some (Http w1), d1)"
    and "rw_status w1 = Some 200" and "rw_body w1 = [Json (JArr [message_json hello])]"
    and "slack_serve run ws ev2 True t2 body2 (''/message/'' @ show_int a @ ''/'' @ show_int (msg_ChannelID hello)) d1 = (Some (Http w2), d2)"
    and "rw_status w2 = Some 200" and "decode_request body2 = Some txt"
    and "slack_serve run ws ev3 True t3 body3 (''/channel/'' @ path_escape r @ ''/'' @ path_escape s) d2 = (Some (Http w3), d3)"
    and "rw_status w3 = Some 200" and "- (2 ^ 31) \<le> a \<and> a < 2 ^ 31"
    and "- (2 ^ 31) \<le> msg_ChannelID hello \<and> msg_ChannelID hello < 2 ^ 31"
  shows "\<exists>ms m i. rw_body w3 = [Json (JArr (map message_json ms))] \<and>
    mset ms = {#\<lparr>MessageID = m, SenderID = a, msg_ChannelID = msg_ChannelID hello, Msg = created_text r, CreatedAt = store_time R t1\<rparr>,
      \<lparr>MessageID = i, SenderID = a, msg_ChannelID = msg_ChannelID hello, Msg = txt, CreatedAt = store_time R t2\<rparr>#}"
  using slack_server.session [OF assms] .

lemma plain_thirteen: "store_int plain_rules ''13'' = Some 13" "eq_int plain_rules ''13'' k \<longleftrightarrow> k = 13" "show_int 13 = ''13''"
proof -
  show "show_int 13 = ''13''" by code_simp
qed (auto simp: plain_rules_def atoi_body_def atoi_neg_def is_digit_def digits_val_def digit_val_def Let_def)

theorem slack_session_witness:
  "\<exists>w1 d1 w2 d2 w3 d3 ms. slack_serve plain_run Map.empty [] True 0 None ''/channel/ann/bob'' ((fresh_db two_users)\<lparr>fd_next := 10\<rparr>) = (Some (Http w1), d1) \<and>
    slack_serve plain_run Map.empty [] True 0 (Some (JObj [(''msg'', JStr ''hi'')])) ''/message/1/13'' d1 = (Some (Http w2), d2) \<and>
    slack_serve plain_run Map.empty [] True 0 None ''/channel/bob/ann'' d2 = (Some (Http w3), d3) \<and>
    rw_body w3 = [Json (JArr (map message_json ms))] \<and> length ms = 2 \<and> (\<exists>m \<in> set ms. Msg m = ''hi'')"
proof -
  let ?d = "(fresh_db two_users)\<lparr>fd_next := 10\<rparr>" and ?body = "Some (JObj [(''msg'', JStr ''hi'')])"
  let ?T1 = "opened 4 0 ''ann'' ''bob'' 1 2 (13, 14, 15, 16) two_users"
  let ?d1 = "\<lparr>fd_tables = ?T1, fd_faults = [], fd_next = 17\<rparr>"
  let ?T2 = "?T1\<lparr>messages := messages ?T1 @ [\<lparr>MessageID = 17, SenderID = 1, msg_ChannelID = 13, Msg = ''hi'', CreatedAt = 0\<rparr>]\<rparr>"
  let ?d2 = "\<lparr>fd_tables = ?T2, fd_faults = [], fd_next = 20\<rparr>"
  let ?hello = "\<lparr>MessageID = 14, SenderID = 0, msg_ChannelID = 13, Msg = created_text ''bob'', CreatedAt = zero_time\<rparr>"
  have names: "path_escape ''ann'' = ''ann''" "path_escape ''bob'' = ''bob''" by code_simp+
  obtain calls where c1: "createChannel plain_run True 0 ''ann'' ''bob'' ?d = (open_reply True ''bob'' 13 14, ?d1, calls)"
    by (simp add: channel_defs concrete opened_def open_reply_def created_text_def)
  obtain w2 emits where c2: "sendMessage plain_run True 0 ''1'' ''13'' ?body Map.empty ?d1 = (w2, ?d2, emits)" "rw_status w2 = Some 200"
    by (simp add: sendMessage_def decode_request_def concrete opened_def plain_thirteen)
  obtain w3 d3 calls' where c3: "createChannel plain_run True 0 ''bob'' ''ann'' ?d2 = (w3, d3, calls')" "rw_status w3 = Some 200"
    by (simp add: channel_defs concrete opened_def)
  have 1: "slack_serve plain_run Map.empty [] True 0 None (''/channel/'' @ path_escape ''ann'' @ ''/'' @ path_escape ''bob'') ?d =
      (Some (Http (open_reply True ''bob'' 13 14)), ?d1)"
    unfolding slack_serve_handler request_createChannel by (simp add: unroutable_def slack_handle_def c1)
  have 2: "slack_serve plain_run Map.empty [] True 0 ?body (''/message/'' @ show_int 1 @ ''/'' @ show_int (msg_ChannelID ?hello)) ?d1 = (Some (Http w2), ?d2)"
    unfolding slack_serve_handler using request_sendMessage [of True 0 ?body "show_int 1" "show_int 13", unfolded show_int_safe]
    by (simp add: plain_thirteen unroutable_def slack_handle_def c2)
  have 3: "slack_serve plain_run Map.empty [] True 0 None (''/channel/'' @ path_escape ''bob'' @ ''/'' @ path_escape ''ann'') ?d2 = (Some (Http w3), d3)"
    unfolding slack_serve_handler request_createChannel by (simp add: unroutable_def slack_handle_def c3)
  obtain ms where ms: "rw_body w3 = [Json (JArr (map message_json ms))]" "\<exists>m i. mset ms = {#\<lparr>MessageID = m, SenderID = 1, msg_ChannelID = 13,
      Msg = created_text ''bob'', CreatedAt = store_time plain_rules 0\<rparr>, \<lparr>MessageID = i, SenderID = 1, msg_ChannelID = 13, Msg = ''hi'', CreatedAt = store_time plain_rules 0\<rparr>#}"
    using slack_session [OF sl_faulty.slack_server_axioms _ _ _ _ 1 _ _ 2 c2(2) _ 3 c3(2), of 2 "''hi''"]
    by (auto simp: concrete only_user_def slack_wf_def shared_channels_def open_reply_def http_json_body decode_request_def)
  then have "length ms = 2" "\<exists>m \<in> set ms. Msg m = ''hi''"
    by (metis size_mset size_add_mset size_empty numeral_2_eq_2) (use ms(2) in \<open>auto dest!: arg_cong [of _ _ set_mset]\<close>)
  with ms(1) 1 2 3 show ?thesis by (auto simp: names plain_thirteen)
qed

end
