(* ===== verification/Airline_Checkin.thy ===== *)
theory Airline_Checkin
  imports Go_Runs Go_Sql
begin

text \<open>
  \<open>airlineCheckin/main.go\<close>: one goroutine per user books the first free seat in a transaction
  (\<open>select ... for update\<close>, \<open>update\<close>, commit). The transactions are calls of a server parameter
  \<open>tx_ops\<close>, relations between its states so that a call may fail, or wait for a lock by having no
  outcome yet; the locale \<open>tx_server\<close> is what the program relies on, in terms of the committed
  seats, the locked rows and the uncommitted update of each transaction. \<open>air_step\<close> is
  \<open>reserveEmptyForUser\<close> cut at its calls, for all users at once.
\<close>

subsection \<open>Seats\<close>

type_synonym seats = "(int \<times> string option) list"

definition free_ids :: "seats \<Rightarrow> int list" where
  "free_ids S = map fst (filter (\<lambda>s. snd s = None) S)"

definition first_free :: "seats \<Rightarrow> int option" where
  "first_free S = (if free_ids S = [] then None else Some (Min (set (free_ids S))))"

definition take_seat :: "int \<Rightarrow> string \<Rightarrow> seats \<Rightarrow> seats" where
  "take_seat k n S = map (\<lambda>s. if fst s = k then (k, Some n) else s) S"

subsection \<open>The transaction server\<close>

record 'db tx_ops =
  op_begin :: "nat \<Rightarrow> 'db \<Rightarrow> bool \<Rightarrow> 'db \<Rightarrow> bool"
  op_prepare :: "nat \<Rightarrow> 'db \<Rightarrow> bool \<Rightarrow> 'db \<Rightarrow> bool"
  op_select :: "nat \<Rightarrow> 'db \<Rightarrow> string + sql_val list list \<Rightarrow> 'db \<Rightarrow> bool"
  op_update :: "nat \<Rightarrow> string \<Rightarrow> int \<Rightarrow> 'db \<Rightarrow> string + int \<Rightarrow> 'db \<Rightarrow> bool"
  op_commit :: "nat \<Rightarrow> 'db \<Rightarrow> bool \<Rightarrow> 'db \<Rightarrow> bool"
  op_rollback :: "nat \<Rightarrow> 'db \<Rightarrow> 'db \<Rightarrow> bool"

record seat_view =
  v_seats :: seats
  v_lock :: "int \<Rightarrow> nat option"
  v_pending :: "nat \<Rightarrow> (int \<times> string) option"

text \<open>Transaction \<open>i\<close> alone may have changed: the locks and pending updates of the others are the same.\<close>

definition others_same :: "nat \<Rightarrow> seat_view \<Rightarrow> seat_view \<Rightarrow> bool" where
  "others_same i v v' \<longleftrightarrow>
     (\<forall>k j. j \<noteq> i \<longrightarrow> (v_lock v' k = Some j \<longleftrightarrow> v_lock v k = Some j)) \<and>
     (\<forall>j. j \<noteq> i \<longrightarrow> v_pending v' j = v_pending v j)"

definition released :: "nat \<Rightarrow> seat_view \<Rightarrow> bool" where
  "released i v \<longleftrightarrow> (\<forall>k. v_lock v k \<noteq> Some i) \<and> v_pending v i = None"

definition apply_pending :: "nat \<Rightarrow> seat_view \<Rightarrow> seats" where
  "apply_pending i v = (case v_pending v i of None \<Rightarrow> v_seats v | Some (k, n) \<Rightarrow> take_seat k n (v_seats v))"

locale tx_server =
  fixes ops :: "'db tx_ops" and view :: "'db \<Rightarrow> seat_view"
  assumes begin_law: "op_begin ops i d ok d' \<Longrightarrow> view d' = view d"
    and prepare_law: "op_prepare ops i d ok d' \<Longrightarrow> view d' = view d"
    and select_law: "op_select ops i d (Inr rows) d' \<Longrightarrow>
      v_seats (view d') = v_seats (view d) \<and> v_pending (view d') = v_pending (view d) \<and>
      others_same i (view d) (view d') \<and>
      (case first_free (v_seats (view d)) of
         None \<Rightarrow> rows = []
       | Some k \<Rightarrow> rows = [[VInt k]] \<and> v_lock (view d') k = Some i)"
    and select_err: "op_select ops i d (Inl e) d' \<Longrightarrow>
      v_seats (view d') = v_seats (view d) \<and> others_same i (view d) (view d')"
    and update_law: "op_update ops i n k d (Inr a) d' \<Longrightarrow>
      v_seats (view d') = v_seats (view d) \<and> others_same i (view d) (view d') \<and>
      v_lock (view d') k = Some i \<and> v_pending (view d') i = Some (k, n) \<and>
      ((k, None) \<in> set (v_seats (view d)) \<longrightarrow> a = 1)"
    and update_err: "op_update ops i n k d (Inl e) d' \<Longrightarrow>
      v_seats (view d') = v_seats (view d) \<and> others_same i (view d) (view d')"
    and commit_law: "op_commit ops i d ok d' \<Longrightarrow>
      (v_seats (view d') = apply_pending i (view d) \<or> \<not> ok \<and> v_seats (view d') = v_seats (view d)) \<and>
      others_same i (view d) (view d') \<and> released i (view d')"
    and rollback_law: "op_rollback ops i d d' \<Longrightarrow>
      v_seats (view d') = v_seats (view d) \<and> others_same i (view d) (view d') \<and> released i (view d')"
    and answers: "\<exists>ok d'. op_begin ops i d ok d'" "\<exists>ok d'. op_prepare ops i d ok d'"
      "\<forall>k. v_lock (view d) k = None \<or> v_lock (view d) k = Some i \<Longrightarrow> \<exists>r d'. op_select ops i d r d'"
      "v_lock (view d) k = Some i \<Longrightarrow> \<exists>r d'. op_update ops i n k d r d'"
      "\<exists>ok d'. op_commit ops i d ok d'" "\<exists>d'. op_rollback ops i d d'"

subsection \<open>\<open>reserveEmptyForUser\<close>\<close>

text \<open>
  The positions of a goroutine; \<open>AReady\<close> has printed its result and commits next, whose error the
  code drops (\<open>ADone\<close> keeps it), \<open>AFailing\<close> rolls back next.
\<close>

datatype air_result = Booked int | FailedToBook int | AllBooked

datatype air_pc =
    AStart
  | ABegun
  | APrepared
  | ASelected "sql_val list list"
  | AScanned int
  | AReady air_result
  | AFailing
  | ADone air_result bool
  | ARolledBack

record 'db air_sys =
  air_db :: 'db
  air_names :: "string list"
  air_pcs :: "air_pc list"
  air_panic :: "panic option"

text \<open>\<open>rows.Next()\<close> and \<open>rows.Scan(&emptySeatId)\<close>: 0 stays when there is no row.\<close>

definition scan_seat :: "sql_val list list \<Rightarrow> int option" where
  "scan_seat rows =
     (case rows of [] \<Rightarrow> Some 0 | r # _ \<Rightarrow> (case r of [v] \<Rightarrow> scan_int v | _ \<Rightarrow> None))"

definition at :: "nat \<Rightarrow> air_pc \<Rightarrow> 'db air_sys \<Rightarrow> bool" where
  "at i pc s \<longleftrightarrow> air_panic s = None \<and> i < length (air_pcs s) \<and> air_pcs s ! i = pc"

definition goto :: "nat \<Rightarrow> air_pc \<Rightarrow> 'db \<Rightarrow> 'db air_sys \<Rightarrow> 'db air_sys" where
  "goto i pc d s = s\<lparr>air_db := d, air_pcs := (air_pcs s)[i := pc]\<rparr>"

inductive air_step :: "'db tx_ops \<Rightarrow> 'db air_sys \<Rightarrow> 'db air_sys \<Rightarrow> bool" for ops where
  begin_ok: "at i AStart s \<Longrightarrow> op_begin ops i (air_db s) True d \<Longrightarrow> air_step ops s (goto i ABegun d s)"
| begin_fails: "at i AStart s \<Longrightarrow> op_begin ops i (air_db s) False d \<Longrightarrow>
    air_step ops s (s\<lparr>air_db := d, air_panic := Some NilDereference\<rparr>)"
| prepare: "at i ABegun s \<Longrightarrow> op_prepare ops i (air_db s) ok d \<Longrightarrow>
    air_step ops s (goto i (if ok then APrepared else AFailing) d s)"
| query: "at i APrepared s \<Longrightarrow> op_select ops i (air_db s) (Inr rows) d \<Longrightarrow>
    air_step ops s (goto i (ASelected rows) d s)"
| query_fails: "at i APrepared s \<Longrightarrow> op_select ops i (air_db s) (Inl e) d \<Longrightarrow>
    air_step ops s (goto i AFailing d s)"
| scan: "at i (ASelected rows) s \<Longrightarrow>
    air_step ops s (goto i (case scan_seat rows of None \<Rightarrow> AFailing | Some k \<Rightarrow> AScanned k) (air_db s) s)"
| update: "at i (AScanned k) s \<Longrightarrow> k \<noteq> 0 \<Longrightarrow> op_update ops i (air_names s ! i) k (air_db s) (Inr a) d \<Longrightarrow>
    air_step ops s (goto i (AReady (if a = 1 then Booked k else FailedToBook k)) d s)"
| update_fails: "at i (AScanned k) s \<Longrightarrow> k \<noteq> 0 \<Longrightarrow> op_update ops i (air_names s ! i) k (air_db s) (Inl e) d \<Longrightarrow>
    air_step ops s (goto i AFailing d s)"
| no_seat: "at i (AScanned 0) s \<Longrightarrow> air_step ops s (goto i (AReady AllBooked) (air_db s) s)"
| commit: "at i (AReady r) s \<Longrightarrow> op_commit ops i (air_db s) ok d \<Longrightarrow> air_step ops s (goto i (ADone r ok) d s)"
| rollback: "at i AFailing s \<Longrightarrow> op_rollback ops i (air_db s) d \<Longrightarrow> air_step ops s (goto i ARolledBack d s)"

subsection \<open>\<open>makeBooking\<close> and \<open>printSeats\<close>\<close>

record air_user =
  air_id :: int
  air_name :: string

definition scan_air_user :: "sql_val list \<Rightarrow> air_user option" where
  "scan_air_user r =
     (case r of
        [a, b] \<Rightarrow> (case (scan_int a, scan_string b) of
             (Some i, Some n) \<Rightarrow> Some \<lparr>air_id = i, air_name = n\<rparr> | _ \<Rightarrow> None)
      | _ \<Rightarrow> None)"

text \<open>
  The users are all read before the first goroutine starts; an error on the way (in preparing,
  querying or scanning) starts none.
\<close>

definition makeBooking :: "bool \<Rightarrow> string + sql_val list list \<Rightarrow> 'db \<Rightarrow> 'db air_sys option" where
  "makeBooking prepared answer d =
     (if \<not> prepared then None
      else (case answer of
        Inl e \<Rightarrow> None
      | Inr rows \<Rightarrow>
          (case scan_rows scan_air_user rows of
             None \<Rightarrow> None
           | Some us \<Rightarrow> Some \<lparr>air_db = d, air_names = map air_name us, air_pcs = replicate (length us) AStart,
               air_panic = None\<rparr>)))"

fun scan_null_string :: "sql_val \<Rightarrow> string option" where
  "scan_null_string VNull = Some []"
| "scan_null_string v = scan_string v"

definition scan_seat_name :: "sql_val list \<Rightarrow> string option" where
  "scan_seat_name r =
     (case r of
        [a, b, c] \<Rightarrow> (case (scan_int a, scan_string b, scan_null_string c) of
             (Some _, Some _, Some n) \<Rightarrow> Some n | _ \<Rightarrow> None)
      | _ \<Rightarrow> None)"

text \<open>
  What \<open>printSeats\<close> prints: \<open>prepared\<close> is the error of preparing, if any, and \<open>scan_err\<close> the text of
  the error of a row that does not scan, which ends the loop.
\<close>

definition println_err :: "string \<Rightarrow> string \<Rightarrow> string" where
  "println_err what err = what @ '' '' @ err @ [CHR 0x0A]"

fun print_rows :: "string \<Rightarrow> nat \<Rightarrow> sql_val list list \<Rightarrow> string" where
  "print_rows scan_err cnt [] = [CHR 0x0A]"
| "print_rows scan_err cnt (r # rs) =
     (case scan_seat_name r of
        None \<Rightarrow> println_err ''error while Scan seat data, err =  '' scan_err
      | Some n \<Rightarrow>
          (if Suc cnt mod 7 = 0 then [CHR 0x0A] else []) @ n @ [CHR 0x09] @ ''| '' @ print_rows scan_err (Suc cnt) rs)"

definition printSeats :: "string \<Rightarrow> string option \<Rightarrow> string + sql_val list list \<Rightarrow> string" where
  "printSeats scan_err prepared answer =
     (case prepared of
        Some e \<Rightarrow> println_err ''error while preparing seat fetch stmt, err =  '' e
      | None \<Rightarrow> (case answer of
          Inl e \<Rightarrow> println_err ''error while executing user seat, err =  '' e
        | Inr rows \<Rightarrow> print_rows scan_err 0 rows))"

subsection \<open>Facts about seats\<close>

lemma free_ids_mem: "k \<in> set (free_ids S) \<longleftrightarrow> (k, None) \<in> set S"
  by (force simp: free_ids_def)

lemma first_free_None: "first_free S = None \<longleftrightarrow> free_ids S = []"
  by (simp add: first_free_def)

lemma first_free_Some: "first_free S = Some k \<Longrightarrow> (k, None) \<in> set S"
proof -
  assume f: "first_free S = Some k"
  then have "free_ids S \<noteq> []" "k = Min (set (free_ids S))" by (auto simp: first_free_def split: if_splits)
  then have "k \<in> set (free_ids S)" by (metis Min_in List.finite_set set_empty)
  then show ?thesis by (simp add: free_ids_mem)
qed

lemma first_free_least: "first_free S = Some k \<Longrightarrow> (j, None) \<in> set S \<Longrightarrow> k \<le> j"
  by (auto simp: first_free_def free_ids_mem [symmetric] split: if_splits)

lemma take_seat_ids [simp]: "map fst (take_seat k n S) = map fst S"
  by (simp add: take_seat_def comp_def if_distrib [where f = fst] cong: if_cong)

lemma take_seat_lookup:
  "map_of (take_seat k n S) j = (if j = k \<and> k \<in> fst ` set S then Some (Some n) else map_of S j)"
  by (induction S) (auto simp: take_seat_def rev_image_eqI)

lemma take_seat_absent: "k \<notin> fst ` set S \<Longrightarrow> take_seat k n S = S"
  by (force simp: take_seat_def intro!: map_idI)

lemma free_after_take:
  assumes "distinct (map fst S)" and "(k, None) \<in> set S"
  shows "length (free_ids S) = Suc (length (free_ids (take_seat k n S)))"
  using assms
proof (induction S)
  case (Cons s S)
  show ?case
  proof (cases "fst s = k")
    case True
    then have k: "k \<notin> fst ` set S" and "s = (k, None)" using Cons.prems by (auto simp: rev_image_eqI)
    then show ?thesis using take_seat_absent [OF k, of n] by (simp add: free_ids_def take_seat_def)
  next
    case False
    with Cons show ?thesis by (auto simp: free_ids_def take_seat_def)
  qed
qed simp

lemma take_seat_mem: "(j, None) \<in> set (take_seat k n S) \<longleftrightarrow> (j, None) \<in> set S \<and> j \<noteq> k"
  by (force simp: take_seat_def)

lemma free_take_Nil: "free_ids S = [] \<Longrightarrow> free_ids (take_seat k n S) = []"
  using free_ids_mem take_seat_mem by (metis set_empty2 subsetI subset_empty)

subsection \<open>Invariant\<close>

text \<open>What the server's view must be for goroutine \<open>i\<close>, named \<open>n\<close>, to be at \<open>pc\<close>.\<close>

definition holds_seat :: "seat_view \<Rightarrow> nat \<Rightarrow> int \<Rightarrow> bool" where
  "holds_seat v i k \<longleftrightarrow> k \<noteq> 0 \<and> v_lock v k = Some i \<and> (k, None) \<in> set (v_seats v)"

definition no_free :: "seat_view \<Rightarrow> bool" where
  "no_free v \<longleftrightarrow> free_ids (v_seats v) = []"

fun pc_ok :: "seat_view \<Rightarrow> nat \<Rightarrow> string \<Rightarrow> air_pc \<Rightarrow> bool" where
  "pc_ok v i n (ASelected rows) \<longleftrightarrow>
     v_pending v i = None \<and> (rows = [] \<and> no_free v \<or> (\<exists>k. rows = [[VInt k]] \<and> holds_seat v i k))"
| "pc_ok v i n (AScanned k) \<longleftrightarrow> v_pending v i = None \<and> (k = 0 \<and> no_free v \<or> holds_seat v i k)"
| "pc_ok v i n (AReady (Booked k)) \<longleftrightarrow> v_pending v i = Some (k, n) \<and> holds_seat v i k"
| "pc_ok v i n (AReady AllBooked) \<longleftrightarrow> v_pending v i = None \<and> no_free v"
| "pc_ok v i n (AReady (FailedToBook k)) \<longleftrightarrow> False"
| "pc_ok v i n AFailing \<longleftrightarrow> True"
| "pc_ok v i n (ADone (Booked k) ok) \<longleftrightarrow> released i v \<and> (ok \<longrightarrow> map_of (v_seats v) k = Some (Some n))"
| "pc_ok v i n (ADone AllBooked ok) \<longleftrightarrow> released i v \<and> no_free v"
| "pc_ok v i n (ADone (FailedToBook k) ok) \<longleftrightarrow> False"
| "pc_ok v i n _ \<longleftrightarrow> released i v"

fun has_booked :: "air_pc \<Rightarrow> bool" where
  "has_booked (ADone (Booked k) ok) = ok"
| "has_booked _ = False"

fun lost_commit :: "air_pc \<Rightarrow> bool" where
  "lost_commit (ADone (Booked k) ok) = (\<not> ok)"
| "lost_commit _ = False"

definition booked_by :: "air_pc list \<Rightarrow> nat \<Rightarrow> int \<Rightarrow> bool" where
  "booked_by pcs i k \<longleftrightarrow> i < length pcs \<and> pcs ! i = ADone (Booked k) True"

text \<open>A name on a seat was there at the start, or is that of a goroutine that has committed it.\<close>

definition came_from :: "seats \<Rightarrow> string list \<Rightarrow> air_pc list \<Rightarrow> int \<Rightarrow> string \<Rightarrow> bool" where
  "came_from S0 names pcs k n \<longleftrightarrow>
     map_of S0 k = Some (Some n) \<or> (\<exists>i ok. i < length pcs \<and> n = names ! i \<and> pcs ! i = ADone (Booked k) ok)"

definition seats_inv :: "seats \<Rightarrow> string list \<Rightarrow> seats \<Rightarrow> air_pc list \<Rightarrow> bool" where
  "seats_inv S0 names S pcs \<longleftrightarrow>
     map fst S = map fst S0 \<and> length pcs = length names \<and>
     (\<forall>k n. map_of S0 k = Some (Some n) \<longrightarrow> map_of S k = Some (Some n)) \<and>
     (\<forall>k n. map_of S k = Some (Some n) \<longrightarrow> came_from S0 names pcs k n) \<and>
     (\<forall>i j k. booked_by pcs i k \<and> booked_by pcs j k \<longrightarrow> i = j) \<and>
     (tally lost_commit pcs = 0 \<longrightarrow> length (free_ids S0) = length (free_ids S) + tally has_booked pcs)"

definition air_inv :: "('db \<Rightarrow> seat_view) \<Rightarrow> seats \<Rightarrow> string list \<Rightarrow> 'db air_sys \<Rightarrow> bool" where
  "air_inv view S0 names s \<longleftrightarrow>
     (let v = view (air_db s) in
      air_names s = names \<and> seats_inv S0 names (v_seats v) (air_pcs s) \<and>
      (\<forall>i < length names. pc_ok v i (names ! i) (air_pcs s ! i)) \<and>
      (\<forall>k i. v_lock v k = Some i \<longrightarrow> i < length names))"

lemma released_same: "others_same i v v' \<Longrightarrow> j \<noteq> i \<Longrightarrow> released j v' \<longleftrightarrow> released j v"
  by (simp add: others_same_def released_def)

lemma pc_ok_others:
  assumes "others_same i v v'" and "j \<noteq> i" and "v_seats v' = v_seats v" and "pc_ok v j n pc"
  shows "pc_ok v' j n pc"
  using assms(4) released_same [OF assms(1,2)] assms(1-3)
  by (induction v j n pc rule: pc_ok.induct) (auto simp: others_same_def holds_seat_def no_free_def)

lemma pc_ok_commit:
  assumes "others_same i v v'" and "j \<noteq> i" and "v_seats v' = take_seat k m (v_seats v)" and "v_lock v k = Some i"
    and "(k, None) \<in> set (v_seats v)" and "distinct (map fst (v_seats v))" and "pc_ok v j n pc"
  shows "pc_ok v' j n pc"
proof -
  have seat: "holds_seat v' j l" if "holds_seat v j l" for l
    using that assms(1-4) by (auto simp: holds_seat_def take_seat_mem others_same_def)
  have free: "no_free v \<Longrightarrow> no_free v'" using assms(3) by (simp add: no_free_def free_take_Nil)
  have "map_of (v_seats v) k = Some None" using assms(5,6) by (simp add: map_of_is_SomeI)
  then have kept: "map_of (v_seats v') l = Some (Some x)" if "map_of (v_seats v) l = Some (Some x)" for l x
    using that by (auto simp: assms(3) take_seat_lookup)
  have pend: "v_pending v' j = v_pending v j" using assms(1,2) by (simp add: others_same_def)
  show ?thesis using assms(7) released_same [OF assms(1,2)] seat free kept pend
    by (induction v j n pc rule: pc_ok.induct) auto
qed

fun committed :: "air_pc \<Rightarrow> bool" where
  "committed (ADone (Booked k) ok) = True"
| "committed _ = False"

lemma not_committed: "\<not> committed pc \<Longrightarrow> \<not> has_booked pc \<and> \<not> lost_commit pc"
  by (cases pc rule: committed.cases) auto

lemma came_from_update:
  assumes "came_from S0 names pcs k n" and "\<not> committed (pcs ! i)"
  shows "came_from S0 names (pcs[i := pc]) k n"
proof (cases "map_of S0 k = Some (Some n)")
  case False
  with assms obtain j ok where j: "j < length pcs" "n = names ! j" "pcs ! j = ADone (Booked k) ok"
    by (auto simp: came_from_def)
  then have "j \<noteq> i" using assms(2) by auto
  with j show ?thesis unfolding came_from_def by (metis length_list_update nth_list_update_neq)
qed (simp add: came_from_def)

lemma seats_inv_same:
  assumes "seats_inv S0 names S pcs" and "i < length pcs" and "\<not> committed (pcs ! i)" and "\<not> has_booked pc"
  shows "seats_inv S0 names S (pcs[i := pc])"
proof -
  have kept: "booked_by (pcs[i := pc]) j k \<Longrightarrow> booked_by pcs j k" for j k
    using assms(2,4) by (cases "j = i") (auto simp: booked_by_def)
  have tal: "tally lost_commit (pcs[i := pc]) = 0 \<longrightarrow> tally lost_commit pcs = 0"
    "tally has_booked (pcs[i := pc]) = tally has_booked pcs"
    using tally_update [OF assms(2), of lost_commit pc] tally_update [OF assms(2), of has_booked pc]
      not_committed [OF assms(3)] assms(4) by (auto split: if_splits)
  show ?thesis
    using assms(1) kept tal came_from_update [OF _ assms(3)] unfolding seats_inv_def length_list_update by metis
qed

lemma seats_inv_commit:
  assumes inv: "seats_inv S0 names S pcs" and i: "i < length pcs" "\<not> committed (pcs ! i)"
    and k: "(k, None) \<in> set S" "distinct (map fst S)" and unbooked: "\<forall>j. \<not> booked_by pcs j k"
  shows "seats_inv S0 names (take_seat k (names ! i) S) (pcs[i := ADone (Booked k) ok])"
proof -
  let ?S = "take_seat k (names ! i) S" and ?pcs = "pcs[i := ADone (Booked k) ok]"
  have free: "map_of S k = Some None" using k by (simp add: map_of_is_SomeI)
  then have look: "map_of ?S j = (if j = k then Some (Some (names ! i)) else map_of S j)" for j
    by (auto simp: take_seat_lookup dest: map_of_SomeD intro: rev_image_eqI)
  have new: "came_from S0 names ?pcs k (names ! i)"
    using i unfolding came_from_def by (metis length_list_update nth_list_update_eq)
  have origin: "came_from S0 names ?pcs l n" if "map_of ?S l = Some (Some n)" for l n
    using that new look [of l] inv came_from_update [OF _ i(2)] by (auto simp: seats_inv_def split: if_splits)
  have one: "a = b" if "booked_by ?pcs a l" "booked_by ?pcs b l" for a b l
    using that inv unbooked unfolding seats_inv_def
    by (cases "a = i"; cases "b = i") (auto simp: booked_by_def)
  have tal: "tally lost_commit ?pcs = 0 \<longrightarrow> tally lost_commit pcs = 0 \<and> tally has_booked ?pcs = Suc (tally has_booked pcs)"
    using tally_update [OF i(1), of lost_commit "ADone (Booked k) ok"] tally_update [OF i(1), of has_booked "ADone (Booked k) ok"]
      not_committed [OF i(2)] by (auto split: if_splits)
  have old: "map_of ?S l = Some (Some n)" if "map_of S0 l = Some (Some n)" for l n
    using that free look [of l] inv by (auto simp: seats_inv_def)
  have "length (free_ids S) = Suc (length (free_ids ?S))" using free_after_take [OF k(2,1)] .
  with inv tal have "tally lost_commit ?pcs = 0 \<longrightarrow> length (free_ids S0) = length (free_ids ?S) + tally has_booked ?pcs"
    by (simp add: seats_inv_def)
  with inv origin one old show ?thesis unfolding seats_inv_def by (simp only: take_seat_ids length_list_update) blast
qed

text \<open>A step of goroutine \<open>i\<close> that commits nothing.\<close>

lemma air_inv_goto:
  assumes inv: "air_inv view S0 names s" and i: "at i pc s" "\<not> committed pc" "\<not> has_booked pc'"
    and v: "v_seats (view d) = v_seats (view (air_db s))" "others_same i (view (air_db s)) (view d)"
    and ok: "pc_ok (view d) i (names ! i) pc'"
  shows "air_inv view S0 names (goto i pc' d s)"
proof -
  have len: "length (air_pcs s) = length names" using inv by (simp add: air_inv_def seats_inv_def Let_def)
  have bound: "j < length names" if "v_lock (view d) k = Some j" for k j
    using that v(2) i(1) inv len by (cases "j = i") (auto simp: at_def others_same_def air_inv_def Let_def)
  have pcs: "pc_ok (view d) j (names ! j) ((air_pcs s)[i := pc'] ! j)" if "j < length names" for j
    using that ok inv len pc_ok_others [OF v(2) _ v(1)] i(1)
    by (cases "j = i") (auto simp: at_def air_inv_def Let_def)
  have "seats_inv S0 names (v_seats (view d)) ((air_pcs s)[i := pc'])"
    using seats_inv_same [of S0 names "v_seats (view d)" "air_pcs s" i pc'] inv i v(1)
    by (simp add: at_def air_inv_def Let_def)
  with inv pcs bound show ?thesis by (simp add: air_inv_def goto_def Let_def)
qed

text \<open>The commit of a seat.\<close>

lemma air_inv_commit:
  assumes inv: "air_inv view S0 names s" and dist: "distinct (map fst S0)" and i: "at i (AReady (Booked k)) s"
    and v: "v_seats (view d) = take_seat k (names ! i) (v_seats (view (air_db s)))"
      "others_same i (view (air_db s)) (view d)" "released i (view d)"
  shows "air_inv view S0 names (goto i (ADone (Booked k) ok) d s)"
proof -
  let ?v = "view (air_db s)"
  have len: "length (air_pcs s) = length names" and ids: "distinct (map fst (v_seats ?v))"
    using inv dist by (simp_all add: air_inv_def seats_inv_def Let_def)
  have il: "i < length names" "air_pcs s ! i = AReady (Booked k)" using i len by (simp_all add: at_def)
  then have "pc_ok ?v i (names ! i) (AReady (Booked k))" using inv by (fastforce simp: air_inv_def Let_def)
  then have k: "v_lock ?v k = Some i" "(k, None) \<in> set (v_seats ?v)" by (auto simp: holds_seat_def)
  have free: "map_of (v_seats ?v) k = Some None" using k(2) ids by (simp add: map_of_is_SomeI)
  have unbooked: "\<not> booked_by (air_pcs s) j k" for j
  proof
    assume "booked_by (air_pcs s) j k"
    then have "pc_ok ?v j (names ! j) (ADone (Booked k) True)"
      using inv len by (fastforce simp: booked_by_def air_inv_def Let_def)
    with free show False by simp
  qed
  have bound: "j < length names" if "v_lock (view d) l = Some j" for l j
    using that v(2,3) inv by (cases "j = i") (auto simp: released_def others_same_def air_inv_def Let_def)
  have self: "pc_ok (view d) i (names ! i) (ADone (Booked k) ok)"
    using v(1,3) free k(2) by (auto simp: take_seat_lookup rev_image_eqI)
  have pcs: "pc_ok (view d) j (names ! j) ((air_pcs s)[i := ADone (Booked k) ok] ! j)" if "j < length names" for j
    using that self inv len pc_ok_commit [OF v(2) _ v(1) k ids] il
    by (cases "j = i") (auto simp: air_inv_def Let_def)
  have "seats_inv S0 names (v_seats (view d)) ((air_pcs s)[i := ADone (Booked k) ok])"
    unfolding v(1) using inv il len unbooked k(2) ids
    by (intro seats_inv_commit) (auto simp: air_inv_def Let_def)
  with inv pcs bound show ?thesis by (simp add: air_inv_def goto_def Let_def)
qed

context tx_server
begin

lemma air_commit_inv:
  assumes inv: "air_inv view S0 names s" and S0: "distinct (map fst S0)"
    and i: "at i (AReady r) s" and c: "op_commit ops i (air_db s) ok d"
  shows "air_inv view S0 names (goto i (ADone r ok) d s)"
proof -
  let ?v = "view (air_db s)"
  note law = commit_law [OF c]
  have p: "pc_ok ?v i (names ! i) (AReady r)"
    using i inv by (auto simp: at_def air_inv_def Let_def seats_inv_def)
  show ?thesis
  proof (cases r)
    case (Booked k)
    show ?thesis
    proof (cases "v_seats (view d) = take_seat k (names ! i) (v_seats ?v)")
      case True
      with i law Booked show ?thesis by (auto intro!: air_inv_commit [OF inv S0])
    next
      case False
      with law p Booked have "\<not> ok" "v_seats (view d) = v_seats ?v" by (auto simp: apply_pending_def)
      with i law Booked show ?thesis by (auto intro!: air_inv_goto [OF inv])
    qed
  next
    case AllBooked
    with i law p show ?thesis by (auto intro!: air_inv_goto [OF inv] simp: apply_pending_def no_free_def)
  qed (use p in simp)
qed

lemma air_step_inv:
  assumes inv: "air_inv view S0 names s" and S0: "distinct (map fst S0)" "0 \<notin> fst ` set S0"
    and step: "air_step ops s t"
  shows "air_inv view S0 names t"
proof -
  let ?v = "view (air_db s)"
  have pc: "pc_ok ?v i (names ! i) p" if "at i p s" for i p
    using that inv by (auto simp: at_def air_inv_def Let_def seats_inv_def)
  have nm: "air_names s = names" using inv by (simp add: air_inv_def Let_def)
  have refl: "others_same i v v" for i v by (simp add: others_same_def)
  have ids: "fst ` set (v_seats ?v) = fst ` set S0"
    using inv by (simp add: air_inv_def seats_inv_def Let_def) (metis set_map)
  note goto = air_inv_goto [OF inv]
  from step show ?thesis
  proof cases
    case (begin_ok i d)
    then show ?thesis using begin_law [OF begin_ok(3)] pc [OF begin_ok(2)] refl by (auto intro!: goto)
  next
    case (begin_fails i d)
    then show ?thesis using begin_law [OF begin_fails(3)] inv by (simp add: air_inv_def)
  next
    case (prepare i ok d)
    then show ?thesis using prepare_law [OF prepare(3)] pc [OF prepare(2)] refl by (auto intro!: goto)
  next
    case (query i rows d)
    have "k \<noteq> 0 \<and> (k, None) \<in> set (v_seats ?v)" if "first_free (v_seats ?v) = Some k" for k
      using first_free_Some [OF that] ids S0(2) by (auto simp: rev_image_eqI)
    with query select_law [OF query(3)] pc [OF query(2)] show ?thesis
      by (auto intro!: goto split: option.splits simp: no_free_def first_free_None holds_seat_def released_def)
  next
    case (query_fails i e d)
    then show ?thesis using select_err [OF query_fails(3)] by (auto intro!: goto)
  next
    case (scan i rows)
    then show ?thesis using pc [OF scan(2)] refl
      by (auto intro!: goto simp: scan_seat_def)
  next
    case (update i k a d)
    then have "holds_seat ?v i k" using pc [OF update(2)] by simp
    with update update_law [OF update(4)] show ?thesis
      by (auto intro!: goto simp: holds_seat_def nm)
  next
    case (update_fails i k e d)
    then show ?thesis using update_err [OF update_fails(4)] by (auto intro!: goto)
  next
    case (no_seat i)
    then show ?thesis using pc [OF no_seat(2)] refl by (auto intro!: goto simp: holds_seat_def)
  next
    case (rollback i d)
    then show ?thesis using rollback_law [OF rollback(3)] by (auto intro!: goto)
  next
    case (commit i r ok d)
    then show ?thesis using air_commit_inv [OF inv S0(1)] by simp
  qed
qed

end

subsection \<open>Progress\<close>

fun air_rank :: "air_pc \<Rightarrow> nat" where
  "air_rank AStart = 7"
| "air_rank ABegun = 6"
| "air_rank APrepared = 5"
| "air_rank (ASelected _) = 4"
| "air_rank (AScanned _) = 3"
| "air_rank (AReady _) = 2"
| "air_rank AFailing = 1"
| "air_rank _ = 0"

definition air_variant :: "'db air_sys \<Rightarrow> nat" where
  "air_variant s = weight air_rank (air_pcs s) + (if air_panic s = None then 1 else 0)"

fun air_ended :: "air_pc \<Rightarrow> bool" where
  "air_ended (ADone _ _) = True"
| "air_ended ARolledBack = True"
| "air_ended _ = False"

text \<open>The wait group lets \<open>makeBooking\<close> return, or a panic has ended the process.\<close>

definition air_final :: "'db air_sys \<Rightarrow> bool" where
  "air_final s \<longleftrightarrow> air_panic s \<noteq> None \<or> list_all air_ended (air_pcs s)"

lemma goto_variant: "at i pc s \<Longrightarrow> air_rank pc' < air_rank pc \<Longrightarrow> air_variant (goto i pc' d s) < air_variant s"
  using weight_update_less [of i "air_pcs s" air_rank pc'] by (simp add: air_variant_def goto_def at_def)

lemma panic_variant: "at i pc s \<Longrightarrow> air_variant (s\<lparr>air_db := d, air_panic := Some p\<rparr>) < air_variant s"
  by (simp add: air_variant_def at_def)

lemma air_step_variant: "air_step ops s t \<Longrightarrow> air_variant t < air_variant s"
  by (erule air_step.cases) (auto intro!: goto_variant intro: panic_variant split: option.splits)

definition in_tx :: "air_pc \<Rightarrow> bool" where
  "in_tx pc \<longleftrightarrow> air_rank pc \<in> {1, 2, 3, 4}"

text \<open>All goroutines about to start, on the seats \<open>S0\<close>, with no transaction open.\<close>

definition booking_init :: "('db \<Rightarrow> seat_view) \<Rightarrow> seats \<Rightarrow> string list \<Rightarrow> 'db air_sys \<Rightarrow> bool" where
  "booking_init view S0 names s \<longleftrightarrow>
     v_seats (view (air_db s)) = S0 \<and> v_lock (view (air_db s)) = (\<lambda>_. None) \<and>
     v_pending (view (air_db s)) = (\<lambda>_. None) \<and> air_names s = names \<and>
     air_pcs s = replicate (length names) AStart \<and> air_panic s = None"

lemma booking_init_inv: "booking_init view S0 names s \<Longrightarrow> air_inv view S0 names s"
  by (auto simp: booking_init_def air_inv_def seats_inv_def came_from_def booked_by_def released_def Let_def)

locale air_booking = tx_server ops view
  for ops :: "'db tx_ops" and view :: "'db \<Rightarrow> seat_view" +
  fixes S0 :: seats and names :: "string list"
  assumes seat_ids: "distinct (map fst S0)" "0 \<notin> fst ` set S0"
begin

lemma in_tx_steps:
  assumes "air_inv view S0 names s" and "at i pc s" and "in_tx pc"
  shows "\<exists>t. air_step ops s t"
proof -
  have ok: "pc_ok (view (air_db s)) i (names ! i) pc"
    using assms(1,2) by (auto simp: at_def air_inv_def Let_def seats_inv_def)
  show ?thesis
  proof (cases pc)
    case (ASelected rows)
    with assms(2) show ?thesis by (blast intro: scan)
  next
    case (AScanned k)
    show ?thesis
    proof (cases "k = 0")
      case False
      then have "v_lock (view (air_db s)) k = Some i" using ok AScanned by (simp add: holds_seat_def)
      then obtain r d where r: "op_update ops i (air_names s ! i) k (air_db s) r d" using answers(4) by blast
      with False assms(2) AScanned show ?thesis by (cases r) (blast intro: update update_fails)+
    qed (use assms(2) AScanned in \<open>blast intro: no_seat\<close>)
  next
    case (AReady r)
    with assms(2) answers(5) [of i "air_db s"] show ?thesis by (blast intro: commit)
  next
    case AFailing
    with assms(2) answers(6) [of i "air_db s"] show ?thesis by (blast intro: rollback)
  qed (use assms(3) in \<open>auto simp: in_tx_def\<close>)
qed

lemma lock_in_tx:
  assumes "air_inv view S0 names s" and "v_lock (view (air_db s)) k = Some i"
  shows "i < length (air_pcs s) \<and> in_tx (air_pcs s ! i)"
proof -
  have len: "length (air_pcs s) = length names" "i < length names"
    and ok: "pc_ok (view (air_db s)) i (names ! i) (air_pcs s ! i)"
    using assms by (auto simp: air_inv_def Let_def seats_inv_def)
  have "in_tx pc" if "pc_ok v i n pc" "\<not> released i v" for v n pc
    using that by (induction v i n pc rule: pc_ok.induct) (auto simp: in_tx_def)
  moreover have "\<not> released i (view (air_db s))" using assms(2) by (auto simp: released_def)
  ultimately show ?thesis using len ok by auto
qed

lemma air_step_exists:
  assumes inv: "air_inv view S0 names s" and "\<not> air_final s"
  shows "\<exists>t. air_step ops s t"
proof (cases "\<exists>i < length (air_pcs s). in_tx (air_pcs s ! i)")
  case True
  then obtain i where "at i (air_pcs s ! i) s" "in_tx (air_pcs s ! i)"
    using assms(2) by (auto simp: at_def air_final_def)
  then show ?thesis using in_tx_steps [OF inv] by blast
next
  case False
  then have unlocked: "v_lock (view (air_db s)) k = None" for k
    using lock_in_tx [OF inv, of k] by (cases "v_lock (view (air_db s)) k") auto
  obtain i where i: "at i (air_pcs s ! i) s" "\<not> air_ended (air_pcs s ! i)" "i < length (air_pcs s)"
    using assms(2) by (auto simp: at_def air_final_def list_all_length)
  then consider "air_pcs s ! i = AStart" | "air_pcs s ! i = ABegun" | "air_pcs s ! i = APrepared"
    using False by (cases "air_pcs s ! i") (auto simp: in_tx_def)
  then show ?thesis
  proof cases
    case 1
    obtain ok d where "op_begin ops i (air_db s) ok d" using answers(1) by blast
    with 1 i(1) show ?thesis by (cases ok) (metis begin_ok, metis begin_fails)
  next
    case 2
    with i(1) answers(2) [of i "air_db s"] show ?thesis by (metis prepare)
  next
    case 3
    obtain r d where "op_select ops i (air_db s) r d" using answers(3) unlocked by blast
    with 3 i(1) show ?thesis by (cases r) (metis query_fails, metis query)
  qed
qed

end

sublocale air_booking \<subseteq> air: live_system "booking_init view S0 names" "air_step ops" "air_inv view S0 names"
    air_variant air_final
proof
  show "booking_init view S0 names s \<Longrightarrow> air_inv view S0 names s" for s by (rule booking_init_inv)
  show "air_inv view S0 names s \<Longrightarrow> air_step ops s t \<Longrightarrow> air_inv view S0 names t" for s t
    using seat_ids by (blast intro: air_step_inv)
  show "air_inv view S0 names s \<Longrightarrow> air_step ops s t \<Longrightarrow> air_variant t < air_variant s" for s t
    by (blast intro: air_step_variant)
  show "air_inv view S0 names s \<Longrightarrow> \<not> air_final s \<Longrightarrow> \<exists>t. air_step ops s t" for s
    by (blast intro: air_step_exists)
qed

subsection \<open>A server that meets the contract\<close>

text \<open>Row locks and one pending update per transaction; begin, prepare, queries and commits may fail at will.\<close>

definition drop_tx :: "nat \<Rightarrow> seats \<Rightarrow> seat_view \<Rightarrow> seat_view" where
  "drop_tx i S v =
     \<lparr>v_seats = S, v_lock = (\<lambda>k. if v_lock v k = Some i then None else v_lock v k),
      v_pending = (v_pending v)(i := None)\<rparr>"

definition row_ops :: "seat_view tx_ops" where
  "row_ops =
     \<lparr>op_begin = (\<lambda>i d ok d'. d' = d),
      op_prepare = (\<lambda>i d ok d'. d' = d),
      op_select = (\<lambda>i d r d'. case r of
          Inl e \<Rightarrow> d' = d
        | Inr rows \<Rightarrow> (case first_free (v_seats d) of
            None \<Rightarrow> rows = [] \<and> d' = d
          | Some k \<Rightarrow> rows = [[VInt k]] \<and> (v_lock d k = None \<or> v_lock d k = Some i) \<and>
              d' = d\<lparr>v_lock := (v_lock d)(k := Some i)\<rparr>)),
      op_update = (\<lambda>i n k d r d'. v_lock d k = Some i \<and> (case r of
          Inl e \<Rightarrow> d' = d
        | Inr a \<Rightarrow> a = (if (k, None) \<in> set (v_seats d) then 1 else 0) \<and>
            d' = d\<lparr>v_pending := (v_pending d)(i := Some (k, n))\<rparr>)),
      op_commit = (\<lambda>i d ok d'. d' = drop_tx i (if ok then apply_pending i d else v_seats d) d),
      op_rollback = (\<lambda>i d d'. d' = drop_tx i (v_seats d) d)\<rparr>"

interpretation row: tx_server row_ops "\<lambda>v. v"
proof
  show "\<exists>r d'. op_select row_ops i d r d'" for i d
    by (intro exI [of _ "Inl []"] exI [of _ d]) (simp add: row_ops_def)
  show "v_lock d k = Some i \<Longrightarrow> \<exists>r d'. op_update row_ops i n k d r d'" for i n k d
    by (intro exI [of _ "Inl []"] exI [of _ d]) (simp add: row_ops_def)
qed (auto simp: row_ops_def others_same_def released_def drop_tx_def split: option.splits if_splits)

definition three_seats :: seats where
  "three_seats = [(1, Some ''zoe''), (2, None), (3, None)]"

interpretation row_booking: air_booking row_ops "\<lambda>v. v" three_seats names for names
  by unfold_locales (auto simp: three_seats_def)

definition boarding :: "string list \<Rightarrow> air_pc list \<Rightarrow> seats \<Rightarrow> (int \<Rightarrow> nat option) \<Rightarrow> (nat \<Rightarrow> (int \<times> string) option) \<Rightarrow> seat_view air_sys" where
  "boarding names pcs S locks pend =
     \<lparr>air_db = \<lparr>v_seats = S, v_lock = locks, v_pending = pend\<rparr>, air_names = names, air_pcs = pcs, air_panic = None\<rparr>"

lemma boarding_start: "booking_init (\<lambda>v. v) three_seats [''amy''] (boarding [''amy''] [AStart] three_seats Map.empty Map.empty)"
  by (simp add: booking_init_def boarding_def)

lemma boarding_run:
  "(air_step row_ops)\<^sup>*\<^sup>* (boarding [''amy''] [AStart] three_seats Map.empty Map.empty)
     (boarding [''amy''] [ADone (Booked 2) True] [(1, Some ''zoe''), (2, Some ''amy''), (3, None)] Map.empty Map.empty)"
proof -
  let ?b = "\<lambda>pc. boarding [''amy''] [pc] three_seats"
  let ?l = "Map.empty(2 \<mapsto> 0)"
  have ff: "first_free three_seats = Some 2" by (simp add: first_free_def free_ids_def three_seats_def)
  let ?v = "\<lparr>v_seats = three_seats, v_lock = ?l, v_pending = Map.empty(0 \<mapsto> (2, ''amy''))\<rparr>"
  have dropped: "drop_tx 0 (apply_pending 0 ?v) ?v =
      \<lparr>v_seats = [(1, Some ''zoe''), (2, Some ''amy''), (3, None)], v_lock = Map.empty, v_pending = Map.empty\<rparr>"
    by (auto simp: drop_tx_def apply_pending_def take_seat_def three_seats_def)
  have "(air_step row_ops)\<^sup>*\<^sup>* (?b AStart Map.empty Map.empty) (?b AStart Map.empty Map.empty)" ..
  also have "air_step row_ops \<dots> (?b ABegun Map.empty Map.empty)"
    using begin_ok [of 0 "?b AStart Map.empty Map.empty" row_ops]
    by (simp add: at_def goto_def boarding_def row_ops_def)
  also have "air_step row_ops \<dots> (?b APrepared Map.empty Map.empty)"
    using prepare [of 0 "?b ABegun Map.empty Map.empty" row_ops True]
    by (simp add: at_def goto_def boarding_def row_ops_def)
  also have "air_step row_ops \<dots> (?b (ASelected [[VInt 2]]) ?l Map.empty)"
    using query [of 0 "?b APrepared Map.empty Map.empty" row_ops "[[VInt 2]]"]
    by (simp add: at_def goto_def boarding_def row_ops_def ff)
  also have "air_step row_ops \<dots> (?b (AScanned 2) ?l Map.empty)"
    using scan [of 0 "[[VInt 2]]" "?b (ASelected [[VInt 2]]) ?l Map.empty" row_ops]
    by (simp add: at_def goto_def boarding_def scan_seat_def)
  also have "air_step row_ops \<dots> (?b (AReady (Booked 2)) ?l (Map.empty(0 \<mapsto> (2, ''amy''))))"
    using update [of 0 2 "?b (AScanned 2) ?l Map.empty" row_ops 1]
    by (simp add: at_def goto_def boarding_def row_ops_def three_seats_def)
  also have "air_step row_ops \<dots> (boarding [''amy''] [ADone (Booked 2) True] [(1, Some ''zoe''), (2, Some ''amy''), (3, None)] Map.empty Map.empty)"
    using commit [of 0 "Booked 2" "?b (AReady (Booked 2)) ?l (Map.empty(0 \<mapsto> (2, ''amy'')))" row_ops True]
    by (simp add: at_def goto_def boarding_def row_ops_def dropped)
  finally show ?thesis .
qed

subsection \<open>Properties\<close>

context air_booking
begin

lemma air_live: "live_system (booking_init view S0 names) (air_step ops) (air_inv view S0 names) air_variant air_final"
  by (rule air.live_system_axioms)

lemma seats_safe:
  assumes "booking_init view S0 names s" and "(air_step ops)\<^sup>*\<^sup>* s t"
  shows "seats_inv S0 names (v_seats (view (air_db t))) (air_pcs t) \<and>
    (\<forall>i k. booked_by (air_pcs t) i k \<longrightarrow> map_of (v_seats (view (air_db t))) k = Some (Some (names ! i)))"
proof -
  have inv: "air_inv view S0 names t" using air.reachable_inv [OF assms] .
  have "map_of (v_seats (view (air_db t))) k = Some (Some (names ! i))" if "booked_by (air_pcs t) i k" for i k
  proof -
    have "pc_ok (view (air_db t)) i (names ! i) (ADone (Booked k) True)"
      using that inv by (fastforce simp: booked_by_def air_inv_def seats_inv_def Let_def)
    then show ?thesis by simp
  qed
  with inv show ?thesis by (simp add: air_inv_def Let_def)
qed

lemma seats_all_used:
  assumes "booking_init view S0 names s" and "(air_step ops)\<^sup>*\<^sup>* s t"
    and succ: "list_all (\<lambda>pc. \<exists>r. pc = ADone r True) (air_pcs t)"
  shows "tally has_booked (air_pcs t) = min (length (free_ids S0)) (length names)"
proof -
  let ?S = "v_seats (view (air_db t))"
  have inv: "air_inv view S0 names t" using air.reachable_inv [OF assms(1,2)] .
  then have len: "length (air_pcs t) = length names" by (simp add: air_inv_def seats_inv_def Let_def)
  have ok: "pc_ok (view (air_db t)) i (names ! i) (air_pcs t ! i)" if "i < length names" for i
    using that inv by (simp add: air_inv_def Let_def)
  have lost: "\<not> lost_commit (ADone r True)" for r by (cases r) auto
  have "tally lost_commit (air_pcs t) = 0"
    using succ lost by (auto simp: tally_def filter_empty_conv list_all_iff)
  then have count: "length (free_ids S0) = length (free_ids ?S) + tally has_booked (air_pcs t)"
    using inv by (simp add: air_inv_def seats_inv_def Let_def)
  show ?thesis
  proof (cases "free_ids ?S = []")
    case True
    then show ?thesis using count tally_le_length [of has_booked "air_pcs t"] len by simp
  next
    case False
    have "has_booked (air_pcs t ! i)" if i: "i < length names" for i
    proof -
      obtain r where r: "air_pcs t ! i = ADone r True" using succ i unfolding list_all_length len by blast
      with ok [OF i] False show ?thesis by (cases r) (auto simp: no_free_def)
    qed
    then have "tally has_booked (air_pcs t) = length names"
      unfolding len [symmetric] tally_all by (simp add: list_all_length len)
    with count show ?thesis by simp
  qed
qed

end

text \<open>
  C7. No seat is booked twice, whatever the interleaving of the users' transactions and whichever
  of their statements fail: passengers seated before keep their seats; every other name on a seat
  is that of a user whose transaction committed exactly that seat; and two users whose commits
  succeeded never have the same seat, each being the one written on it.
\<close>

theorem airline_no_double_booking:
  assumes "tx_server ops view" and "distinct (map fst S0)" and "0 \<notin> fst ` set S0"
    and "booking_init view S0 names s" and "(air_step ops)\<^sup>*\<^sup>* s t"
  shows "let S = v_seats (view (air_db t)) in
    (\<forall>k n. map_of S0 k = Some (Some n) \<longrightarrow> map_of S k = Some (Some n)) \<and>
    (\<forall>k n. map_of S k = Some (Some n) \<longrightarrow> came_from S0 names (air_pcs t) k n) \<and>
    (\<forall>i k. booked_by (air_pcs t) i k \<longrightarrow> map_of S k = Some (Some (names ! i))) \<and>
    (\<forall>i j k. booked_by (air_pcs t) i k \<and> booked_by (air_pcs t) j k \<longrightarrow> i = j)"
proof -
  have "air_booking ops view S0" using assms(1-3) by (simp add: air_booking_def air_booking_axioms_def)
  from air_booking.seats_safe [OF this assms(4,5)] show ?thesis by (simp add: seats_inv_def Let_def)
qed

theorem airline_no_double_booking_witness:
  "\<exists>t. (air_step row_ops)\<^sup>*\<^sup>* (boarding [''amy''] [AStart] three_seats Map.empty Map.empty) t \<and>
    booked_by (air_pcs t) 0 2 \<and> map_of (v_seats (air_db t)) 2 = Some (Some ''amy'') \<and>
    map_of (v_seats (air_db t)) 1 = Some (Some ''zoe'')"
proof -
  let ?t = "boarding [''amy''] [ADone (Booked 2) True] [(1, Some ''zoe''), (2, Some ''amy''), (3, None)] Map.empty Map.empty"
  have b: "booked_by (air_pcs ?t) 0 2" by (simp add: booked_by_def boarding_def)
  have "map_of (v_seats (air_db ?t)) 2 = Some (Some ''amy'')" "map_of (v_seats (air_db ?t)) 1 = Some (Some ''zoe'')"
    using airline_no_double_booking [OF row.tx_server_axioms row_booking.seat_ids boarding_start boarding_run] b
    by (auto simp: Let_def three_seats_def)
  with b boarding_run show ?thesis by blast
qed

text \<open>
  As many users get a seat as possible: when every transaction has committed, the number of
  users with a seat is the smaller of the number of free seats and the number of users.
\<close>

theorem airline_seats_used:
  assumes "tx_server ops view" and "distinct (map fst S0)" and "0 \<notin> fst ` set S0"
    and "booking_init view S0 names s" and "(air_step ops)\<^sup>*\<^sup>* s t"
    and "list_all (\<lambda>pc. \<exists>r. pc = ADone r True) (air_pcs t)"
  shows "tally has_booked (air_pcs t) = min (length (free_ids S0)) (length names)"
proof -
  have "air_booking ops view S0" using assms(1-3) by (simp add: air_booking_def air_booking_axioms_def)
  from air_booking.seats_all_used [OF this assms(4-6)] show ?thesis .
qed

theorem airline_seats_used_witness:
  "tally has_booked (air_pcs (boarding [''amy''] [ADone (Booked 2) True] [(1, Some ''zoe''), (2, Some ''amy''), (3, None)]
     Map.empty Map.empty)) = min 2 1"
  using airline_seats_used [OF row.tx_server_axioms row_booking.seat_ids boarding_start boarding_run]
  by (simp add: boarding_def three_seats_def free_ids_def)

text \<open>
  C28. The booking ends: the goroutines never wait for each other forever, no run is longer than
  seven steps per user and one, and a run that cannot go on has let the wait group go or was ended
  by a panic.
\<close>

theorem airline_terminates:
  assumes "tx_server ops view" and "distinct (map fst S0)" and "0 \<notin> fst ` set S0"
    and "booking_init view S0 names s"
  shows "(\<forall>n t. (air_step ops ^^ n) s t \<longrightarrow> n \<le> 7 * length names + 1) \<and>
    (\<forall>t. (air_step ops)\<^sup>*\<^sup>* s t \<and> (\<nexists>u. air_step ops t u) \<longrightarrow> air_final t) \<and>
    (\<forall>t. (air_step ops)\<^sup>*\<^sup>* s t \<longrightarrow> (\<exists>u. (air_step ops)\<^sup>*\<^sup>* t u \<and> air_final u))"
proof -
  have b: "air_booking ops view S0" using assms(1-3) by (simp add: air_booking_def air_booking_axioms_def)
  note live = air_booking.air_live [OF b, of names] and inv = booking_init_inv [OF assms(4)]
  have "weight air_rank (replicate m AStart) = 7 * m" for m by (induction m) simp_all
  then have "air_variant s = 7 * length names + 1" using assms(4) by (simp add: air_variant_def booking_init_def)
  then have "n \<le> 7 * length names + 1" if "(air_step ops ^^ n) s t" for n t
    using live_system.run_length [OF live that inv] by simp
  then show ?thesis
    using live_system.stuck_final [OF live assms(4)] live_system.reaches_final [OF live assms(4)] by blast
qed

theorem airline_terminates_witness:
  "\<exists>u. (air_step row_ops)\<^sup>*\<^sup>* (boarding [''amy''] [AStart] three_seats Map.empty Map.empty) u \<and> air_final u"
  using airline_terminates [OF row.tx_server_axioms row_booking.seat_ids boarding_start] by blast

text \<open>
  A transaction that cannot be begun takes the whole program down: the handler of the error calls
  \<open>Rollback\<close> on the transaction that \<open>Begin\<close> did not return, and the nil dereference ends every
  goroutine, with whatever the others had not yet committed.
\<close>

theorem airline_begin_failure:
  assumes "at i AStart s" and "op_begin ops i (air_db s) False d"
  shows "\<exists>t. air_step ops s t \<and> air_panic t = Some NilDereference \<and> air_pcs t = air_pcs s \<and> (\<nexists>u. air_step ops t u)"
proof (intro exI conjI)
  let ?t = "s\<lparr>air_db := d, air_panic := Some NilDereference\<rparr>"
  show "air_step ops s ?t" using begin_fails [OF assms] .
  show "\<nexists>u. air_step ops ?t u" by (auto elim!: air_step.cases simp: at_def)
qed simp_all

theorem airline_begin_failure_witness:
  "\<exists>t. air_step row_ops (boarding [''amy''] [AStart] three_seats Map.empty Map.empty) t \<and> air_panic t = Some NilDereference"
  using airline_begin_failure [of 0 "boarding [''amy''] [AStart] three_seats Map.empty Map.empty" row_ops]
  by (fastforce simp: at_def boarding_def row_ops_def)

text \<open>
  \<open>makeBooking\<close> starts one goroutine per user, in the order of the rows, exactly when every row
  was read; and \<open>printSeats\<close> breaks the line before every seventh seat (so the first line has six).
\<close>

lemma print_rows_lines:
  assumes "list_all (\<lambda>r. \<exists>n. scan_seat_name r = Some n \<and> CHR 0x0A \<notin> set n) rows"
  shows "count_list (print_rows e m rows) CHR 0x0A = Suc ((m + length rows) div 7 - m div 7)"
  using assms
proof (induction rows arbitrary: m)
  case (Cons r rows)
  then obtain n where n: "scan_seat_name r = Some n" "CHR 0x0A \<notin> set n" by auto
  then have z: "count_list n CHR 0x0A = 0" by (simp add: count_list_0_iff)
  have IH: "count_list (print_rows e (Suc m) rows) CHR 0x0A = Suc ((Suc m + length rows) div 7 - Suc m div 7)"
    using Cons by simp
  have "Suc m div 7 \<le> (Suc m + length rows) div 7" by (rule div_le_mono) simp
  then show ?case using IH n z by (auto simp: div_Suc)
qed simp

theorem airline_main_parts:
  assumes "scan_rows scan_air_user rows = Some us"
    and "list_all (\<lambda>r. \<exists>n. scan_seat_name r = Some n \<and> CHR 0x0A \<notin> set n) seat_rows"
  shows "makeBooking True (Inr rows) d =
      Some \<lparr>air_db = d, air_names = map air_name us, air_pcs = replicate (length rows) AStart, air_panic = None\<rparr> \<and>
    count_list (printSeats e None (Inr seat_rows)) CHR 0x0A = length seat_rows div 7 + 1"
proof -
  have "length us = length rows" using assms(1)
    by (induction rows arbitrary: us) (auto split: option.splits)
  then show ?thesis using assms(1) print_rows_lines [OF assms(2), of e 0]
    by (simp add: makeBooking_def printSeats_def)
qed

theorem airline_main_parts_witness:
  "count_list (printSeats [] None (Inr (replicate 7 [VInt 1, VStr ''1A'', VNull]))) CHR 0x0A = 2"
proof -
  have "list_all (\<lambda>r. \<exists>n. scan_seat_name r = Some n \<and> CHR 0x0A \<notin> set n) (replicate 7 [VInt 1, VStr ''1A'', VNull])"
    by (simp add: list_all_iff scan_seat_name_def)
  from airline_main_parts [of "[]" "[]" _ "()" "[]", OF _ this] show ?thesis by (simp add: numeral_2_eq_2)
qed

end
