(* ===== verification/Airline_Serial.thy ===== *)
theory Airline_Serial
  imports Airline_Checkin
begin

text \<open>
  Serializability of the booking of \<open>airlineCheckin/main.go\<close>: the concurrent transactions do what
  one user after the other would do. \<open>reserve\<close> is the specification, the whole of
  \<open>reserveEmptyForUser\<close> as one atomic step on the seats.
\<close>

subsection \<open>The serial program\<close>

definition reserve :: "string list \<Rightarrow> seats \<Rightarrow> nat \<Rightarrow> seats" where
  "reserve names S i = (case first_free S of None \<Rightarrow> S | Some k \<Rightarrow> take_seat k (names ! i) S)"

definition serial_answer :: "seats \<Rightarrow> air_result" where
  "serial_answer S = (case first_free S of None \<Rightarrow> AllBooked | Some k \<Rightarrow> Booked k)"

text \<open>
  The users of \<open>order\<close>, served one after the other, leave the seats \<open>S\<close>, and each of them was told
  what it is told when it is served then.
\<close>

definition serial_run :: "seats \<Rightarrow> string list \<Rightarrow> air_pc list \<Rightarrow> nat list \<Rightarrow> seats \<Rightarrow> bool" where
  "serial_run S0 names pcs order S \<longleftrightarrow>
     distinct order \<and> S = foldl (reserve names) S0 order \<and>
     (\<forall>p < length order. order ! p < length pcs \<and>
        (\<exists>ok. pcs ! (order ! p) = ADone (serial_answer (foldl (reserve names) S0 (take p order))) ok))"

lemma serial_run_start: "serial_run S0 names pcs [] S0"
  by (simp add: serial_run_def)

fun finished :: "air_pc \<Rightarrow> bool" where
  "finished (ADone r ok) = True"
| "finished _ = False"

lemma serial_run_other:
  assumes "serial_run S0 names pcs order S" and "\<not> finished (pcs ! i)"
  shows "serial_run S0 names (pcs[i := pc]) order S \<and> i \<notin> set order"
proof -
  have ne: "order ! p \<noteq> i" if "p < length order" for p
    using assms that unfolding serial_run_def by (metis finished.simps(1))
  then have "pcs[i := pc] ! (order ! p) = pcs ! (order ! p)" if "p < length order" for p
    using ne [OF that] by (metis nth_list_update_neq)
  with ne show ?thesis using assms(1) by (auto simp: serial_run_def in_set_conv_nth)
qed

lemma serial_run_next:
  assumes "serial_run S0 names pcs order S" and "i < length pcs" and "\<not> finished (pcs ! i)"
  shows "serial_run S0 names (pcs[i := ADone (serial_answer S) ok]) (order @ [i]) (reserve names S i)"
proof -
  note old = serial_run_other [OF assms(1,3), of "ADone (serial_answer S) ok"]
  have "foldl (reserve names) S0 order = S" using assms(1) by (simp add: serial_run_def)
  with old assms(2) show ?thesis by (auto simp: serial_run_def nth_append less_Suc_eq)
qed

subsection \<open>A transaction that holds a seat holds the first free one\<close>

fun wants :: "air_pc \<Rightarrow> int option" where
  "wants (ASelected [[VInt k]]) = Some k"
| "wants (AScanned k) = (if k = 0 then None else Some k)"
| "wants (AReady (Booked k)) = Some k"
| "wants _ = None"

definition first_inv :: "('db \<Rightarrow> seat_view) \<Rightarrow> 'db air_sys \<Rightarrow> bool" where
  "first_inv view s \<longleftrightarrow>
     (\<forall>i < length (air_pcs s). \<forall>k. wants (air_pcs s ! i) = Some k \<longrightarrow> first_free (v_seats (view (air_db s))) = Some k)"

lemma pc_ok_at: "air_inv view S0 names s \<Longrightarrow> at i pc s \<Longrightarrow> pc_ok (view (air_db s)) i (names ! i) pc"
  by (auto simp: at_def air_inv_def Let_def seats_inv_def)

lemma wants_holds: "pc_ok v i n pc \<Longrightarrow> wants pc = Some k \<Longrightarrow> holds_seat v i k"
  by (induction pc rule: wants.induct) (auto split: if_splits)

lemma wants_one:
  assumes "air_inv view S0 names s" and "i < length (air_pcs s)" and "j < length (air_pcs s)"
    and "wants (air_pcs s ! i) = Some k" and "wants (air_pcs s ! j) = Some k"
  shows "i = j"
proof -
  have len: "length (air_pcs s) = length names" using assms(1) by (simp add: air_inv_def seats_inv_def Let_def)
  have "holds_seat (view (air_db s)) l k" if "l < length (air_pcs s)" "wants (air_pcs s ! l) = Some k" for l
    using assms(1) that len wants_holds by (fastforce simp: air_inv_def Let_def)
  from this [OF assms(2,4)] this [OF assms(3,5)] show ?thesis by (simp add: holds_seat_def)
qed

lemma first_inv_goto:
  assumes "first_inv view s" and "v_seats (view d) = v_seats (view (air_db s))"
    and "\<And>k. wants pc = Some k \<Longrightarrow> first_free (v_seats (view d)) = Some k"
  shows "first_inv view (goto i pc d s)"
  unfolding first_inv_def
proof (intro allI impI)
  fix j k
  assume "j < length (air_pcs (goto i pc d s))" "wants (air_pcs (goto i pc d s) ! j) = Some k"
  then show "first_free (v_seats (view (air_db (goto i pc d s)))) = Some k"
    using assms by (cases "j = i") (auto simp: first_inv_def goto_def)
qed

lemma first_inv_commit:
  assumes "air_inv view S0 names s" and "first_inv view s" and "at i (AReady (Booked k)) s"
  shows "first_inv view (goto i (ADone r ok) d s)"
proof -
  have i: "i < length (air_pcs s)" "wants (air_pcs s ! i) = Some k" using assms(3) by (simp_all add: at_def)
  have "wants (air_pcs s ! j) = None" if "j < length (air_pcs s)" "j \<noteq> i" for j
  proof (rule ccontr)
    assume "wants (air_pcs s ! j) \<noteq> None"
    then obtain l where l: "wants (air_pcs s ! j) = Some l" by blast
    then have "l = k" using assms(2) that(1) i unfolding first_inv_def by (metis option.inject)
    with wants_one [OF assms(1) i(1) that(1) i(2)] l that(2) show False by simp
  qed
  then show ?thesis using i(1) by (auto simp: first_inv_def goto_def nth_list_update)
qed

text \<open>A step that commits nothing.\<close>

definition quiet_step :: "('db \<Rightarrow> seat_view) \<Rightarrow> 'db air_sys \<Rightarrow> 'db air_sys \<Rightarrow> bool" where
  "quiet_step view s t \<longleftrightarrow>
     v_seats (view (air_db t)) = v_seats (view (air_db s)) \<and>
     (\<exists>i pc. \<not> finished (air_pcs s ! i) \<and> \<not> finished pc \<and> air_pcs t = (air_pcs s)[i := pc])"

lemma quiet_goto:
  "at i pc0 s \<Longrightarrow> \<not> finished pc0 \<Longrightarrow> \<not> finished pc \<Longrightarrow> v_seats (view d) = v_seats (view (air_db s)) \<Longrightarrow>
    quiet_step view s (goto i pc d s)"
  by (auto simp: quiet_step_def goto_def at_def)

context tx_server
begin

lemma air_step_first:
  assumes inv: "air_inv view S0 names s" "first_inv view s" and step: "air_step ops s t"
  shows "first_inv view t"
proof -
  have first: "first_free (v_seats (view (air_db s))) = Some k" if "at i pc s" "wants pc = Some k" for i pc k
    using inv(2) that by (auto simp: first_inv_def at_def)
  note goto = first_inv_goto [OF inv(2)]
  from step show ?thesis
  proof cases
    case (begin_ok i d)
    then show ?thesis using begin_law [OF begin_ok(3)] by (auto intro!: goto)
  next
    case (begin_fails i d)
    then show ?thesis using begin_law [OF begin_fails(3)] inv(2) by (simp add: first_inv_def)
  next
    case (prepare i ok d)
    then show ?thesis using prepare_law [OF prepare(3)] by (auto intro!: goto)
  next
    case (query i rows d)
    then show ?thesis using select_law [OF query(3)] by (auto intro!: goto split: option.splits)
  next
    case (query_fails i e d)
    then show ?thesis using select_err [OF query_fails(3)] by (auto intro!: goto)
  next
    case (scan i rows)
    have "wants (ASelected rows) = Some k" if "scan_seat rows = Some k" "k \<noteq> 0" "pc_ok (view (air_db s)) i n (ASelected rows)" for k n
      using that by (auto simp: scan_seat_def)
    moreover note pc_ok_at [OF inv(1) scan(2)]
    ultimately show ?thesis using scan(1) first [OF scan(2)]
      by (auto intro!: goto split: option.splits if_splits)
  next
    case (update i k a d)
    then show ?thesis using update_law [OF update(4)] first [OF update(2)] by (auto intro!: goto split: if_splits)
  next
    case (update_fails i k e d)
    then show ?thesis using update_err [OF update_fails(4)] by (auto intro!: goto)
  next
    case (no_seat i)
    then show ?thesis by (auto intro!: goto)
  next
    case (rollback i d)
    then show ?thesis using rollback_law [OF rollback(3)] by (auto intro!: goto)
  next
    case (commit i r ok d)
    note ok = pc_ok_at [OF inv(1) commit(2)]
    show ?thesis
    proof (cases r)
      case (Booked k)
      then show ?thesis using commit first_inv_commit [OF inv] by simp
    next
      case AllBooked
      then show ?thesis using commit commit_law [OF commit(3)] ok by (auto intro!: goto simp: apply_pending_def)
    qed (use ok in simp)
  qed
qed

text \<open>A committed transaction did what the serial program does on the seats it commits to.\<close>

lemma commit_serial:
  assumes inv: "air_inv view S0 names s" "first_inv view s" and i: "at i (AReady r) s"
    and c: "op_commit ops i (air_db s) ok d"
  shows "r = serial_answer (v_seats (view (air_db s))) \<and>
    (v_seats (view d) = reserve names (v_seats (view (air_db s))) i \<or> \<not> ok \<and> v_seats (view d) = v_seats (view (air_db s)))"
proof -
  note ok = pc_ok_at [OF inv(1) i]
  show ?thesis
  proof (cases r)
    case (Booked k)
    then have "first_free (v_seats (view (air_db s))) = Some k" using inv(2) i by (auto simp: first_inv_def at_def)
    with Booked ok commit_law [OF c] show ?thesis by (auto simp: serial_answer_def reserve_def apply_pending_def)
  next
    case AllBooked
    with ok have "first_free (v_seats (view (air_db s))) = None" by (simp add: no_free_def first_free_None)
    with AllBooked ok commit_law [OF c] show ?thesis by (auto simp: serial_answer_def reserve_def apply_pending_def)
  qed (use ok in simp)
qed

text \<open>Every other step leaves the committed seats alone and finishes nobody with success.\<close>

lemma other_steps:
  assumes "air_step ops s t"
  shows "(\<exists>i r ok d. at i (AReady r) s \<and> op_commit ops i (air_db s) ok d \<and> t = goto i (ADone r ok) d s) \<or> quiet_step view s t"
  using assms
proof cases
  case (begin_ok i d)
  then show ?thesis using begin_law [OF begin_ok(3)] by (simp add: quiet_goto)
next
  case (begin_fails i d)
  have "air_pcs t = (air_pcs s)[i := air_pcs s ! i]" using begin_fails(1) by simp
  moreover have "\<not> finished (air_pcs s ! i)" using begin_fails(2) by (simp add: at_def)
  moreover have "view (air_db t) = view (air_db s)" using begin_law [OF begin_fails(3)] begin_fails(1) by simp
  ultimately show ?thesis unfolding quiet_step_def by metis
next
  case (prepare i ok d)
  then show ?thesis using prepare_law [OF prepare(3)] by (simp add: quiet_goto)
next
  case (query i rows d)
  then show ?thesis using select_law [OF query(3)] by (simp add: quiet_goto)
next
  case (query_fails i e d)
  then show ?thesis using select_err [OF query_fails(3)] by (simp add: quiet_goto)
next
  case (scan i rows)
  then show ?thesis by (simp add: quiet_goto split: option.split)
next
  case (update i k a d)
  then show ?thesis using update_law [OF update(4)] by (simp add: quiet_goto)
next
  case (update_fails i k e d)
  then show ?thesis using update_err [OF update_fails(4)] by (simp add: quiet_goto)
next
  case (no_seat i)
  then show ?thesis by (simp add: quiet_goto)
next
  case (rollback i d)
  then show ?thesis using rollback_law [OF rollback(3)] by (simp add: quiet_goto)
qed blast

end

context air_booking
begin

lemma serial_order:
  assumes "booking_init view S0 names s" and "(air_step ops)\<^sup>*\<^sup>* s t"
  shows "first_inv view t \<and>
    (\<exists>order. serial_run S0 names (air_pcs t) order (v_seats (view (air_db t))) \<and>
      (\<forall>i < length (air_pcs t). \<forall>r. air_pcs t ! i = ADone r True \<longrightarrow> i \<in> set order))"
  using assms(2)
proof (induction rule: rtranclp_induct)
  case base
  have "v_seats (view (air_db s)) = S0" "air_pcs s = replicate (length names) AStart"
    using assms(1) by (simp_all add: booking_init_def)
  then show ?case using serial_run_start [of S0 names "air_pcs s"]
    by (auto simp: first_inv_def intro!: exI [of _ "[]"])
next
  case (step t u)
  have inv: "air_inv view S0 names t" "first_inv view t" using air.reachable_inv [OF assms(1) step.hyps(1)] step.IH by blast+
  obtain order where order: "serial_run S0 names (air_pcs t) order (v_seats (view (air_db t)))"
    and all: "\<And>i r. i < length (air_pcs t) \<Longrightarrow> air_pcs t ! i = ADone r True \<Longrightarrow> i \<in> set order"
    using step.IH by blast
  have "\<exists>order. serial_run S0 names (air_pcs u) order (v_seats (view (air_db u))) \<and>
      (\<forall>i < length (air_pcs u). \<forall>r. air_pcs u ! i = ADone r True \<longrightarrow> i \<in> set order)"
    using other_steps [OF step.hyps(2)]
  proof
    assume "quiet_step view t u"
    then obtain i pc where q: "\<not> finished (air_pcs t ! i)" "\<not> finished pc" "air_pcs u = (air_pcs t)[i := pc]"
      "v_seats (view (air_db u)) = v_seats (view (air_db t))" by (auto simp: quiet_step_def)
    have "j \<in> set order" if "j < length (air_pcs t)" "(air_pcs t)[i := pc] ! j = ADone r True" for j r
      using all [of j r] that q(2) by (cases "j = i") auto
    with serial_run_other [OF order, of i pc] q show ?thesis by (intro exI [of _ order]) simp
  next
    assume "\<exists>i r ok d. at i (AReady r) t \<and> op_commit ops i (air_db t) ok d \<and> u = goto i (ADone r ok) d t"
    then obtain i r ok d where i: "at i (AReady r) t" and c: "op_commit ops i (air_db t) ok d" and u: "u = goto i (ADone r ok) d t"
      by blast
    note law = commit_serial [OF inv i c]
    have il: "i < length (air_pcs t)" "\<not> finished (air_pcs t ! i)" using i by (simp_all add: at_def)
    show ?thesis
    proof (cases "v_seats (view d) = reserve names (v_seats (view (air_db t))) i")
      case True
      with serial_run_next [OF order il, of ok] law u all il show ?thesis
        by (intro exI [of _ "order @ [i]"]) (auto simp: goto_def nth_list_update split: if_splits)
    next
      case False
      with law serial_run_other [OF order il(2), of "ADone r ok"] u all il show ?thesis
        by (intro exI [of _ order]) (auto simp: goto_def nth_list_update split: if_splits)
    qed
  qed
  with air_step_first [OF inv step.hyps(2)] show ?case by blast
qed

end

subsection \<open>Properties\<close>

text \<open>
  C8. The booking is serializable: in every reachable state, whatever the interleaving and whichever
  statements failed, the committed seats are those of the serial program for some of the users in
  some order, each of them at most once; every user whose commit succeeded is among them, and each was
  told what the serial program answers at its turn (the first free seat, or that all are booked).
\<close>

theorem airline_serializable:
  assumes "tx_server ops view" and "distinct (map fst S0)" and "0 \<notin> fst ` set S0"
    and "booking_init view S0 names s" and "(air_step ops)\<^sup>*\<^sup>* s t"
  shows "\<exists>order. distinct order \<and> v_seats (view (air_db t)) = foldl (reserve names) S0 order \<and>
    (\<forall>i < length (air_pcs t). \<forall>r. air_pcs t ! i = ADone r True \<longrightarrow> i \<in> set order) \<and>
    (\<forall>p < length order. order ! p < length names \<and>
      (\<exists>ok. air_pcs t ! (order ! p) = ADone (serial_answer (foldl (reserve names) S0 (take p order))) ok))"
proof -
  have b: "air_booking ops view S0" using assms(1-3) by (simp add: air_booking_def air_booking_axioms_def)
  have "length (air_pcs t) = length names"
    using air_booking.seats_safe [OF b assms(4,5)] by (simp add: seats_inv_def)
  with air_booking.serial_order [OF b assms(4,5)] show ?thesis unfolding serial_run_def by metis
qed

theorem airline_serializable_witness:
  "\<exists>t order. (air_step row_ops)\<^sup>*\<^sup>* (boarding [''amy''] [AStart] three_seats Map.empty Map.empty) t \<and>
    0 \<in> set order \<and> v_seats (air_db t) = foldl (reserve [''amy'']) three_seats order"
proof -
  let ?t = "boarding [''amy''] [ADone (Booked 2) True] [(1, Some ''zoe''), (2, Some ''amy''), (3, None)] Map.empty Map.empty"
  obtain order where "v_seats (air_db ?t) = foldl (reserve [''amy'']) three_seats order"
    "\<forall>i < length (air_pcs ?t). \<forall>r. air_pcs ?t ! i = ADone r True \<longrightarrow> i \<in> set order"
    using airline_serializable [OF row.tx_server_axioms row_booking.seat_ids boarding_start boarding_run] by blast
  moreover from this(2) have "0 \<in> set order" by (simp add: boarding_def)
  ultimately show ?thesis using boarding_run by blast
qed

end
