(* ===== verification/Airline_Main.thy ===== *)
theory Airline_Main
  imports Airline_Serial
begin

text \<open>
  \<open>main\<close> of \<open>airlineCheckin/main.go\<close>: connect, print the seats, book, print the seats again. The answers of the
  server to the two listing queries are functions of its state; what the goroutines print in between is not
  part of the result.
\<close>

subsection \<open>The program\<close>

definition air_connectToDb :: "string + 'db \<Rightarrow> 'db go" where
  "air_connectToDb opened =
     (case opened of Inl err \<Rightarrow> Inl (FatalExit (''error while connecting to mysql DB | '' @ err)) | Inr db \<Rightarrow> Inr db)"

text \<open>
  \<open>seats_of\<close>: the text of a prepare error or the answer to \<open>select * from seat\<close>; \<open>users_of\<close>: whether the statement was
  prepared and the answer to \<open>select * from user\<close>. The result is what the two calls of \<open>printSeats\<close> print.
\<close>

inductive airline_main ::
    "'db tx_ops \<Rightarrow> string \<Rightarrow> ('db \<Rightarrow> string option \<times> (string + sql_val list list)) \<Rightarrow> ('db \<Rightarrow> bool \<times> (string + sql_val list list)) \<Rightarrow>
     string + 'db \<Rightarrow> (string \<times> string) go \<Rightarrow> bool"
    for ops scan_err seats_of users_of where
  no_connection: "air_connectToDb opened = Inl p \<Longrightarrow> airline_main ops scan_err seats_of users_of opened (Inl p)"
| nobody_booked: "air_connectToDb opened = Inr d \<Longrightarrow> makeBooking (fst (users_of d)) (snd (users_of d)) d = None \<Longrightarrow>
    airline_main ops scan_err seats_of users_of opened
      (Inr (printSeats scan_err (fst (seats_of d)) (snd (seats_of d)), printSeats scan_err (fst (seats_of d)) (snd (seats_of d))))"
| booked: "air_connectToDb opened = Inr d \<Longrightarrow> makeBooking (fst (users_of d)) (snd (users_of d)) d = Some s \<Longrightarrow>
    (air_step ops)\<^sup>*\<^sup>* s t \<Longrightarrow> air_final t \<Longrightarrow> air_panic t = None \<Longrightarrow>
    airline_main ops scan_err seats_of users_of opened
      (Inr (printSeats scan_err (fst (seats_of d)) (snd (seats_of d)),
            printSeats scan_err (fst (seats_of (air_db t))) (snd (seats_of (air_db t)))))"
| panicked: "air_connectToDb opened = Inr d \<Longrightarrow> makeBooking (fst (users_of d)) (snd (users_of d)) d = Some s \<Longrightarrow>
    (air_step ops)\<^sup>*\<^sup>* s t \<Longrightarrow> air_panic t = Some p \<Longrightarrow> airline_main ops scan_err seats_of users_of opened (Inl p)"

inductive_cases airline_mainE: "airline_main ops scan_err seats_of users_of opened r"

subsection \<open>The printed tables\<close>

text \<open>A row of the seat table, with the label of the seat, and the table \<open>printSeats\<close> makes of them.\<close>

definition seat_row :: "(int \<Rightarrow> string) \<Rightarrow> int \<times> string option \<Rightarrow> sql_val list" where
  "seat_row label s = [VInt (fst s), VStr (label (fst s)), (case snd s of None \<Rightarrow> VNull | Some n \<Rightarrow> VStr n)]"

definition user_row :: "int \<times> string \<Rightarrow> sql_val list" where
  "user_row u = [VInt (fst u), VStr (snd u)]"

fun seat_table :: "nat \<Rightarrow> seats \<Rightarrow> string" where
  "seat_table m [] = [CHR 0x0A]"
| "seat_table m (s # ss) =
     (if Suc m mod 7 = 0 then [CHR 0x0A] else []) @ (case snd s of None \<Rightarrow> [] | Some n \<Rightarrow> n) @ [CHR 0x09] @ ''| '' @
     seat_table (Suc m) ss"

lemma scan_seat_row: "scan_seat_name (seat_row label s) = Some (case snd s of None \<Rightarrow> [] | Some n \<Rightarrow> n)"
  by (simp add: seat_row_def scan_seat_name_def split: option.splits)

lemma print_rows_table: "print_rows e m (map (seat_row label) S) = seat_table m S"
  by (induction S arbitrary: m) (simp_all add: scan_seat_row)

lemma printSeats_table: "printSeats e None (Inr (map (seat_row label) S)) = seat_table 0 S"
  by (simp add: printSeats_def print_rows_table)

lemma scan_user_rows: "scan_rows scan_air_user (map user_row us) = Some (map (\<lambda>u. \<lparr>air_id = fst u, air_name = snd u\<rparr>) us)"
proof (induction us)
  case (Cons u us)
  have "scan_air_user (user_row u) = Some \<lparr>air_id = fst u, air_name = snd u\<rparr>" by (simp add: user_row_def scan_air_user_def)
  with Cons show ?case by simp
qed simp

lemma makeBooking_users:
  "makeBooking True (Inr (map user_row us)) d =
    Some \<lparr>air_db = d, air_names = map snd us, air_pcs = replicate (length us) AStart, air_panic = None\<rparr>"
  by (simp add: makeBooking_def scan_user_rows comp_def)

subsection \<open>A server that never fails\<close>

definition reliable :: "'db tx_ops \<Rightarrow> bool" where
  "reliable ops \<longleftrightarrow>
     (\<forall>i d d'. \<not> op_begin ops i d False d' \<and> \<not> op_prepare ops i d False d' \<and> \<not> op_commit ops i d False d' \<and>
        (\<forall>e. \<not> op_select ops i d (Inl e) d') \<and> (\<forall>n k e. \<not> op_update ops i n k d (Inl e) d'))"

fun on_track :: "air_pc \<Rightarrow> bool" where
  "on_track AFailing = False"
| "on_track ARolledBack = False"
| "on_track (ADone r ok) = ok"
| "on_track (ASelected rows) = (scan_seat rows \<noteq> None)"
| "on_track _ = True"

context tx_server
begin

lemma selected_scans: "op_select ops i d (Inr rows) d' \<Longrightarrow> scan_seat rows \<noteq> None"
  using select_law [of i d rows d'] by (auto simp: scan_seat_def split: option.splits)

lemma on_track_step:
  assumes "reliable ops" and "air_step ops s t" and "list_all on_track (air_pcs s)"
  shows "list_all on_track (air_pcs t)"
proof -
  have keep: "list_all on_track (air_pcs (goto i pc d s))" if "on_track pc" for i pc d
    using assms(3) that by (simp add: goto_def list_all_update)
  from assms(2) show ?thesis
  proof cases
    case (prepare i ok d)
    then have "ok" using assms(1) by (cases ok) (auto simp: reliable_def)
    with prepare keep show ?thesis by simp
  next
    case (query i rows d)
    with keep selected_scans show ?thesis by simp
  next
    case (scan i rows)
    then have "scan_seat rows \<noteq> None" using assms(3) by (auto simp: at_def list_all_length)
    with scan keep show ?thesis by auto
  next
    case (commit i r ok d)
    then have "ok" using assms(1) by (cases ok) (auto simp: reliable_def)
    with commit keep show ?thesis by simp
  next
    case (rollback i d)
    then show ?thesis using assms(3) by (auto simp: at_def list_all_length)
  qed (use assms keep in \<open>auto simp: reliable_def\<close>)
qed

lemma all_committed:
  assumes "reliable ops" and "(air_step ops)\<^sup>*\<^sup>* s t" and "list_all on_track (air_pcs s)" and "list_all air_ended (air_pcs t)"
    and "i < length (air_pcs t)"
  shows "\<exists>r. air_pcs t ! i = ADone r True"
proof -
  from assms(2,3) have "list_all on_track (air_pcs t)"
    by (induction rule: rtranclp_induct) (auto intro: on_track_step [OF assms(1)])
  with assms(4,5) have "on_track (air_pcs t ! i)" "air_ended (air_pcs t ! i)" by (simp_all add: list_all_length)
  then show ?thesis by (cases "air_pcs t ! i") auto
qed

end

text \<open>The server with row locks of \<open>row_ops\<close>, without its failures.\<close>

definition sure_ops :: "seat_view tx_ops" where
  "sure_ops = row_ops\<lparr>op_begin := (\<lambda>i d ok d'. ok \<and> d' = d), op_prepare := (\<lambda>i d ok d'. ok \<and> d' = d),
     op_select := (\<lambda>i d r d'. (\<forall>e. r \<noteq> Inl e) \<and> op_select row_ops i d r d'),
     op_update := (\<lambda>i n k d r d'. (\<forall>e. r \<noteq> Inl e) \<and> op_update row_ops i n k d r d'),
     op_commit := (\<lambda>i d ok d'. ok \<and> op_commit row_ops i d ok d')\<rparr>"

interpretation sure: tx_server sure_ops "\<lambda>v. v"
proof
  show "\<exists>r d'. op_select sure_ops i d r d'" if "\<forall>k. v_lock d k = None \<or> v_lock d k = Some i" for i d
    using that by (cases "first_free (v_seats d)") (auto simp: sure_ops_def row_ops_def intro!: exI [of _ "Inr _"])
  show "\<exists>r d'. op_update sure_ops i n k d r d'" if "v_lock d k = Some i" for i n k d
    using that by (auto simp: sure_ops_def row_ops_def intro!: exI [of _ "Inr _"])
qed (auto simp: sure_ops_def row_ops_def others_same_def released_def drop_tx_def split: option.splits if_splits sum.splits)

lemma sure_reliable: "reliable sure_ops"
  by (simp add: reliable_def sure_ops_def)

subsection \<open>Properties\<close>

text \<open>
  C9. What the program prints. Connected to a server that keeps its contract and lists its seats and users in full, \<open>main\<close>
  always has an outcome; whenever it does not end in a panic, it first prints the seats as they were, and then
  the seats as some of the users, served one after the other in some order, leave them; on a server that never fails these
  are all the users.
\<close>

theorem airline_main_prints:
  assumes "tx_server ops view" and "distinct (map fst S0)" and "0 \<notin> fst ` set S0"
    and "v_seats (view d) = S0" and "v_lock (view d) = (\<lambda>_. None)" and "v_pending (view d) = (\<lambda>_. None)"
    and "\<And>e. seats_of e = (None, Inr (map (seat_row label) (v_seats (view e))))" and "users_of d = (True, Inr (map user_row us))"
  shows "(\<exists>r. airline_main ops scan_err seats_of users_of (Inr d) r) \<and>
    (\<forall>before after. airline_main ops scan_err seats_of users_of (Inr d) (Inr (before, after)) \<longrightarrow>
       before = seat_table 0 S0 \<and>
       (\<exists>order. distinct order \<and> set order \<subseteq> {..<length us} \<and> (reliable ops \<longrightarrow> set order = {..<length us}) \<and>
          after = seat_table 0 (foldl (reserve (map snd us)) S0 order)))"
proof -
  have b: "air_booking ops view S0" using assms(1-3) by (simp add: air_booking_def air_booking_axioms_def)
  let ?s = "\<lparr>air_db = d, air_names = map snd us, air_pcs = replicate (length us) AStart, air_panic = None\<rparr>"
  have start: "makeBooking (fst (users_of d)) (snd (users_of d)) d = Some ?s" by (simp add: assms(8) makeBooking_users)
  have init: "booking_init view S0 (map snd us) ?s" using assms(4-6) by (simp add: booking_init_def)
  have conn: "air_connectToDb (Inr d) = Inr d" by (simp add: air_connectToDb_def)
  obtain t where t: "(air_step ops)\<^sup>*\<^sup>* ?s t" "air_final t"
    using live_system.reaches_final [OF air_booking.air_live [OF b] init] by blast
  have "\<exists>r. airline_main ops scan_err seats_of users_of (Inr d) r"
  proof (cases "air_panic t")
    case None
    then show ?thesis using airline_main.booked [of "Inr d" d users_of ?s ops t scan_err seats_of, OF conn start t] by blast
  next
    case (Some p)
    then show ?thesis using airline_main.panicked [of "Inr d" d users_of ?s ops t p, OF conn start t(1)] by blast
  qed
  moreover have "before = seat_table 0 S0 \<and>
      (\<exists>order. distinct order \<and> set order \<subseteq> {..<length us} \<and> (reliable ops \<longrightarrow> set order = {..<length us}) \<and>
         after = seat_table 0 (foldl (reserve (map snd us)) S0 order))"
    if r: "airline_main ops scan_err seats_of users_of (Inr d) (Inr (before, after))" for before after
    using r
  proof (cases rule: airline_main.cases)
    case (booked d' s t)
    then have "d' = d" "s = ?s" using conn start by simp_all
    with booked obtain order where o: "serial_run S0 (map snd us) (air_pcs t) order (v_seats (view (air_db t)))"
      "\<forall>i < length (air_pcs t). \<forall>r. air_pcs t ! i = ADone r True \<longrightarrow> i \<in> set order"
      using air_booking.serial_order [OF b init] by blast
    have len: "length (air_pcs t) = length us"
      using air_booking.seats_safe [OF b init] booked(5) \<open>s = ?s\<close> by (fastforce simp: seats_inv_def)
    with o(1) have order: "distinct order \<and> set order \<subseteq> {..<length us} \<and> v_seats (view (air_db t)) = foldl (reserve (map snd us)) S0 order"
      by (auto simp: serial_run_def in_set_conv_nth)
    have "i \<in> set order" if rel: "reliable ops" and il: "i < length us" for i
    proof -
      have "list_all air_ended (air_pcs t)" using booked(6,7) by (simp add: air_final_def)
      moreover have "list_all on_track (air_pcs ?s)" by (simp add: list_all_iff)
      moreover have "(air_step ops)\<^sup>*\<^sup>* ?s t" using booked(5) \<open>s = ?s\<close> by simp
      moreover have "i < length (air_pcs t)" using il len by simp
      ultimately obtain r where "air_pcs t ! i = ADone r True"
        using tx_server.all_committed [OF assms(1) rel] by blast
      with o(2) \<open>i < length (air_pcs t)\<close> show ?thesis by blast
    qed
    then have served: "reliable ops \<longrightarrow> set order = {..<length us}" using order by blast
    have "before = seat_table 0 S0" using booked(1,4) \<open>d' = d\<close> conn by (simp add: assms(4,7) printSeats_table)
    moreover have "after = seat_table 0 (v_seats (view (air_db t)))" using booked(2) by (simp add: assms(7) printSeats_table)
    ultimately show ?thesis using order served by metis
  qed (use conn start in auto)
  ultimately show ?thesis by blast
qed

theorem airline_main_prints_witness:
  "\<exists>r. airline_main sure_ops [] (\<lambda>e. (None, Inr (map (seat_row (\<lambda>_. ''A'')) (v_seats e)))) (\<lambda>_. (True, Inr (map user_row [(1, ''amy'')])))
      (Inr \<lparr>v_seats = three_seats, v_lock = Map.empty, v_pending = Map.empty\<rparr>) r \<and>
    (\<forall>before after. r = Inr (before, after) \<longrightarrow>
       before = seat_table 0 three_seats \<and> after = seat_table 0 [(1, Some ''zoe''), (2, Some ''amy''), (3, None)])"
proof -
  have one: "order = [0]" if "distinct order" "set order = {..<Suc 0}" for order :: "nat list"
  proof -
    have "length order = Suc 0" using distinct_card [OF that(1)] that(2) by simp
    then obtain x where "order = [x]" by (auto simp: length_Suc_conv)
    with that(2) have "x \<in> {..<Suc 0}" by auto
    with \<open>order = [x]\<close> show ?thesis by simp
  qed
  have two: "foldl (reserve [''amy'']) three_seats [0] = [(1, Some ''zoe''), (2, Some ''amy''), (3, None)]"
    by (simp add: reserve_def first_free_def free_ids_def three_seats_def take_seat_def)
  let ?d = "\<lparr>v_seats = three_seats, v_lock = Map.empty, v_pending = Map.empty\<rparr>"
  let ?run = "airline_main sure_ops [] (\<lambda>e. (None, Inr (map (seat_row (\<lambda>_. ''A'')) (v_seats e)))) (\<lambda>_. (True, Inr (map user_row [(1, ''amy'')]))) (Inr ?d)"
  have main: "(\<exists>r. ?run r) \<and> (\<forall>before after. ?run (Inr (before, after)) \<longrightarrow> before = seat_table 0 three_seats \<and>
      (\<exists>order. distinct order \<and> set order \<subseteq> {..<length [(1 :: int, ''amy'')]} \<and> (reliable sure_ops \<longrightarrow> set order = {..<length [(1 :: int, ''amy'')]}) \<and>
        after = seat_table 0 (foldl (reserve (map snd [(1 :: int, ''amy'')])) three_seats order)))"
    by (rule airline_main_prints [where label = "\<lambda>_. ''A''", OF sure.tx_server_axioms row_booking.seat_ids]) simp_all
  then obtain r where r: "?run r" by blast
  have "before = seat_table 0 three_seats \<and> after = seat_table 0 [(1, Some ''zoe''), (2, Some ''amy''), (3, None)]"
    if "r = Inr (before, after)" for before after
  proof -
    from main r that obtain order where "before = seat_table 0 three_seats" "distinct order" "set order = {..<Suc 0}"
      "after = seat_table 0 (foldl (reserve [''amy'']) three_seats order)" using sure_reliable by auto
    with one [of order] two show ?thesis by metis
  qed
  with r show ?thesis by blast
qed

end
