(* ===== verification/Balancer_System.thy ===== *)
theory Balancer_System
  imports Load_Balancer
begin

text \<open>
  The whole of \<open>LoadBalancer/main.go\<close> with any number of clients at once: the requests of
  \<open>lb_step\<close>, each of which dials the server it has picked and then relays in two goroutines of its
  own. Connections share the balancer and the process: a fatal exit of one ends them all. A refused
  connection first gets its error page (as much of it as its socket takes); the other
  goroutines may still run before the exit that follows.
\<close>

datatype bs_conn = NotDialled | Refused string string string | Relaying relay_sys

record bs_sys =
  bs_lb :: lb_sys
  bs_conns :: "bs_conn list"
  bs_exit :: "panic option"

definition server_addr :: "LB \<Rightarrow> int \<Rightarrow> string" where
  "server_addr lb b = (case go_index (Servers lb) b of Inl p \<Rightarrow> [] | Inr s \<Rightarrow> Host s @ '':'' @ Port s)"

fun conn_alive :: "bs_conn \<Rightarrow> bool" where
  "conn_alive (Relaying conn) = (dead conn = None)"
| "conn_alive NotDialled = True"
| "conn_alive (Refused page addr err) = True"

definition bs_alive :: "bs_sys \<Rightarrow> bool" where
  "bs_alive s \<longleftrightarrow> bs_exit s = None \<and> list_all conn_alive (bs_conns s)"

text \<open>
  \<open>client i\<close> is what client \<open>i\<close> sends, \<open>answer i a\<close> what the server at \<open>a\<close> sends back to it and \<open>dial i a\<close>
  whether that server can be reached for it.
\<close>

inductive bs_step ::
    "(nat \<Rightarrow> string list \<times> stream_end) \<Rightarrow> (nat \<Rightarrow> string \<Rightarrow> string list \<times> stream_end) \<Rightarrow> (nat \<Rightarrow> string \<Rightarrow> string option) \<Rightarrow>
     bs_sys \<Rightarrow> bs_sys \<Rightarrow> bool" for client answer dial where
  bs_request: "bs_alive s \<Longrightarrow> lb_step (bs_lb s) lb \<Longrightarrow>
    bs_step client answer dial s
      (s\<lparr>bs_lb := lb, bs_conns := bs_conns s @ replicate (length (lb_reqs lb) - length (lb_reqs (bs_lb s))) NotDialled\<rparr>)"
| bs_accept_error: "bs_alive s \<Longrightarrow>
    bs_step client answer dial s
      (s\<lparr>bs_exit := Some (FatalExit (''err while accepting connectiong on port 7878 => '' @ err))\<rparr>)"
| bs_dial: "bs_alive s \<Longrightarrow> i < length (bs_conns s) \<Longrightarrow> lb_reqs (bs_lb s) ! i = Picked c b \<Longrightarrow> bs_conns s ! i = NotDialled \<Longrightarrow>
    addr = server_addr (balancer (bs_lb s)) b \<Longrightarrow> dial i addr = None \<Longrightarrow>
    bs_step client answer dial s (s\<lparr>bs_conns := (bs_conns s)[i := Relaying (relay_init (client i) (answer i addr))]\<rparr>)"
| bs_dial_error: "bs_alive s \<Longrightarrow> i < length (bs_conns s) \<Longrightarrow> lb_reqs (bs_lb s) ! i = Picked c b \<Longrightarrow> bs_conns s ! i = NotDialled \<Longrightarrow>
    addr = server_addr (balancer (bs_lb s)) b \<Longrightarrow> dial i addr = Some err \<Longrightarrow>
    bs_step client answer dial s (s\<lparr>bs_conns := (bs_conns s)[i := Refused (take n unavailable) addr err]\<rparr>)"
| bs_dial_fatal: "bs_alive s \<Longrightarrow> i < length (bs_conns s) \<Longrightarrow> bs_conns s ! i = Refused page addr err \<Longrightarrow>
    bs_step client answer dial s
      (s\<lparr>bs_exit := Some (FatalExit (''err while dailing on host:port '' @ addr @ '' => '' @ err))\<rparr>)"
| bs_relay: "bs_alive s \<Longrightarrow> i < length (bs_conns s) \<Longrightarrow> bs_conns s ! i = Relaying conn \<Longrightarrow> relay_step conn conn' \<Longrightarrow>
    bs_step client answer dial s (s\<lparr>bs_conns := (bs_conns s)[i := Relaying conn']\<rparr>)"

definition bs_init :: bs_sys where
  "bs_init = \<lparr>bs_lb = lb_init, bs_conns = [], bs_exit = None\<rparr>"

text \<open>\<open>main\<close>: \<open>listen\<close> is the error of \<open>net.Listen\<close>, if there is one.\<close>

definition lb_main :: "string option \<Rightarrow> bs_sys go" where
  "lb_main listen = (case listen of
     Some err \<Rightarrow> Inl (FatalExit (''err while listening on port 7878 => '' @ err))
   | None \<Rightarrow> Inr bs_init)"

subsection \<open>The parts of a run\<close>

lemma lb_step_addrs:
  assumes "lb_step s t"
  shows "map (\<lambda>b. (Host b, Port b)) (Servers (balancer t)) = map (\<lambda>b. (Host b, Port b)) (Servers (balancer s))"
  using assms
proof cases
  case (store_total i c v b servers)
  then have "servers = (Servers (balancer s))[nat c := b\<lparr>Total := wrap64 (v + 1)\<rparr>]" "b = Servers (balancer s) ! nat c"
      "nat c < length (Servers (balancer s))"
    by (auto simp: go_update_Inr_conv go_index_Inr_conv)
  with store_total(1) show ?thesis by (auto simp: map_update intro!: list_update_same_conv [THEN iffD2])
qed simp_all

lemma lb_run_addrs:
  "lb_step\<^sup>*\<^sup>* lb_init s \<Longrightarrow> map (\<lambda>b. (Host b, Port b)) (Servers (balancer s)) = [(''localhost'', ''8000''), (''localhost'', ''9000'')]"
proof (induction rule: rtranclp_induct)
  case base
  show ?case by (simp add: lb_init_def NewLB_def)
qed (use lb_step_addrs in metis)

text \<open>The two servers of \<open>NewLB\<close> by number.\<close>

definition backend_addr :: "int \<Rightarrow> string" where
  "backend_addr b = (if b = 0 then ''localhost:8000'' else ''localhost:9000'')"

lemma lb_run_two: "lb_step\<^sup>*\<^sup>* lb_init s \<Longrightarrow> length (Servers (balancer s)) = 2"
  using arg_cong [OF lb_run_addrs, of s length] by simp

lemma picked_server:
  assumes "lb_step\<^sup>*\<^sup>* lb_init s" and "i < length (lb_reqs s)" and "lb_reqs s ! i = Picked c b"
  shows "b = 0 \<or> b = 1"
proof -
  have "lb_range_inv s" using lb.reachable_inv [OF refl assms(1)] by (simp add: lb_inv_def)
  from lb_range_index [OF this assms(2), of b] show ?thesis unfolding lb_run_two [OF assms(1)] assms(3) by auto
qed

lemma server_addr_run:
  assumes "lb_step\<^sup>*\<^sup>* lb_init s" and "i < length (lb_reqs s)" and "lb_reqs s ! i = Picked c b"
  shows "server_addr (balancer s) b = backend_addr b"
proof -
  note addrs = lb_run_addrs [OF assms(1)] and two = lb_run_two [OF assms(1)]
  have "Host (Servers (balancer s) ! 0) = ''localhost'' \<and> Port (Servers (balancer s) ! 0) = ''8000''"
    "Host (Servers (balancer s) ! 1) = ''localhost'' \<and> Port (Servers (balancer s) ! 1) = ''9000''"
    using arg_cong [OF addrs, of "\<lambda>xs. xs ! 0"] arg_cong [OF addrs, of "\<lambda>xs. xs ! 1"] by (simp_all add: two)
  with picked_server [OF assms] show ?thesis by (auto simp: server_addr_def backend_addr_def go_index_def two)
qed

lemma picked_stays: "lb_step s t \<Longrightarrow> i < length (lb_reqs s) \<Longrightarrow> lb_reqs s ! i = Picked c b \<Longrightarrow> lb_reqs t ! i = Picked c b"
  by (erule lb_step.cases) (auto simp: nth_list_update nth_append)

text \<open>What connection \<open>i\<close> is: not dialled yet, a dial that failed, or a relay that has run from its start.\<close>

fun conn_ok ::
    "(nat \<Rightarrow> string list \<times> stream_end) \<Rightarrow> (nat \<Rightarrow> string \<Rightarrow> string list \<times> stream_end) \<Rightarrow> (nat \<Rightarrow> string \<Rightarrow> string option) \<Rightarrow>
     nat \<Rightarrow> lb_pc \<Rightarrow> bs_conn \<Rightarrow> bool" where
  "conn_ok client answer dial i pc NotDialled = True"
| "conn_ok client answer dial i pc (Refused page addr err) =
     (\<exists>c b n. pc = Picked c b \<and> addr = backend_addr b \<and> dial i addr = Some err \<and> page = take n unavailable)"
| "conn_ok client answer dial i pc (Relaying conn) =
     (\<exists>c b. pc = Picked c b \<and> dial i (backend_addr b) = None \<and>
        relay_step\<^sup>*\<^sup>* (relay_init (client i) (answer i (backend_addr b))) conn)"

definition exit_ok :: "bs_conn list \<Rightarrow> panic \<Rightarrow> bool" where
  "exit_ok conns p \<longleftrightarrow>
     (\<exists>err. p = FatalExit (''err while accepting connectiong on port 7878 => '' @ err)) \<or>
     (\<exists>i < length conns. \<exists>page addr err. conns ! i = Refused page addr err \<and>
        p = FatalExit (''err while dailing on host:port '' @ addr @ '' => '' @ err))"

definition bs_inv ::
    "(nat \<Rightarrow> string list \<times> stream_end) \<Rightarrow> (nat \<Rightarrow> string \<Rightarrow> string list \<times> stream_end) \<Rightarrow> (nat \<Rightarrow> string \<Rightarrow> string option) \<Rightarrow>
     bs_sys \<Rightarrow> bool" where
  "bs_inv client answer dial s \<longleftrightarrow>
     lb_step\<^sup>*\<^sup>* lb_init (bs_lb s) \<and> length (bs_conns s) = length (lb_reqs (bs_lb s)) \<and>
     (\<forall>i < length (bs_conns s). conn_ok client answer dial i (lb_reqs (bs_lb s) ! i) (bs_conns s ! i)) \<and>
     (\<forall>p. bs_exit s = Some p \<longrightarrow> exit_ok (bs_conns s) p)"

lemma conn_ok_pc:
  "conn_ok client answer dial i pc conn \<Longrightarrow> (\<And>c b. pc = Picked c b \<Longrightarrow> pc' = pc) \<Longrightarrow> conn_ok client answer dial i pc' conn"
  by (cases conn) auto

lemma bs_step_inv:
  assumes "bs_inv client answer dial s" and "bs_step client answer dial s t"
  shows "bs_inv client answer dial t"
proof -
  have run: "lb_step\<^sup>*\<^sup>* lb_init (bs_lb s)" and len: "length (bs_conns s) = length (lb_reqs (bs_lb s))"
    and conns: "\<And>i. i < length (bs_conns s) \<Longrightarrow> conn_ok client answer dial i (lb_reqs (bs_lb s) ! i) (bs_conns s ! i)"
    using assms(1) by (simp_all add: bs_inv_def)
  have alive: "bs_exit s = None" using assms(2) by cases (simp_all add: bs_alive_def)
  have keep: "bs_inv client answer dial (s\<lparr>bs_conns := (bs_conns s)[i := conn]\<rparr>)"
    if "conn_ok client answer dial i (lb_reqs (bs_lb s) ! i) conn" for i conn
  proof -
    have "conn_ok client answer dial j (lb_reqs (bs_lb s) ! j) ((bs_conns s)[i := conn] ! j)" if "j < length (bs_conns s)" for j
      using \<open>conn_ok client answer dial i _ conn\<close> conns [OF that] that by (cases "j = i") simp_all
    with run len alive show ?thesis by (simp add: bs_inv_def)
  qed
  have die: "bs_inv client answer dial (s\<lparr>bs_exit := Some p\<rparr>)" if "exit_ok (bs_conns s) p" for p
    using run len conns that by (simp add: bs_inv_def)
  from assms(2) show ?thesis
  proof cases
    case (bs_request lb)
    have "conn_ok client answer dial i (lb_reqs lb ! i) (bs_conns t ! i)" if "i < length (bs_conns t)" for i
    proof (cases "i < length (bs_conns s)")
      case True
      with bs_request(1) have "bs_conns t ! i = bs_conns s ! i" by (simp add: nth_append)
      with conn_ok_pc [OF conns [OF True], of "lb_reqs lb ! i"] picked_stays [OF bs_request(3), of i] True len show ?thesis by auto
    next
      case False
      with that bs_request(1) show ?thesis by (simp add: nth_append)
    qed
    then show ?thesis using bs_request run len alive lb_step_length [OF bs_request(3)]
      by (auto simp: bs_inv_def intro: rtranclp.rtrancl_into_rtrancl)
  next
    case (bs_accept_error err)
    show ?thesis unfolding bs_accept_error(1) by (rule die) (simp add: exit_ok_def)
  next
    case (bs_dial i c b addr)
    have "conn_ok client answer dial i (lb_reqs (bs_lb s) ! i) (Relaying (relay_init (client i) (answer i addr)))"
      using bs_dial(4,6,7) server_addr_run [OF run _ bs_dial(4)] bs_dial(3) len by simp
    from keep [OF this] show ?thesis by (simp add: bs_dial(1))
  next
    case (bs_dial_error i c b addr err n)
    have "conn_ok client answer dial i (lb_reqs (bs_lb s) ! i) (Refused (take n unavailable) addr err)"
      using bs_dial_error(4,6,7) server_addr_run [OF run _ bs_dial_error(4)] bs_dial_error(3) len by auto
    from keep [OF this] show ?thesis by (simp add: bs_dial_error(1))
  next
    case (bs_dial_fatal i page addr err)
    show ?thesis unfolding bs_dial_fatal(1) by (rule die) (use bs_dial_fatal(3,4) in \<open>auto simp: exit_ok_def\<close>)
  next
    case (bs_relay i conn conn')
    have "conn_ok client answer dial i (lb_reqs (bs_lb s) ! i) (Relaying conn')"
      using conns [OF bs_relay(3)] bs_relay(4,5) by (auto intro: rtranclp.rtrancl_into_rtrancl)
    from keep [OF this] show ?thesis by (simp add: bs_relay(1))
  qed
qed

lemma bs_init_inv: "bs_inv client answer dial bs_init"
  by (simp add: bs_inv_def bs_init_def lb_init_def)

interpretation bs: invariant_system "\<lambda>s. s = bs_init" "bs_step client answer dial" "bs_inv client answer dial"
  for client answer dial
  by unfold_locales (auto intro: bs_init_inv bs_step_inv)

lemma bs_dead_stops: "\<not> bs_alive s \<Longrightarrow> \<not> bs_step client answer dial s t"
  by (auto elim: bs_step.cases)

lemma relay_sent_prefix:
  "relay_step\<^sup>*\<^sup>* (relay_init client backend) conn \<Longrightarrow>
    (\<exists>rest. concat (fst client) = to_backend conn @ rest) \<and> (dead conn \<noteq> None \<longrightarrow> failing (up conn) \<or> failing (down conn))"
  using relay.run_inv [OF _ relay_init_inv, of client backend conn] copied_prefix [of "concat (fst client)" "up conn" "to_backend conn"]
  unfolding relay_inv_def by blast

text \<open>What one connection of a reachable state has passed on.\<close>

lemma relaying_ok:
  assumes "bs_inv client answer dial s" and i: "i < length (bs_conns s)" "bs_conns s ! i = Relaying conn"
  shows "\<exists>c b. lb_reqs (bs_lb s) ! i = Picked c b \<and> (b = 0 \<or> b = 1) \<and>
    (\<exists>rest. concat (fst (client i)) = to_backend conn @ rest) \<and>
    (bs_alive s \<and> (\<nexists>conn'. relay_step conn conn') \<longrightarrow>
      to_backend conn = concat (fst (client i)) \<and> to_client conn = concat (fst (answer i (backend_addr b))))"
proof -
  have run: "lb_step\<^sup>*\<^sup>* lb_init (bs_lb s)" and len: "length (bs_conns s) = length (lb_reqs (bs_lb s))"
    and ok: "conn_ok client answer dial i (lb_reqs (bs_lb s) ! i) (bs_conns s ! i)"
    using assms(1) i(1) by (simp_all add: bs_inv_def)
  obtain c b where pc: "lb_reqs (bs_lb s) ! i = Picked c b"
    and conn: "relay_step\<^sup>*\<^sup>* (relay_init (client i) (answer i (backend_addr b))) conn"
    using ok by (auto simp: i(2))
  have "bs_alive s \<Longrightarrow> dead conn = None" using i by (fastforce simp: bs_alive_def list_all_length)
  with pc conn picked_server [OF run _ pc] len i(1) relay_sent_prefix [OF conn] relay_run_end [OF conn] show ?thesis by auto
qed

lemma bs_dead_cause:
  assumes "bs_inv client answer dial s" and "\<not> bs_alive s"
  shows "(\<exists>err. bs_exit s = Some (FatalExit (''err while accepting connectiong on port 7878 => '' @ err))) \<or>
    (\<exists>i < length (bs_conns s). \<exists>c b n err. bs_conns s ! i = Refused (take n unavailable) (backend_addr b) err \<and>
      lb_reqs (bs_lb s) ! i = Picked c b \<and> dial i (backend_addr b) = Some err) \<or>
    (\<exists>i < length (bs_conns s). \<exists>conn. bs_conns s ! i = Relaying conn \<and> (failing (up conn) \<or> failing (down conn)))"
proof (cases "bs_exit s")
  case None
  with assms(2) obtain i where i: "i < length (bs_conns s)" "\<not> conn_alive (bs_conns s ! i)"
    by (auto simp: bs_alive_def list_all_length)
  then obtain conn where conn: "bs_conns s ! i = Relaying conn" "dead conn \<noteq> None"
    using conn_alive.elims(3) by metis
  have "conn_ok client answer dial i (lb_reqs (bs_lb s) ! i) (Relaying conn)" using assms(1) i(1) conn(1) by (auto simp: bs_inv_def)
  then obtain a where "relay_step\<^sup>*\<^sup>* (relay_init (client i) a) conn" unfolding conn_ok.simps by blast
  from relay_sent_prefix [OF this] have "failing (up conn) \<or> failing (down conn)" using conn(2) by blast
  with i(1) conn(1) show ?thesis by blast
next
  case (Some p)
  then have "exit_ok (bs_conns s) p" using assms(1) by (simp add: bs_inv_def)
  then show ?thesis unfolding exit_ok_def
  proof
    assume "\<exists>i < length (bs_conns s). \<exists>page addr err. bs_conns s ! i = Refused page addr err \<and>
        p = FatalExit (''err while dailing on host:port '' @ addr @ '' => '' @ err)"
    then obtain i page addr err where i: "i < length (bs_conns s)" "bs_conns s ! i = Refused page addr err" by blast
    have "conn_ok client answer dial i (lb_reqs (bs_lb s) ! i) (Refused page addr err)" using assms(1) i by (auto simp: bs_inv_def)
    then obtain c b n where "lb_reqs (bs_lb s) ! i = Picked c b" "dial i (backend_addr b) = Some err"
      "page = take n unavailable" "addr = backend_addr b" by auto
    with i show ?thesis by blast
  qed (use Some in blast)
qed

subsection \<open>Properties\<close>

text \<open>
  C14. The balancer with any number of clients at once. Every relayed connection goes to one of the two servers, and
  what that server has been sent is a prefix of what the client sent; a connection that has nothing left to do, in
  a process that is alive, has given each side exactly the bytes of the other. The process dies only of an accept
  that fails, a server that cannot be dialled or a copy that fails, and then nothing moves any more, for any
  client. The totals count every request that got through the critical section (up to \<open>2^63\<close> requests).
\<close>

theorem balancer_serves:
  assumes "(bs_step client answer dial)\<^sup>*\<^sup>* bs_init s"
  shows "(\<forall>i conn. i < length (bs_conns s) \<and> bs_conns s ! i = Relaying conn \<longrightarrow>
      (\<exists>c b. lb_reqs (bs_lb s) ! i = Picked c b \<and> (b = 0 \<or> b = 1) \<and>
        (\<exists>rest. concat (fst (client i)) = to_backend conn @ rest) \<and>
        (bs_alive s \<and> (\<nexists>conn'. relay_step conn conn') \<longrightarrow>
          to_backend conn = concat (fst (client i)) \<and> to_client conn = concat (fst (answer i (backend_addr b)))))) \<and>
    (\<not> bs_alive s \<longrightarrow> (\<nexists>t. bs_step client answer dial s t) \<and>
      ((\<exists>err. bs_exit s = Some (FatalExit (''err while accepting connectiong on port 7878 => '' @ err))) \<or>
       (\<exists>i < length (bs_conns s). \<exists>c b n err. bs_conns s ! i = Refused (take n unavailable) (backend_addr b) err \<and>
      lb_reqs (bs_lb s) ! i = Picked c b \<and> dial i (backend_addr b) = Some err) \<or>
       (\<exists>i < length (bs_conns s). \<exists>conn. bs_conns s ! i = Relaying conn \<and> (failing (up conn) \<or> failing (down conn))))) \<and>
    (int (length (lb_reqs (bs_lb s))) < 2 ^ 63 \<longrightarrow>
      lb_total_sum (balancer (bs_lb s)) = int (tally lb_counted (lb_reqs (bs_lb s))))"
proof -
  have inv: "bs_inv client answer dial s" by (rule bs.reachable_inv [OF refl assms])
  have "lb_inv (bs_lb s)" by (rule lb.reachable_inv [OF refl]) (use inv in \<open>simp add: bs_inv_def\<close>)
  then have "int (length (lb_reqs (bs_lb s))) < 2 ^ 63 \<longrightarrow>
      lb_total_sum (balancer (bs_lb s)) = int (tally lb_counted (lb_reqs (bs_lb s)))"
    by (simp add: lb_inv_def lb_sum_inv_def)
  with relaying_ok [OF inv] bs_dead_cause [OF inv] bs_dead_stops [of s client answer dial] show ?thesis by blast
qed

text \<open>
  A run of the requests is a run of the whole system in which nothing has been dialled yet.
\<close>

lemma bs_requests_run:
  assumes "lb_step\<^sup>*\<^sup>* lb_init lb"
  shows "(bs_step client answer dial)\<^sup>*\<^sup>* bs_init \<lparr>bs_lb = lb, bs_conns = replicate (length (lb_reqs lb)) NotDialled, bs_exit = None\<rparr>"
  using assms
proof (induction rule: rtranclp_induct)
  case base
  show ?case by (simp add: bs_init_def lb_init_def)
next
  case (step lb1 lb2)
  let ?s = "\<lambda>lb. \<lparr>bs_lb = lb, bs_conns = replicate (length (lb_reqs lb)) NotDialled, bs_exit = None\<rparr>"
  have "bs_alive (?s lb1)" by (simp add: bs_alive_def list_all_length)
  from bs_request [OF this, of lb2 client answer dial] step(2) lb_step_length [OF step(2)]
  have "bs_step client answer dial (?s lb1) (?s lb2)" by (simp add: replicate_add [symmetric])
  with step.IH show ?case by (rule rtranclp.rtrancl_into_rtrancl)
qed

text \<open>Two clients; the first one is connected to the second server, which gets its request.\<close>

theorem balancer_serves_witness:
  "\<exists>s conn. (bs_step (\<lambda>i. ([''GET /''], EndOfStream)) (\<lambda>i a. ([a], EndOfStream)) (\<lambda>i a. None))\<^sup>*\<^sup>* bs_init s \<and>
    bs_conns s ! 0 = Relaying conn \<and> to_backend conn = ''GET /'' \<and> bs_alive s \<and>
    lb_total_sum (balancer (bs_lb s)) = 1"
proof -
  let ?step = "bs_step (\<lambda>i. ([''GET /''], EndOfStream)) (\<lambda>i a. ([a], EndOfStream)) (\<lambda>i a. None)"
  let ?lb = "lb_at 1 0 1 None [Picked 0 1, LStored]"
  let ?r = "relay_init ([''GET /''], EndOfStream) ([''localhost:9000''], EndOfStream)"
  let ?r' = "?r\<lparr>up := (up ?r)\<lparr>cp_todo := []\<rparr>, to_backend := ''GET /''\<rparr>"
  let ?s = "\<lambda>c. \<lparr>bs_lb = ?lb, bs_conns = [c, NotDialled], bs_exit = None\<rparr>"
  have 0: "?step\<^sup>*\<^sup>* bs_init (?s NotDialled)"
    using bs_requests_run [OF lb_race_run] by (simp add: lb_at_def)
  have addr: "server_addr (balancer ?lb) 1 = ''localhost:9000''" by (simp add: lb_at_def server_addr_def go_index_def)
  have 1: "?step (?s NotDialled) (?s (Relaying ?r))"
    using bs_dial [of "?s NotDialled" 0 0 1 "''localhost:9000''" "\<lambda>i a. None" "\<lambda>i. ([''GET /''], EndOfStream)" "\<lambda>i a. ([a], EndOfStream)"]
    by (simp add: addr bs_alive_def) (simp add: lb_at_def)
  have alive: "bs_alive (?s (Relaying ?r))" by (simp add: bs_alive_def relay_init_def)
  have "copier_step (up ?r) ''GET /'' ((up ?r)\<lparr>cp_todo := []\<rparr>)" by (rule chunk) (simp_all add: relay_init_def)
  from copy_up [OF _ this] have "relay_step ?r ?r'" by (simp add: relay_init_def)
  from bs_relay [OF alive _ _ this, of 0 "\<lambda>i. ([''GET /''], EndOfStream)" "\<lambda>i a. ([a], EndOfStream)" "\<lambda>i a. None"]
  have 2: "?step (?s (Relaying ?r)) (?s (Relaying ?r'))" by simp
  have run: "?step\<^sup>*\<^sup>* bs_init (?s (Relaying ?r'))" using 0 1 2 by (meson rtranclp.rtrancl_into_rtrancl)
  have "lb_total_sum (balancer ?lb) = 1" using balancer_serves [OF run] by (simp add: lb_at_def)
  moreover have "bs_alive (?s (Relaying ?r'))" by (simp add: bs_alive_def relay_init_def)
  ultimately show ?thesis using run by (intro exI [of _ "?s (Relaying ?r')"] exI [of _ ?r']) simp
qed

end
