(* ===== verification/Indicator_System.thy ===== *)
theory Indicator_System
  imports Online_Indicator Go_Runs
begin

text \<open>
  The heartbeats and status pages of \<open>online_offline_indicator/main.go\<close> as a concurrent program: the socket
  library and \<open>net/http\<close> run every handler in a goroutine of its own, and they meet in the
  database, one statement at a time. The specification of the table is a map from users to
  the time of their last heartbeat.
\<close>

subsection \<open>The goroutines\<close>

text \<open>A heartbeat event with its clock and connection id; a request for the page, whether the client takes the answer, and the clock.\<close>

datatype oi_request = Beat time string | Page bool time

text \<open>The event handler answers nothing; it prints the error, if there is one.\<close>

datatype oi_pc = OiStart | OiPrepared | OiPrinted "string option" | OiAnswered response

fun oi_next :: "'db oi_run \<Rightarrow> oi_request \<Rightarrow> oi_pc \<Rightarrow> 'db \<Rightarrow> (oi_pc \<times> 'db) option" where
  "oi_next run (Beat t uid) OiStart d =
     (case run OiPrepare d of
        (Inl err, d1) \<Rightarrow> Some (OiPrinted (Some err), d1)
      | (Inr r, d1) \<Rightarrow> Some (OiPrepared, d1))"
| "oi_next run (Beat t uid) OiPrepared d =
     (case run (OiUpsert uid t t) d of
        (Inl err, d1) \<Rightarrow> Some (OiPrinted (Some err), d1)
      | (Inr r, d1) \<Rightarrow> Some (OiPrinted None, d1))"
| "oi_next run (Page up now) OiStart d =
     (case fetchOnlineOfflineStatus run up now d of (w, d1) \<Rightarrow> Some (OiAnswered w, d1))"
| "oi_next run req pc d = None"

record 'db oi_sys =
  oi_db :: 'db
  oi_reqs :: "(oi_request \<times> oi_pc) list"

inductive oi_step :: "'db oi_run \<Rightarrow> 'db oi_sys \<Rightarrow> 'db oi_sys \<Rightarrow> bool" for run where
  oi_stmt: "i < length (oi_reqs s) \<Longrightarrow> oi_reqs s ! i = (req, pc) \<Longrightarrow> oi_next run req pc (oi_db s) = Some (pc', d) \<Longrightarrow>
    oi_step run s \<lparr>oi_db = d, oi_reqs = (oi_reqs s)[i := (req, pc')]\<rparr>"

definition oi_init :: "'db \<Rightarrow> oi_request list \<Rightarrow> 'db oi_sys" where
  "oi_init d reqs = \<lparr>oi_db = d, oi_reqs = map (\<lambda>req. (req, OiStart)) reqs\<rparr>"

text \<open>A goroutine that runs alone does what its handler does.\<close>

lemma beat_alone:
  "(case oi_next run (Beat t uid) OiStart d of
      Some (OiPrepared, d1) \<Rightarrow> map_option snd (oi_next run (Beat t uid) OiPrepared d1)
    | r \<Rightarrow> map_option snd r) = Some (hearbeat_event run t uid d)"
  by (auto simp: hearbeat_event_def split: prod.splits sum.splits)

lemma beat_http:
  "uid \<noteq> [] \<Longrightarrow> snd (handleHearBeat run up t uid d) = hearbeat_event run t uid d"
  by (auto simp: handleHearBeat_def hearbeat_event_def split: prod.splits sum.splits)

subsection \<open>Every run ends\<close>

fun stmts_left :: "oi_request \<times> oi_pc \<Rightarrow> nat" where
  "stmts_left (Beat t uid, OiStart) = 2"
| "stmts_left (Beat t uid, OiPrepared) = 1"
| "stmts_left (Page up now, OiStart) = 1"
| "stmts_left rp = 0"

fun at_home :: "oi_request \<times> oi_pc \<Rightarrow> bool" where
  "at_home (Beat t uid, pc) = (\<forall>w. pc \<noteq> OiAnswered w)"
| "at_home (Page up now, pc) = (pc = OiStart \<or> (\<exists>w. pc = OiAnswered w))"

fun over :: "oi_request \<times> oi_pc \<Rightarrow> bool" where
  "over (req, OiPrinted e) = True"
| "over (req, OiAnswered w) = True"
| "over rp = False"

lemma oi_next_home: "oi_next run req pc d = Some (pc', d') \<Longrightarrow> at_home (req, pc')"
  by (cases "(run, req, pc, d)" rule: oi_next.cases) (auto split: prod.splits sum.splits)

lemma oi_next_left: "oi_next run req pc d = Some (pc', d') \<Longrightarrow> stmts_left (req, pc') < stmts_left (req, pc)"
  by (cases "(run, req, pc, d)" rule: oi_next.cases) (auto split: prod.splits sum.splits)

lemma oi_next_total: "at_home (req, pc) \<Longrightarrow> \<not> over (req, pc) \<Longrightarrow> \<exists>pc' d'. oi_next run req pc d = Some (pc', d')"
  by (cases "(run, req, pc, d)" rule: oi_next.cases) (auto split: prod.splits sum.splits)

lemma oi_next_over: "over (req, pc) \<Longrightarrow> oi_next run req pc d = None"
  by (cases "(run, req, pc, d)" rule: oi_next.cases) auto

definition oi_ok :: "oi_request list \<Rightarrow> 'db oi_sys \<Rightarrow> bool" where
  "oi_ok reqs s \<longleftrightarrow> map fst (oi_reqs s) = reqs \<and> list_all at_home (oi_reqs s)"

lemma oi_step_ok: "oi_ok reqs s \<Longrightarrow> oi_step run s t \<Longrightarrow> oi_ok reqs t"
  by (erule oi_step.cases)
    (auto simp: oi_ok_def map_update list_update_same_conv list_all_length nth_list_update dest: oi_next_home)

lemma oi_step_left: "oi_step run s t \<Longrightarrow> weight stmts_left (oi_reqs t) < weight stmts_left (oi_reqs s)"
  by (erule oi_step.cases) (simp add: weight_update_less oi_next_left)

lemma oi_step_exists:
  assumes "oi_ok reqs s" and "\<not> list_all over (oi_reqs s)"
  shows "\<exists>t. oi_step run s t"
proof -
  obtain i where i: "i < length (oi_reqs s)" "\<not> over (oi_reqs s ! i)" "at_home (oi_reqs s ! i)"
    using assms by (auto simp: list_all_length oi_ok_def)
  obtain req pc where ip: "oi_reqs s ! i = (req, pc)" by fastforce
  from oi_next_total [of req pc run "oi_db s"] i(2,3) obtain pc' d' where "oi_next run req pc (oi_db s) = Some (pc', d')"
    unfolding ip by blast
  from oi_step.oi_stmt [OF i(1) ip this] show ?thesis by blast
qed

lemma oi_init_ok: "oi_ok reqs (oi_init d reqs)"
proof -
  have "at_home (req, OiStart)" for req by (cases req) simp_all
  then show ?thesis by (simp add: oi_ok_def oi_init_def list_all_length comp_def)
qed

interpretation oi: live_system "\<lambda>s. s = oi_init d reqs" "oi_step run" "oi_ok reqs"
    "\<lambda>s. weight stmts_left (oi_reqs s)" "\<lambda>s. list_all over (oi_reqs s)" for d reqs run
  by unfold_locales (auto intro: oi_init_ok oi_step_ok oi_step_left oi_step_exists)

subsection \<open>The specification\<close>

fun beat_seen :: "mysql_rules \<Rightarrow> oi_request \<Rightarrow> (int \<rightharpoonup> time option) \<Rightarrow> (int \<rightharpoonup> time option)" where
  "beat_seen R (Beat t uid) seen =
     (case store_int R uid of None \<Rightarrow> seen | Some k \<Rightarrow> seen(k \<mapsto> Some (store_time R t)))"
| "beat_seen R (Page up now) seen = seen"

definition last_seen :: "mysql_rules \<Rightarrow> oi_request list \<Rightarrow> (int \<rightharpoonup> time option) \<Rightarrow> (int \<rightharpoonup> time option)" where
  "last_seen R reqs = fold (beat_seen R) reqs"

text \<open>A page that shows \<open>seen\<close> at the time \<open>now\<close>: one line for each user, in some order.\<close>

definition page_of :: "(int \<rightharpoonup> time option) \<Rightarrow> time \<Rightarrow> response \<Rightarrow> bool" where
  "page_of seen now w \<longleftrightarrow>
     (\<exists>users. distinct (map fst users) \<and> (\<forall>k u. (k, u) \<in> set users \<longleftrightarrow> seen k = Some (Some u)) \<and> None \<notin> ran seen \<and>
        rw_body w = [Text (concat (map (status_line now) users))])"

fun stored :: "oi_request \<times> oi_pc \<Rightarrow> bool" where
  "stored (Beat t uid, OiPrinted None) = True"
| "stored rp = False"

lemma last_seen_Nil [simp]: "last_seen R [] seen = seen"
  by (simp add: last_seen_def)

lemma last_seen_snoc [simp]: "last_seen R (reqs @ [req]) seen = beat_seen R req (last_seen R reqs seen)"
  by (simp add: last_seen_def)

lemma last_seen_other:
  "(\<And>t uid. Beat t uid \<in> set reqs \<Longrightarrow> store_int R uid \<noteq> Some k) \<Longrightarrow> last_seen R reqs seen k = seen k"
proof (induction reqs rule: rev_induct)
  case (snoc req reqs)
  then show ?case by (cases req) (auto split: option.splits)
qed simp

text \<open>The last heartbeat of a user decides.\<close>

lemma last_seen_last:
  assumes "store_int R uid = Some k" and "\<And>t' uid'. Beat t' uid' \<in> set later \<Longrightarrow> store_int R uid' \<noteq> Some k"
  shows "last_seen R (earlier @ Beat t uid # later) seen k = Some (Some (store_time R t))"
proof -
  have "last_seen R (earlier @ Beat t uid # later) seen = last_seen R later (beat_seen R (Beat t uid) (last_seen R earlier seen))"
    by (simp add: last_seen_def)
  with last_seen_other [OF assms(2)] assms(1) show ?thesis by simp
qed

context indicator_server
begin

lemma page_shown:
  assumes "rules_ok R" and "distinct (map fst (tables d))" and "fetchOnlineOfflineStatus run True now d = (w, d')"
    and "rw_status w = Some 200"
  shows "page_of (map_of (tables d)) now w"
proof -
  obtain i where body: "rw_body w = [Text (concat (map (\<lambda>(k, t). status_line now (k, the t)) (reorder R i (tables d))))]"
    and "None \<notin> snd ` set (reorder R i (tables d))"
    using status_ok [OF assms(3,4)] status_no_null [OF assms(1,3,4)] assms(1) by auto
  then have null: "None \<notin> snd ` set (tables d)" using assms(1) by simp
  let ?users = "map (\<lambda>(k, t). (k, the t)) (reorder R i (tables d))"
  have "mset (map fst ?users) = mset (map fst (tables d))"
    using assms(1) by (simp add: comp_def split_def)
  then have "distinct (map fst ?users)" using assms(2) mset_eq_imp_distinct_iff by blast
  moreover have "(k, u) \<in> set ?users \<longleftrightarrow> map_of (tables d) k = Some (Some u)" for k u
  proof -
    have "(k, u) \<in> set ?users \<longleftrightarrow> (k, Some u) \<in> set (tables d)"
      using null assms(1) by (force simp: image_iff)
    then show ?thesis using assms(2) by simp
  qed
  moreover have "None \<notin> ran (map_of (tables d))" using null assms(2) by (simp add: ran_distinct)
  ultimately show ?thesis using body unfolding page_of_def
    by (intro exI [of _ ?users]) (simp add: comp_def split_def)
qed

lemma status_tables: "fetchOnlineOfflineStatus run up now d = (w, d') \<Longrightarrow> tables d' = tables d"
  using run_ok [of OiSelect d] run_err [of OiSelect d]
  by (auto simp: fetchOnlineOfflineStatus_def split: prod.splits sum.splits option.splits)

lemma oi_next_reads: "oi_next run req pc d = Some (pc', d') \<Longrightarrow> \<not> stored (req, pc') \<Longrightarrow> tables d' = tables d"
  by (cases "(run, req, pc, d)" rule: oi_next.cases)
    (auto dest: prepare_tables run_err status_tables split: prod.splits sum.splits)

lemma oi_next_stores:
  assumes "oi_next run req pc d = Some (pc', d')" and "stored (req, pc')"
  shows "\<exists>t uid k. req = Beat t uid \<and> store_int R uid = Some k \<and>
    tables d' = oi_upsert k (store_time R t) (store_time R t) (tables d)"
proof -
  obtain t uid where req: "req = Beat t uid" "pc' = OiPrinted None" using assms(2) by (cases "(req, pc')" rule: stored.cases) auto
  then have "pc = OiPrepared" using assms(1) by (cases pc) (auto split: prod.splits sum.splits)
  then obtain r where "run (OiUpsert uid t t) d = (Inr r, d')"
    using assms(1) req by (auto split: prod.splits sum.splits)
  from run_ok [OF this] req(1) show ?thesis by (auto split: option.splits)
qed

lemma oi_next_seen:
  assumes "oi_next run req pc d = Some (pc', d')" and "stored (req, pc')"
  shows "map_of (tables d') = beat_seen R req (map_of (tables d))"
  using oi_next_stores [OF assms] by (auto simp: oi_upsert_lookup)

lemma oi_next_distinct:
  assumes "oi_next run req pc d = Some (pc', d')" and "distinct (map fst (tables d))"
  shows "distinct (map fst (tables d'))"
  using oi_next_stores [OF assms(1)] oi_next_reads [OF assms(1)] assms(2) oi_upsert_distinct
  by (cases "stored (req, pc')") auto

lemma oi_next_page:
  assumes "rules_ok R" and "distinct (map fst (tables d))" and "oi_next run (Page True now) pc d = Some (OiAnswered w, d')"
    and "rw_status w = Some 200"
  shows "page_of (map_of (tables d)) now w"
proof -
  have "pc = OiStart" using assms(3) by (cases pc) auto
  then have "fetchOnlineOfflineStatus run True now d = (w, d')" using assms(3) by (auto split: prod.splits)
  from page_shown [OF assms(1,2) this assms(4)] show ?thesis .
qed

end

subsection \<open>Runs\<close>

text \<open>
  What happened between \<open>s\<close> and \<open>t\<close>: \<open>log\<close> are the heartbeats stored, in the order of their statements; the
  table is what they make of it, and every page answered meanwhile shows it after some of them.
\<close>

definition request_at :: "'db oi_sys \<Rightarrow> nat \<Rightarrow> oi_request" where
  "request_at s i = fst (oi_reqs s ! i)"

definition tracks ::
    "mysql_rules \<Rightarrow> (int \<rightharpoonup> time option) \<Rightarrow> (int \<rightharpoonup> time option) \<Rightarrow> 'db oi_sys \<Rightarrow> 'db oi_sys \<Rightarrow> nat list \<Rightarrow> bool" where
  "tracks R seen seen' s t log \<longleftrightarrow>
     map fst (oi_reqs t) = map fst (oi_reqs s) \<and> distinct log \<and>
     (\<forall>i. i \<in> set log \<longleftrightarrow> i < length (oi_reqs s) \<and> \<not> over (oi_reqs s ! i) \<and> stored (oi_reqs t ! i)) \<and>
     (\<forall>i < length (oi_reqs s). over (oi_reqs s ! i) \<longrightarrow> oi_reqs t ! i = oi_reqs s ! i) \<and>
     seen' = last_seen R (map (request_at s) log) seen \<and>
     (\<forall>j now w. j < length (oi_reqs s) \<and> \<not> over (oi_reqs s ! j) \<and>
        oi_reqs t ! j = (Page True now, OiAnswered w) \<and> rw_status w = Some 200 \<longrightarrow>
        (\<exists>n \<le> length log. page_of (last_seen R (take n (map (request_at s) log)) seen) now w))"

lemma stored_over: "stored rp \<Longrightarrow> over rp"
  by (cases rp rule: stored.cases) auto

lemma tracks_refl: "tracks R seen seen s s []"
  by (auto simp: tracks_def dest: stored_over)

lemma tracks_length: "tracks R seen seen' s t log \<Longrightarrow> length (oi_reqs t) = length (oi_reqs s)"
  unfolding tracks_def by (metis length_map)

lemma tracks_request: "tracks R seen seen' s t log \<Longrightarrow> i < length (oi_reqs s) \<Longrightarrow> fst (oi_reqs t ! i) = request_at s i"
  unfolding tracks_def request_at_def by (metis length_map nth_map)

context indicator_server
begin

lemma tracks_step:
  assumes R: "rules_ok R" and dist: "distinct (map fst (tables (oi_db t)))"
    and tr: "tracks R seen (map_of (tables (oi_db t))) s t log" and step: "oi_step run t u"
  shows "\<exists>log'. tracks R seen (map_of (tables (oi_db u))) s u log'"
  using step
proof cases
  case (oi_stmt i req pc pc' d)
  note len = tracks_length [OF tr]
  have req: "request_at s i = req" using tracks_request [OF tr, of i] oi_stmt(2,3) len by simp
  have running: "\<not> over (req, pc)" using oi_next_over [of req pc run "oi_db t"] oi_stmt(4) by auto
  have i: "i < length (oi_reqs s)" "\<not> over (oi_reqs s ! i)"
    using oi_stmt(2,3) running tr len unfolding tracks_def by auto
  have notin: "i \<notin> set log" using running stored_over oi_stmt(3) tr unfolding tracks_def by force
  have nth: "oi_reqs u ! j = (if j = i then (req, pc') else oi_reqs t ! j)" if "j < length (oi_reqs s)" for j
    using that len by (simp add: oi_stmt(1))
  have "map fst (oi_reqs u) = map fst (oi_reqs t)"
    using oi_stmt(2,3) by (simp add: oi_stmt(1) map_update list_update_same_conv)
  then have fsts: "map fst (oi_reqs u) = map fst (oi_reqs s)" using tr by (simp add: tracks_def)
  let ?log = "if stored (req, pc') then log @ [i] else log"
  have mem: "j \<in> set ?log \<longleftrightarrow> j < length (oi_reqs s) \<and> \<not> over (oi_reqs s ! j) \<and> stored (oi_reqs u ! j)" for j
  proof (cases "j = i")
    case True
    with i notin nth [OF i(1)] show ?thesis by simp
  next
    case False
    with tr nth [of j] show ?thesis by (auto simp: tracks_def)
  qed
  have seen: "map_of (tables (oi_db u)) = last_seen R (map (request_at s) ?log) seen"
    using oi_next_seen [OF oi_stmt(4)] oi_next_reads [OF oi_stmt(4)] tr by (simp add: oi_stmt(1) tracks_def req)
  have pages: "\<exists>n \<le> length ?log. page_of (last_seen R (take n (map (request_at s) ?log)) seen) now w"
    if j: "j < length (oi_reqs s)" "\<not> over (oi_reqs s ! j)" "oi_reqs u ! j = (Page True now, OiAnswered w)" "rw_status w = Some 200"
    for j now w
  proof (cases "j = i")
    case True
    with j nth [OF j(1)] have pc: "req = Page True now" "pc' = OiAnswered w" by simp_all
    from oi_next_page [OF R dist _ j(4)] oi_stmt(4) have "page_of (map_of (tables (oi_db t))) now w" unfolding pc by blast
    then have "page_of (last_seen R (take (length log) (map (request_at s) ?log)) seen) now w"
      using tr by (simp add: tracks_def pc)
    then show ?thesis by (intro exI [of _ "length log"]) simp
  next
    case False
    with j(3) nth [OF j(1)] have "oi_reqs t ! j = (Page True now, OiAnswered w)" by simp
    with tr j(1,2,4) obtain n where "n \<le> length log" "page_of (last_seen R (take n (map (request_at s) log)) seen) now w"
      unfolding tracks_def by blast
    then show ?thesis by (intro exI [of _ n]) simp
  qed
  have "\<forall>j < length (oi_reqs s). over (oi_reqs s ! j) \<longrightarrow> oi_reqs u ! j = oi_reqs s ! j"
    using tr nth i(2) by (auto simp: tracks_def)
  with fsts mem seen pages notin tr have "tracks R seen (map_of (tables (oi_db u))) s u ?log"
    unfolding tracks_def by auto
  then show ?thesis ..
qed

lemma tracks_run:
  assumes "rules_ok R" and "(oi_step run)\<^sup>*\<^sup>* s t" and "distinct (map fst (tables (oi_db s)))"
  shows "distinct (map fst (tables (oi_db t))) \<and> (\<exists>log. tracks R (map_of (tables (oi_db s))) (map_of (tables (oi_db t))) s t log)"
  using assms(2)
proof (induction rule: rtranclp_induct)
  case base
  show ?case using tracks_refl assms(3) by blast
next
  case (step t u)
  then obtain log where log: "tracks R (map_of (tables (oi_db s))) (map_of (tables (oi_db t))) s t log"
    and dist: "distinct (map fst (tables (oi_db t)))" by blast
  have "distinct (map fst (tables (oi_db u)))"
    using step(2) by cases (use oi_next_distinct dist in auto)
  with tracks_step [OF assms(1) dist log step(2)] show ?case by blast
qed

end

subsection \<open>Properties\<close>

text \<open>
  C15. Heartbeats and pages at once, from any state of the server to any later one and whatever fails. The heartbeats
  that were stored between the two have an order in which the table is what the specification makes of them: each
  user has the time of his last heartbeat in that order, and nobody else's changes. A page answered with 200 between
  the two shows exactly one moment of this history: one line for each user, with the time he had then.
\<close>

theorem indicator_linearizable:
  assumes "indicator_server run tables R" and "rules_ok R"
    and "distinct (map fst (tables (oi_db s)))" and "(oi_step run)\<^sup>*\<^sup>* s t"
  shows "\<exists>log. distinct log \<and>
    set log = {i. i < length (oi_reqs s) \<and> \<not> over (oi_reqs s ! i) \<and> stored (oi_reqs t ! i)} \<and>
    map_of (tables (oi_db t)) = last_seen R (map (request_at s) log) (map_of (tables (oi_db s))) \<and>
    (\<forall>j now w. j < length (oi_reqs s) \<and> \<not> over (oi_reqs s ! j) \<and>
       oi_reqs t ! j = (Page True now, OiAnswered w) \<and> rw_status w = Some 200 \<longrightarrow>
       (\<exists>n \<le> length log. page_of (last_seen R (take n (map (request_at s) log)) (map_of (tables (oi_db s)))) now w))"
proof -
  obtain log where "tracks R (map_of (tables (oi_db s))) (map_of (tables (oi_db t))) s t log"
    using indicator_server.tracks_run [OF assms(1,2,4,3)] by blast
  then show ?thesis unfolding tracks_def by (intro exI [of _ log]) blast
qed

theorem indicator_linearizable_witness:
  "\<exists>w t. (oi_step (faulty_run (oi_sem plain_rules)))\<^sup>*\<^sup>*
      \<lparr>oi_db = fresh_db [(7, Some 0)], oi_reqs = [(Page True 3000000000, OiStart), (Beat 3000000000 (show_int 7), OiStart)]\<rparr> t \<and>
    oi_reqs t ! 0 = (Page True 3000000000, OiAnswered w) \<and> page_of [7 \<mapsto> Some 0] 3000000000 w"
proof -
  let ?run = "faulty_run (oi_sem plain_rules)"
  let ?beat = "(Beat 3000000000 (show_int 7), OiStart)"
  let ?s = "\<lparr>oi_db = fresh_db [(7 :: int, Some (0 :: time))], oi_reqs = [(Page True 3000000000, OiStart), ?beat]\<rparr>"
  obtain w d where w: "fetchOnlineOfflineStatus ?run True 3000000000 (fresh_db [(7, Some 0)]) = (w, d)" "rw_status w = Some 200"
    by (simp add: fetchOnlineOfflineStatus_def faulty_run_def fresh_db_def Let_def scan_user_row)
  let ?t = "\<lparr>oi_db = d, oi_reqs = [(Page True 3000000000, OiAnswered w), ?beat]\<rparr>"
  have "oi_step ?run ?s ?t"
    using oi_step.oi_stmt [of 0 ?s "Page True 3000000000" OiStart ?run "OiAnswered w" d] w(1) by simp
  then have run: "(oi_step ?run)\<^sup>*\<^sup>* ?s ?t" by blast
  have "distinct (map fst (fd_tables (oi_db ?s)))" by (simp add: fresh_db_def)
  from indicator_linearizable [OF oi_faulty.indicator_server_axioms plain_rules_ok this run]
  obtain log where log: "set log = {i. i < length (oi_reqs ?s) \<and> \<not> over (oi_reqs ?s ! i) \<and> stored (oi_reqs ?t ! i)}"
    and pages: "\<forall>j now w. j < length (oi_reqs ?s) \<and> \<not> over (oi_reqs ?s ! j) \<and>
       oi_reqs ?t ! j = (Page True now, OiAnswered w) \<and> rw_status w = Some 200 \<longrightarrow>
       (\<exists>n \<le> length log. page_of (last_seen plain_rules (take n (map (request_at ?s) log)) (map_of (fd_tables (oi_db ?s)))) now w)"
    by (elim exE conjE)
  from pages [rule_format, of 0 3000000000 w] w(2) obtain n
    where "page_of (last_seen plain_rules (take n (map (request_at ?s) log)) (map_of (fd_tables (oi_db ?s)))) 3000000000 w" by auto
  moreover have "log = []"
    unfolding set_empty [symmetric] log by (auto simp: nth_Cons split: nat.splits)
  ultimately have "page_of [7 \<mapsto> Some 0] 3000000000 w" by (simp add: fresh_db_def)
  with run show ?thesis by (intro exI [of _ w] exI [of _ ?t]) simp
qed

text \<open>Every run takes at most two statements for a heartbeat and one for a page, and ends with everything done.\<close>

theorem indicator_ends:
  "(\<forall>n t. (oi_step run ^^ n) (oi_init d reqs) t \<longrightarrow> n \<le> 2 * length reqs) \<and>
    (\<forall>t. (oi_step run)\<^sup>*\<^sup>* (oi_init d reqs) t \<longrightarrow> (\<exists>u. (oi_step run)\<^sup>*\<^sup>* t u \<and> list_all over (oi_reqs u)))"
proof -
  have "weight stmts_left (map (\<lambda>req. (req, OiStart)) reqs) \<le> 2 * length reqs"
  proof (induction reqs)
    case (Cons req reqs)
    then show ?case by (cases req) simp_all
  qed simp
  then have "n \<le> 2 * length reqs" if "(oi_step run ^^ n) (oi_init d reqs) t" for n t
    using oi.run_length [OF that oi_init_ok] by (simp add: oi_init_def)
  then show ?thesis by (intro conjI allI impI) (assumption | rule oi.reaches_final [OF refl])+
qed

text \<open>
  The clock is read before the two statements: of two heartbeats of one connection, the later one may be stored first,
  and then the table has the earlier time.
\<close>

theorem heartbeat_goes_back:
  assumes "t1 < t2"
  shows "\<exists>s. (oi_step (faulty_run (oi_sem plain_rules)))\<^sup>*\<^sup>* (oi_init (fresh_db []) [Beat t1 (show_int 7), Beat t2 (show_int 7)]) s \<and>
    list_all stored (oi_reqs s) \<and> fd_tables (oi_db s) = [(7, Some (store_time plain_rules t1))]"
proof -
  let ?run = "faulty_run (oi_sem plain_rules)"
  let ?d = "\<lambda>tbl n. \<lparr>fd_tables = tbl, fd_faults = [], fd_next = n\<rparr>"
  let ?s = "\<lambda>tbl n p q. \<lparr>oi_db = ?d tbl n, oi_reqs = [(Beat t1 (show_int 7), p), (Beat t2 (show_int 7), q)]\<rparr>"
  have s7: "store_int plain_rules (show_int 7) = Some 7" using plain_rules_ok by (simp add: rules_ok_def)
  let ?r = "\<lambda>t. [(7, Some (store_time plain_rules t))]"
  have "(oi_step ?run)\<^sup>*\<^sup>* (?s [] 1 OiStart OiStart) (?s [] 1 OiStart OiStart)" ..
  also have "oi_step ?run \<dots> (?s [] 2 OiPrepared OiStart)"
    using oi_step.oi_stmt [of 0 "?s [] 1 OiStart OiStart" _ _ ?run OiPrepared "?d [] 2"] by (simp add: faulty_run_def)
  also have "oi_step ?run \<dots> (?s [] 3 OiPrepared OiPrepared)"
    using oi_step.oi_stmt [of 1 "?s [] 2 OiPrepared OiStart" _ _ ?run OiPrepared "?d [] 3"] by (simp add: faulty_run_def)
  also have "oi_step ?run \<dots> (?s (?r t2) 4 OiPrepared (OiPrinted None))"
    using oi_step.oi_stmt [of 1 "?s [] 3 OiPrepared OiPrepared" _ _ ?run "OiPrinted None" "?d (?r t2) 4"]
    by (simp add: faulty_run_def s7)
  also have "oi_step ?run \<dots> (?s (?r t1) 5 (OiPrinted None) (OiPrinted None))"
    using oi_step.oi_stmt [of 0 "?s (?r t2) 4 OiPrepared (OiPrinted None)" _ _ ?run "OiPrinted None" "?d (?r t1) 5"]
    by (simp add: faulty_run_def s7)
  finally show ?thesis
    by (intro exI [of _ "?s (?r t1) 5 (OiPrinted None) (OiPrinted None)"]) (simp add: oi_init_def fresh_db_def)
qed

end
