(* ===== verification/Socket_Servers.thy ===== *)
theory Socket_Servers
  imports Go_Runs "HOL-Library.Sublist"
begin

text \<open>
  Two small servers. \<open>tcp/main.go\<close>: \<open>manageConnection\<close> reads once, answers a fixed text and closes,
  and ends the process on any error; \<open>tcp_step\<close> is the server, whose accept loop and connections run
  in goroutines of their own. \<open>websockets/main.go\<close>: \<open>websocketHandler\<close> answers every message with its text behind
  a prefix. What the sockets do (read results, write and close errors) are arguments.
\<close>

subsection \<open>The TCP server\<close>

text \<open>
  A client: the first read, the error of the write, the error of the close. (A write that fails may have sent a part of
  the page before the process ends; that part is not recorded.)
\<close>

record tcp_client =
  cl_read :: "string + string"
  cl_write :: "string option"
  cl_close :: "string option"

definition hello_world :: string where
  "hello_world =
     ''HTTP/1.1 200 OK'' @ [CHR 0x0D, CHR 0x0A, CHR 0x0D, CHR 0x0A] @ ''hello world'' @ [CHR 0x0D, CHR 0x0A]"

text \<open>The printed buffer has 2000 bytes, filled up with zeros.\<close>

definition fill_buffer :: "nat \<Rightarrow> string \<Rightarrow> string" where
  "fill_buffer n s = take n s @ replicate (n - length s) CHR 0x00"

definition manageConnection :: "tcp_client \<Rightarrow> (string \<times> string) go" where
  "manageConnection conn =
     (case cl_read conn of
        Inl err \<Rightarrow> Inl (FatalExit (''R error while reading input from user'' @ err))
      | Inr input \<Rightarrow>
          (case cl_write conn of
             Some err \<Rightarrow> Inl (FatalExit (''W error while write to user'' @ err))
           | None \<Rightarrow>
               (case cl_close conn of
                  Some err \<Rightarrow> Inl (FatalExit (''Close Error = '' @ err))
                | None \<Rightarrow> Inr (hello_world, fill_buffer 2000 input))))"

text \<open>The same cut at its socket calls: the next state of a connection and what is sent.\<close>

datatype tcp_pc = TcpRead | TcpWrite | TcpClose | TcpClosed

fun conn_next :: "tcp_client \<Rightarrow> tcp_pc \<Rightarrow> (tcp_pc \<times> string list) go" where
  "conn_next conn TcpRead =
     (case cl_read conn of
        Inl err \<Rightarrow> Inl (FatalExit (''R error while reading input from user'' @ err))
      | Inr input \<Rightarrow> Inr (TcpWrite, []))"
| "conn_next conn TcpWrite =
     (case cl_write conn of
        Some err \<Rightarrow> Inl (FatalExit (''W error while write to user'' @ err))
      | None \<Rightarrow> Inr (TcpClose, [hello_world]))"
| "conn_next conn TcpClose =
     (case cl_close conn of
        Some err \<Rightarrow> Inl (FatalExit (''Close Error = '' @ err))
      | None \<Rightarrow> Inr (TcpClosed, []))"
| "conn_next conn TcpClosed = Inr (TcpClosed, [])"

lemma conn_next_manage:
  "go_bind (conn_next conn TcpRead) (\<lambda>(p, out1). go_bind (conn_next conn p) (\<lambda>(q, out2). go_bind (conn_next conn q)
      (\<lambda>(r, out3). Inr (concat (out1 @ out2 @ out3))))) =
   go_bind (manageConnection conn) (\<lambda>(answer, printed). Inr answer)"
  by (auto simp: manageConnection_def split: sum.splits option.splits)

text \<open>The server: what the listener will return, the connections, what was sent to which, and how the process ended.\<close>

record tcp_sys =
  tc_listener :: "(string + tcp_client) list"
  tc_conns :: "(tcp_client \<times> tcp_pc) list"
  tc_sent :: "(nat \<times> string) list"
  tc_exit :: "panic option"

inductive tcp_step :: "tcp_sys \<Rightarrow> tcp_sys \<Rightarrow> bool" where
  tcp_accept: "tc_exit s = None \<Longrightarrow> tc_listener s = Inr conn # rest \<Longrightarrow>
    tcp_step s (s\<lparr>tc_listener := rest, tc_conns := tc_conns s @ [(conn, TcpRead)]\<rparr>)"
| tcp_accept_error: "tc_exit s = None \<Longrightarrow> tc_listener s = Inl err # rest \<Longrightarrow>
    tcp_step s (s\<lparr>tc_exit := Some (FatalExit (''A error while accepting a TCP connection'' @ err))\<rparr>)"
| tcp_conn: "tc_exit s = None \<Longrightarrow> i < length (tc_conns s) \<Longrightarrow> tc_conns s ! i = (conn, pc) \<Longrightarrow> pc \<noteq> TcpClosed \<Longrightarrow>
    conn_next conn pc = Inr (pc', out) \<Longrightarrow>
    tcp_step s (s\<lparr>tc_conns := (tc_conns s)[i := (conn, pc')], tc_sent := tc_sent s @ map (Pair i) out\<rparr>)"
| tcp_conn_error: "tc_exit s = None \<Longrightarrow> i < length (tc_conns s) \<Longrightarrow> tc_conns s ! i = (conn, pc) \<Longrightarrow>
    conn_next conn pc = Inl p \<Longrightarrow> tcp_step s (s\<lparr>tc_exit := Some p\<rparr>)"

definition tcp_init :: "(string + tcp_client) list \<Rightarrow> tcp_sys" where
  "tcp_init arrivals = \<lparr>tc_listener = arrivals, tc_conns = [], tc_sent = [], tc_exit = None\<rparr>"

definition tcp_over :: "tcp_sys \<Rightarrow> bool" where
  "tcp_over s \<longleftrightarrow> tc_exit s \<noteq> None \<or> tc_listener s = [] \<and> list_all (\<lambda>(conn, pc). pc = TcpClosed) (tc_conns s)"

definition sent_to :: "nat \<Rightarrow> tcp_sys \<Rightarrow> string list" where
  "sent_to i s = map snd (filter (\<lambda>e. fst e = i) (tc_sent s))"

definition polite :: "string + tcp_client \<Rightarrow> bool" where
  "polite c \<longleftrightarrow> (case c of Inl _ \<Rightarrow> False | Inr conn \<Rightarrow> (\<exists>input. cl_read conn = Inr input) \<and> cl_write conn = None \<and> cl_close conn = None)"

text \<open>Each connection has been sent its page when it was written, and only a failure ends the process.\<close>

definition page_of :: "tcp_pc \<Rightarrow> string list" where
  "page_of pc = (if pc = TcpClose \<or> pc = TcpClosed then [hello_world] else [])"

definition tcp_inv :: "(string + tcp_client) list \<Rightarrow> tcp_sys \<Rightarrow> bool" where
  "tcp_inv arrivals s \<longleftrightarrow>
     arrivals = map (\<lambda>c. Inr (fst c)) (tc_conns s) @ tc_listener s \<and>
     (\<forall>i. sent_to i s = (if i < length (tc_conns s) then page_of (snd (tc_conns s ! i)) else [])) \<and>
     (tc_exit s \<noteq> None \<longrightarrow> \<not> list_all polite arrivals)"

lemma conn_next_rude: "conn_next conn pc = Inl p \<Longrightarrow> \<not> polite (Inr conn)"
  by (cases pc) (auto simp: polite_def split: sum.splits option.splits)

lemma conn_next_page: "conn_next conn pc = Inr (pc', out) \<Longrightarrow> page_of pc' = page_of pc @ out"
  by (cases pc) (auto simp: page_of_def split: sum.splits option.splits)

lemma tcp_step_inv:
  assumes "tcp_inv arrivals s" and "tcp_step s t"
  shows "tcp_inv arrivals t"
  using assms(2)
proof cases
  case (tcp_accept conn rest)
  with assms(1) show ?thesis by (auto simp: tcp_inv_def sent_to_def page_of_def nth_append less_Suc_eq)
next
  case (tcp_accept_error err rest)
  with assms(1) show ?thesis by (auto simp: tcp_inv_def sent_to_def polite_def)
next
  case (tcp_conn i conn pc pc' out)
  have "sent_to j t = sent_to j s @ (if j = i then out else [])" for j
    using tcp_conn(1) by (auto simp: sent_to_def filter_map comp_def)
  moreover have "map (\<lambda>c. Inr (fst c)) (tc_conns t) = (map (\<lambda>c. Inr (fst c)) (tc_conns s) :: (string + tcp_client) list)"
    using tcp_conn(1,3,4) by (auto simp: map_update intro!: list_update_same_conv [THEN iffD2])
  ultimately show ?thesis using assms(1) tcp_conn(1-4) conn_next_page [OF tcp_conn(6)] by (auto simp: tcp_inv_def nth_list_update)
next
  case (tcp_conn_error i conn pc p)
  have "Inr conn \<in> set arrivals" using assms(1) tcp_conn_error(3,4) by (force simp: tcp_inv_def in_set_conv_nth)
  then have "\<not> list_all polite arrivals" using conn_next_rude [OF tcp_conn_error(5)] by (auto simp: list_all_iff)
  with assms(1) tcp_conn_error(1) show ?thesis by (simp add: tcp_inv_def sent_to_def)
qed

definition tcp_left :: "tcp_pc \<Rightarrow> nat" where
  "tcp_left pc = (case pc of TcpRead \<Rightarrow> 3 | TcpWrite \<Rightarrow> 2 | TcpClose \<Rightarrow> 1 | TcpClosed \<Rightarrow> 0)"

definition tcp_variant :: "tcp_sys \<Rightarrow> nat" where
  "tcp_variant s =
     (if tc_exit s \<noteq> None then 0 else Suc (4 * length (tc_listener s) + weight (\<lambda>c. tcp_left (snd c)) (tc_conns s)))"

lemma conn_next_left: "conn_next conn pc = Inr (pc', out) \<Longrightarrow> pc \<noteq> TcpClosed \<Longrightarrow> tcp_left pc' < tcp_left pc"
  by (cases pc) (auto simp: tcp_left_def split: sum.splits option.splits)

lemma tcp_step_variant: "tcp_step s t \<Longrightarrow> tcp_variant t < tcp_variant s"
proof (erule tcp_step.cases, goal_cases)
  case (1 s conn rest)
  then show ?case by (simp add: tcp_variant_def tcp_left_def)
next
  case (3 s i conn pc pc' out)
  with weight_update_less [of i "tc_conns s" "\<lambda>c. tcp_left (snd c)" "(conn, pc')"] conn_next_left [of conn pc pc' out]
  show ?case by (simp add: tcp_variant_def)
qed (simp_all add: tcp_variant_def)

lemma tcp_step_iff: "(\<exists>t. tcp_step s t) \<longleftrightarrow> \<not> tcp_over s"
proof
  assume "\<exists>t. tcp_step s t"
  then show "\<not> tcp_over s" by (auto elim!: tcp_step.cases simp: tcp_over_def list_all_length)
next
  assume *: "\<not> tcp_over s"
  show "\<exists>t. tcp_step s t"
  proof (cases "tc_listener s")
    case (Cons a rest)
    with * show ?thesis by (cases a) (auto simp: tcp_over_def intro: tcp_step.intros)
  next
    case Nil
    with * obtain i conn pc where i: "i < length (tc_conns s)" "tc_conns s ! i = (conn, pc)" "pc \<noteq> TcpClosed" "tc_exit s = None"
      by (fastforce simp: tcp_over_def list_all_length)
    show ?thesis
    proof (cases "conn_next conn pc")
      case (Inl p)
      with i show ?thesis by (blast intro: tcp_conn_error)
    next
      case (Inr r)
      obtain pc' out where "r = (pc', out)" by (cases r)
      with Inr i show ?thesis by (blast intro: tcp_conn)
    qed
  qed
qed

lemma tcp_init_inv: "tcp_inv arrivals (tcp_init arrivals)"
  by (simp add: tcp_inv_def tcp_init_def sent_to_def)

interpretation tcp: live_system "\<lambda>s. s = tcp_init arrivals" tcp_step "tcp_inv arrivals" tcp_variant tcp_over for arrivals
  by unfold_locales (auto simp: tcp_step_iff intro: tcp_init_inv tcp_step_inv tcp_step_variant)

text \<open>Accepting comes first, if it is scheduled so; a rude connection then runs to its failure alone.\<close>

lemma tcp_accept_all:
  "tcp_step\<^sup>*\<^sup>* \<lparr>tc_listener = map Inr cs @ rest, tc_conns = conns, tc_sent = out, tc_exit = None\<rparr>
     \<lparr>tc_listener = rest, tc_conns = conns @ map (\<lambda>c. (c, TcpRead)) cs, tc_sent = out, tc_exit = None\<rparr>"
proof (induction cs arbitrary: conns)
  case (Cons c cs)
  have "tcp_step \<lparr>tc_listener = map Inr (c # cs) @ rest, tc_conns = conns, tc_sent = out, tc_exit = None\<rparr>
      \<lparr>tc_listener = map Inr cs @ rest, tc_conns = conns @ [(c, TcpRead)], tc_sent = out, tc_exit = None\<rparr>"
    using tcp_accept [of "\<lparr>tc_listener = map Inr (c # cs) @ rest, tc_conns = conns, tc_sent = out, tc_exit = None\<rparr>" c "map Inr cs @ rest"]
    by simp
  with Cons.IH [of "conns @ [(c, TcpRead)]"] show ?case by (simp add: converse_rtranclp_into_rtranclp)
qed simp

lemma tcp_rude_fails:
  assumes "\<not> polite (Inr conn)" and "tc_conns s ! i = (conn, pc)" and "i < length (tc_conns s)" and "tc_exit s = None" and "pc = TcpRead"
  shows "\<exists>t. tcp_step\<^sup>*\<^sup>* s t \<and> tc_exit t \<noteq> None \<and> (\<forall>j. j \<noteq> i \<longrightarrow> sent_to j t = sent_to j s)"
proof -
  have fails: "\<exists>t. tcp_step\<^sup>*\<^sup>* u t \<and> tc_exit t \<noteq> None \<and> (\<forall>j. j \<noteq> i \<longrightarrow> sent_to j t = sent_to j u)"
    if "tc_conns u ! i = (conn, q)" "i < length (tc_conns u)" "tc_exit u = None" "conn_next conn q = Inl p" for u q p
  proof -
    have "tcp_step u (u\<lparr>tc_exit := Some p\<rparr>)" using tcp_conn_error [OF that(3,2,1,4)] .
    then show ?thesis by (intro exI [of _ "u\<lparr>tc_exit := Some p\<rparr>"]) (auto simp: sent_to_def)
  qed
  have goes: "\<exists>t. tcp_step\<^sup>*\<^sup>* u t \<and> tc_exit t \<noteq> None \<and> (\<forall>j. j \<noteq> i \<longrightarrow> sent_to j t = sent_to j u)"
    if here: "tc_conns u ! i = (conn, q)" "i < length (tc_conns u)" "tc_exit u = None" "conn_next conn q = Inr (q', out)" "q \<noteq> TcpClosed"
      and later: "\<And>u'. tc_conns u' ! i = (conn, q') \<Longrightarrow> i < length (tc_conns u') \<Longrightarrow> tc_exit u' = None \<Longrightarrow>
        \<exists>t. tcp_step\<^sup>*\<^sup>* u' t \<and> tc_exit t \<noteq> None \<and> (\<forall>j. j \<noteq> i \<longrightarrow> sent_to j t = sent_to j u')" for u q q' out
  proof -
    let ?u = "u\<lparr>tc_conns := (tc_conns u)[i := (conn, q')], tc_sent := tc_sent u @ map (Pair i) out\<rparr>"
    have "tcp_step u ?u" using tcp_conn [OF here(3,2,1,5,4)] .
    moreover obtain t where "tcp_step\<^sup>*\<^sup>* ?u t" "tc_exit t \<noteq> None" "\<forall>j. j \<noteq> i \<longrightarrow> sent_to j t = sent_to j ?u"
      using later [of ?u] here(2,3) by auto
    moreover have "\<forall>j. j \<noteq> i \<longrightarrow> sent_to j ?u = sent_to j u" by (simp add: sent_to_def filter_map comp_def)
    ultimately show ?thesis by (metis converse_rtranclp_into_rtranclp)
  qed
  consider (no_read) e where "cl_read conn = Inl e" | (no_write) x e where "cl_read conn = Inr x" "cl_write conn = Some e"
    | (no_close) x e where "cl_read conn = Inr x" "cl_write conn = None" "cl_close conn = Some e"
    using assms(1) by (cases "cl_read conn"; cases "cl_write conn"; cases "cl_close conn") (auto simp: polite_def)
  then show ?thesis
  proof cases
    case no_read
    with fails [of s TcpRead] assms(2-5) show ?thesis by auto
  next
    case no_write
    have "\<exists>t. tcp_step\<^sup>*\<^sup>* u t \<and> tc_exit t \<noteq> None \<and> (\<forall>j. j \<noteq> i \<longrightarrow> sent_to j t = sent_to j u)"
      if "tc_conns u ! i = (conn, TcpWrite)" "i < length (tc_conns u)" "tc_exit u = None" for u
      using fails [of u TcpWrite] that no_write by simp
    then show ?thesis using goes [of s TcpRead TcpWrite "[]"] assms(2-5) no_write by simp
  next
    case no_close
    have "\<exists>t. tcp_step\<^sup>*\<^sup>* u t \<and> tc_exit t \<noteq> None \<and> (\<forall>j. j \<noteq> i \<longrightarrow> sent_to j t = sent_to j u)"
      if "tc_conns u ! i = (conn, TcpClose)" "i < length (tc_conns u)" "tc_exit u = None" for u
      using fails [of u TcpClose] that no_close by simp
    then have "\<exists>t. tcp_step\<^sup>*\<^sup>* u t \<and> tc_exit t \<noteq> None \<and> (\<forall>j. j \<noteq> i \<longrightarrow> sent_to j t = sent_to j u)"
      if "tc_conns u ! i = (conn, TcpWrite)" "i < length (tc_conns u)" "tc_exit u = None" for u
      using goes [of u TcpWrite TcpClose "[hello_world]"] that no_close by simp
    then show ?thesis using goes [of s TcpRead TcpWrite "[]"] assms(2-5) no_close by simp
  qed
qed

lemma tcp_rude_run:
  assumes "\<not> list_all polite arrivals"
  shows "\<exists>k t. tcp_step\<^sup>*\<^sup>* (tcp_init arrivals) t \<and> tc_exit t \<noteq> None \<and> (\<forall>j. j \<noteq> k \<longrightarrow> sent_to j t = [])"
proof -
  obtain us a vs where split: "arrivals = us @ a # vs" "\<not> polite a" "\<forall>u \<in> set us. polite u"
    using assms split_list_first_prop [of arrivals "\<lambda>a. \<not> polite a"] by (auto simp: list_all_iff)
  have "u \<in> range Inr" if "u \<in> set us" for u using split(3) that by (cases u) (auto simp: polite_def)
  then obtain cs where us: "us = map Inr cs" by (metis ex_map_conv rangeE)
  show ?thesis
  proof (cases a)
    case (Inl err)
    let ?s = "\<lparr>tc_listener = a # vs, tc_conns = map (\<lambda>c. (c, TcpRead)) cs, tc_sent = [], tc_exit = None\<rparr>"
    have "tcp_step\<^sup>*\<^sup>* (tcp_init arrivals) ?s" using tcp_accept_all [of cs "a # vs" "[]" "[]"] by (simp add: tcp_init_def split(1) us)
    also have "tcp_step ?s (?s\<lparr>tc_exit := Some (FatalExit (''A error while accepting a TCP connection'' @ err))\<rparr>)"
      using tcp_accept_error [of ?s err vs] Inl by simp
    finally show ?thesis by (intro exI conjI) (auto simp: sent_to_def)
  next
    case (Inr conn)
    let ?s = "\<lparr>tc_listener = vs, tc_conns = map (\<lambda>c. (c, TcpRead)) (cs @ [conn]), tc_sent = [], tc_exit = None\<rparr>"
    have s: "tcp_step\<^sup>*\<^sup>* (tcp_init arrivals) ?s"
      using tcp_accept_all [of "cs @ [conn]" vs "[]" "[]"] by (simp add: tcp_init_def split(1) us Inr)
    obtain t where "tcp_step\<^sup>*\<^sup>* ?s t" "tc_exit t \<noteq> None" "\<forall>j. j \<noteq> length cs \<longrightarrow> sent_to j t = sent_to j ?s"
      using tcp_rude_fails [of conn ?s "length cs" TcpRead] split(2) Inr by (auto simp: nth_append)
    with s show ?thesis by (intro exI [of _ "length cs"] exI [of _ t]) (auto simp: sent_to_def)
  qed
qed

text \<open>
  C36. The server at work on any connections, in any interleaving: nobody is sent anything but one page. If all
  clients are polite (and accepting never fails), the process does not end, and when nothing is left to do every
  connection has its page. But one failed read, write, close or accept is enough: then there is a run in
  which the process ends before any other client was sent anything.
\<close>

theorem tcp_server:
  assumes "tcp_step\<^sup>*\<^sup>* (tcp_init arrivals) s"
  shows "(\<forall>i. sent_to i s = [] \<or> sent_to i s = [hello_world]) \<and>
    (list_all polite arrivals \<longrightarrow> tc_exit s = None \<and>
      ((\<nexists>t. tcp_step s t) \<longrightarrow> (\<forall>i < length arrivals. sent_to i s = [hello_world]))) \<and>
    (\<not> list_all polite arrivals \<longrightarrow>
      (\<exists>k t. tcp_step\<^sup>*\<^sup>* (tcp_init arrivals) t \<and> tc_exit t \<noteq> None \<and> (\<forall>j. j \<noteq> k \<longrightarrow> sent_to j t = [])))"
proof -
  have inv: "tcp_inv arrivals s" by (rule tcp.reachable_inv [OF refl assms])
  then have "\<forall>i. sent_to i s = [] \<or> sent_to i s = [hello_world]" by (auto simp: tcp_inv_def page_of_def)
  moreover have "sent_to i s = [hello_world]" if "tc_exit s = None" "\<nexists>t. tcp_step s t" "i < length arrivals" for i
  proof -
    have over: "tc_listener s = []" "list_all (\<lambda>(conn, pc). pc = TcpClosed) (tc_conns s)"
      using tcp_step_iff [of s] that(1,2) by (auto simp: tcp_over_def)
    moreover have "length (tc_conns s) = length arrivals" using inv over(1) by (auto simp: tcp_inv_def)
    ultimately have "i < length (tc_conns s)" "snd (tc_conns s ! i) = TcpClosed"
      using that(3) by (cases "tc_conns s ! i"; fastforce simp: list_all_length)+
    with inv show ?thesis by (simp add: tcp_inv_def page_of_def)
  qed
  moreover have "list_all polite arrivals \<longrightarrow> tc_exit s = None" using inv unfolding tcp_inv_def by blast
  ultimately show ?thesis using tcp_rude_run [of arrivals] by blast
qed

theorem tcp_server_witness:
  "\<exists>k t. tcp_step\<^sup>*\<^sup>* (tcp_init [Inr \<lparr>cl_read = Inr ''GET /'', cl_write = None, cl_close = None\<rparr>,
      Inr \<lparr>cl_read = Inl ''EOF'', cl_write = None, cl_close = None\<rparr>]) t \<and>
    tc_exit t \<noteq> None \<and> (\<forall>j. j \<noteq> k \<longrightarrow> sent_to j t = [])"
  using tcp_server [OF rtranclp.rtrancl_refl, of "[Inr \<lparr>cl_read = Inr ''GET /'', cl_write = None, cl_close = None\<rparr>,
      Inr \<lparr>cl_read = Inl ''EOF'', cl_write = None, cl_close = None\<rparr>]"]
  by (simp add: polite_def)

subsection \<open>The websocket echo\<close>

text \<open>
  \<open>reads\<close> are the messages that arrive before reading fails, with their types; \<open>takes\<close> says whether
  the client takes the next answers. The result has the answers written and whether the
  connection was closed at the end.
\<close>

definition ws_answer :: "nat \<times> string \<Rightarrow> nat \<times> string" where
  "ws_answer m = (fst m, ''received: '' @ snd m)"

fun ws_loop :: "(nat \<times> string) list \<Rightarrow> bool list \<Rightarrow> (nat \<times> string) list" where
  "ws_loop [] takes = []"
| "ws_loop (m # reads) takes =
     (if takes = [] \<or> hd takes then ws_answer m # ws_loop reads (tl takes) else [])"

definition websocketHandler :: "bool \<Rightarrow> (nat \<times> string) list \<Rightarrow> bool list \<Rightarrow> (nat \<times> string) list \<times> bool" where
  "websocketHandler upgraded reads takes = (if upgraded then (ws_loop reads takes, True) else ([], False))"

lemma ws_loop_eq: "ws_loop reads takes = map ws_answer (if list_all id takes then reads else take (length (takeWhile id takes)) reads)"
proof (induction reads takes rule: ws_loop.induct)
  case (2 m reads takes)
  then show ?case by (cases takes) auto
qed simp

text \<open>
  C39. What an upgraded connection is sent: the messages in order, each with its type and its text behind the
  prefix; all of them while the client takes the answers, and otherwise exactly those before the first answer that it
  refuses. The connection is closed at the end, and one that was not upgraded is sent nothing.
\<close>

theorem websocket_echo:
  "websocketHandler upgraded reads takes =
     (if \<not> upgraded then ([], False)
      else (map (\<lambda>(ty, p). (ty, ''received: '' @ p))
              (if list_all id takes then reads else take (length (takeWhile id takes)) reads), True))"
proof -
  have "ws_answer = (\<lambda>(ty, p). (ty, ''received: '' @ p))" by (auto simp: ws_answer_def)
  then show ?thesis by (simp add: websocketHandler_def ws_loop_eq)
qed

theorem websocket_echo_witness:
  "websocketHandler True [(1, ''hi''), (1, ''you''), (1, ''there'')] [True, False] = ([(1, ''received: hi'')], True)"
  using websocket_echo [of True "[(1, ''hi''), (1, ''you''), (1, ''there'')]" "[True, False]"] by simp

end
