(* ===== verification/Event_Stream.thy ===== *)
theory Event_Stream
  imports Go_Http
begin

text \<open>
  \<open>server_sent_events/main.go\<close>: what \<open>ServerSentEventsHandler\<close> writes for a sequence of ticks, and
  what a browser makes of it. \<open>sse_events\<close> is the event-stream format as the HTML standard defines
  it: lines end at line feeds, \<open>data:\<close> lines (less one space) collect, an empty line dispatches.
\<close>

subsection \<open>The handler\<close>

record sse_stream =
  sse_headers :: "(string \<times> string) list"
  sse_flushed :: string
  sse_buffered :: string

definition sse_write :: "string \<Rightarrow> sse_stream \<Rightarrow> sse_stream" where
  "sse_write s w = w\<lparr>sse_buffered := sse_buffered w @ s\<rparr>"

definition sse_flush :: "sse_stream \<Rightarrow> sse_stream" where
  "sse_flush w = w\<lparr>sse_flushed := sse_flushed w @ sse_buffered w, sse_buffered := []\<rparr>"

definition sse_tick :: "string \<Rightarrow> sse_stream \<Rightarrow> sse_stream" where
  "sse_tick t w =
     sse_write ''data: vjs'' (sse_flush (sse_write (''data: '' @ (''time '' @ t) @ [CHR 0x0A, CHR 0x0A]) w))"

text \<open>The loop has no exit: the stream after the first ticks, \<open>ticks\<close> being their texts.\<close>

definition ServerSentEventsHandler :: "string list \<Rightarrow> sse_stream" where
  "ServerSentEventsHandler ticks =
     fold sse_tick ticks
       \<lparr>sse_headers = [(''Connection'', ''keep-alive''), (''Content-Type'', ''text/event-stream'')],
        sse_flushed = [], sse_buffered = []\<rparr>"

subsection \<open>The format\<close>

fun drop_space :: "string \<Rightarrow> string" where
  "drop_space (c # cs) = (if c = CHR '' '' then cs else c # cs)"
| "drop_space [] = []"

definition data_prefix :: string where
  "data_prefix = ''data:''"

definition sse_line :: "string \<Rightarrow> string list \<times> string option \<Rightarrow> string list \<times> string option" where
  "sse_line l st =
     (case st of (done_events, data) \<Rightarrow>
      if l = [] then (case data of None \<Rightarrow> (done_events, None) | Some x \<Rightarrow> (done_events @ [x], None))
      else if take 5 l = data_prefix then
        (let v = drop_space (drop 5 l) in
         (done_events, Some (case data of None \<Rightarrow> v | Some x \<Rightarrow> x @ [CHR 0x0A] @ v)))
      else (done_events, data))"

text \<open>The events of a stream: the text after the last line feed is not a line yet.\<close>

definition sse_events :: "string \<Rightarrow> string list" where
  "sse_events s = fst (fold sse_line (butlast (split_at CHR 0x0A s)) ([], None))"

subsection \<open>What arrives\<close>

lemma sse_tick_bytes:
  "sse_flushed (sse_tick t w) = sse_flushed w @ sse_buffered w @ ''data: time '' @ t @ [CHR 0x0A, CHR 0x0A]"
  "sse_buffered (sse_tick t w) = ''data: vjs''"
  by (simp_all add: sse_tick_def sse_write_def sse_flush_def)

lemma fold_ticks_flushed:
  "sse_flushed (fold sse_tick (t # ts) w) =
     sse_flushed w @ sse_buffered w @ ''data: time '' @ t @ [CHR 0x0A, CHR 0x0A] @
     concat (map (\<lambda>t. ''data: vjsdata: time '' @ t @ [CHR 0x0A, CHR 0x0A]) ts)"
proof (induction ts arbitrary: t w)
  case (Cons u ts)
  have "fold sse_tick (t # u # ts) w = fold sse_tick (u # ts) (sse_tick t w)" by simp
  then show ?case by (simp add: Cons.IH sse_tick_bytes del: fold_simps fold_Cons)
qed (simp add: sse_tick_bytes)

lemma split_event:
  assumes "CHR 0x0A \<notin> set l"
  shows "split_at CHR 0x0A (l @ [CHR 0x0A, CHR 0x0A] @ rest) = l # [] # split_at CHR 0x0A rest"
  using split_at_first [OF assms, of "CHR 0x0A # rest"] by simp

lemma fold_events:
  assumes "list_all (\<lambda>l. CHR 0x0A \<notin> set l) ls"
  shows "fst (fold sse_line (butlast (split_at CHR 0x0A (concat (map (\<lambda>l. ''data: '' @ l @ [CHR 0x0A, CHR 0x0A]) ls)))) (es, None)) = es @ ls"
  using assms
proof (induction ls arbitrary: es)
  case (Cons l ls)
  let ?rest = "concat (map (\<lambda>l. ''data: '' @ l @ [CHR 0x0A, CHR 0x0A]) ls)"
  have "CHR 0x0A \<notin> set (''data: '' @ l)" using Cons.prems by auto
  from split_event [OF this, of ?rest]
  have split: "split_at CHR 0x0A (concat (map (\<lambda>l. ''data: '' @ l @ [CHR 0x0A, CHR 0x0A]) (l # ls))) =
      (''data: '' @ l) # [] # split_at CHR 0x0A ?rest" by simp
  have "sse_line [] (sse_line (''data: '' @ l) (es, None)) = (es @ [l], None)"
    by (simp add: sse_line_def data_prefix_def Let_def)
  then show ?case unfolding split using Cons.IH [of "es @ [l]"] Cons.prems by simp
qed simp

text \<open>
  C40. The client gets the first tick as written, and then, for every later tick, one event whose
  text is \<open>vjsdata: time ...\<close>: the second write of the loop has no line end, so it runs into the
  next event, and no event \<open>vjs\<close> ever arrives.
\<close>

theorem sse_client_sees:
  assumes "list_all (\<lambda>t. CHR 0x0A \<notin> set t) (t # ts)"
  shows "sse_events (sse_flushed (ServerSentEventsHandler (t # ts))) =
    (''time '' @ t) # map (\<lambda>t. ''vjsdata: time '' @ t) ts"
proof -
  let ?ls = "(''time '' @ t) # map (\<lambda>t. ''vjsdata: time '' @ t) ts"
  have "sse_flushed (ServerSentEventsHandler (t # ts)) = concat (map (\<lambda>l. ''data: '' @ l @ [CHR 0x0A, CHR 0x0A]) ?ls)"
    unfolding ServerSentEventsHandler_def fold_ticks_flushed by (simp add: comp_def)
  moreover have "list_all (\<lambda>l. CHR 0x0A \<notin> set l) ?ls" using assms by (auto simp: list_all_iff)
  ultimately show ?thesis unfolding sse_events_def using fold_events [of ?ls "[]"] by (simp only: append_Nil)
qed

theorem sse_client_sees_witness:
  "sse_events (sse_flushed (ServerSentEventsHandler [''1'', ''2'', ''3''])) = [''time 1'', ''vjsdata: time 2'', ''vjsdata: time 3'']"
  using sse_client_sees [of "''1''" "[''2'', ''3'']"] by simp

end
