(* ===== verification/Static_Files.thy ===== *)
theory Static_Files
  imports Go_Http
begin

text \<open>
  \<open>staticFileServer/main.go\<close>: \<open>FileHandler\<close> over a file system parameter. \<open>fs path\<close> is what
  \<open>os.Open\<close> answers: an error, or an open file with what its \<open>Stat\<close>, \<open>ReadDir\<close> and \<open>Read\<close> answer.
  \<open>link_target\<close> is the specification of relative references, for names that need no quoting.
\<close>

record file_info =
  fi_name :: string
  fi_is_dir :: bool
  fi_size :: nat

text \<open>A directory entry, with the printed time and the size its \<open>Info\<close> gives, or its error.\<close>

record dir_entry =
  de_name :: string
  de_info :: "string + string \<times> int"

record open_file =
  of_stat :: "string + file_info"
  of_readdir :: "string + dir_entry list"
  of_read :: "nat \<Rightarrow> string + string"

type_synonym file_system = "string \<Rightarrow> string + open_file"

definition fallback_page :: string where
  "fallback_page = ''<html><body>Static File Server HW</body></html>''"

definition listing_head :: string where
  "listing_head = ''<html><head><title>Static File Server</title></head><body><table>''"

definition quote :: string where
  "quote = [CHR 0x22]"

definition entry_row :: "string \<Rightarrow> string \<Rightarrow> string \<Rightarrow> int \<Rightarrow> string" where
  "entry_row prePendText name modTime bytes =
     ''<tr><td><a href='' @ quote @ prePendText @ name @ quote @ ''>'' @ name @ ''</a></td><td>'' @ modTime @
     ''</td><td>'' @ show_int bytes @ ''</td></tr>''"

text \<open>The loop over the entries; the first whose \<open>Info\<close> fails ends it.\<close>

fun list_entries :: "string \<Rightarrow> dir_entry list \<Rightarrow> string option" where
  "list_entries prePendText [] = Some []"
| "list_entries prePendText (e # es) =
     (case de_info e of
        Inl err \<Rightarrow> None
      | Inr (modTime, bytes) \<Rightarrow>
          (case list_entries prePendText es of
             None \<Rightarrow> None
           | Some rest \<Rightarrow> Some (entry_row prePendText (de_name e) modTime bytes @ rest)))"

definition read_content :: "nat \<Rightarrow> string \<Rightarrow> string" where
  "read_content n input = take n input @ replicate (n - length input) CHR 0x00"

definition FileHandler :: "file_system \<Rightarrow> bool \<Rightarrow> string \<Rightarrow> response go" where
  "FileHandler fs up path =
     (case fs path of
        Inl err \<Rightarrow> Inr (http_text up 200 fallback_page new_response)
      | Inr osFile \<Rightarrow>
          (case of_stat osFile of
             Inl err \<Rightarrow> Inl (FatalExit ''error while getting file stats'')
           | Inr fileStats \<Rightarrow>
               (let prePendText = (if fi_name fileStats \<noteq> ''/'' then fi_name fileStats @ ''/'' else []) in
                if fi_is_dir fileStats then
                  (case of_readdir osFile of
                     Inl err \<Rightarrow> Inl (FatalExit ''error while getting directory contents'')
                   | Inr dirs \<Rightarrow>
                       (case list_entries prePendText dirs of
                          None \<Rightarrow> Inr (http_text up 200 fallback_page new_response)
                        | Some rows \<Rightarrow>
                            Inr (http_text up 200
                              (listing_head @ rows @ (if dirs = [] then ''<th>empty directory!</th>'' else []) @ ''</table></body></html>'')
                              new_response)))
                else
                  (case of_read osFile (fi_size fileStats) of
                     Inl err \<Rightarrow> Inr (http_text up 200 fallback_page new_response)
                   | Inr input \<Rightarrow> Inr (http_text up 200 (read_content (fi_size fileStats) input) new_response)))))"

subsection \<open>Links\<close>

text \<open>
  Where a relative reference leads (RFC 3986, 5.2): it replaces the last segment of the page's path. That is so for references
  of \<open>plain_name\<close>s: they have no scheme, query, fragment, percent sign or dot segment. The listing writes
  names as they are into the page, so nothing is said of links to other names. \<open>base_name\<close> is the last element of a path, which is
  the name \<open>Stat\<close> gives: trailing slashes do not count.
\<close>

definition plain_name :: "string \<Rightarrow> bool" where
  "plain_name n \<longleftrightarrow> n \<noteq> [] \<and> n \<noteq> ''.'' \<and> n \<noteq> ''..'' \<and>
     list_all (\<lambda>c. c \<in> set ''ABCDEFGHIJKLMNOPQRSTUVWXYZabcdefghijklmnopqrstuvwxyz0123456789-._~'') n"

definition link_target :: "string \<Rightarrow> string \<Rightarrow> string" where
  "link_target page ref = rev (dropWhile (\<lambda>c. c \<noteq> CHR ''/'') (rev page)) @ ref"

definition base_name :: "string \<Rightarrow> string" where
  "base_name p =
     (let q = rev (dropWhile (\<lambda>c. c = CHR ''/'') (rev p)) in
      if q = [] then ''/'' else rev (takeWhile (\<lambda>c. c \<noteq> CHR ''/'') (rev q)))"

lemma plain_name_no_slash: "plain_name n \<Longrightarrow> n \<noteq> [] \<and> CHR ''/'' \<notin> set n"
proof -
  assume n: "plain_name n"
  have "CHR ''/'' \<notin> set ''ABCDEFGHIJKLMNOPQRSTUVWXYZabcdefghijklmnopqrstuvwxyz0123456789-._~''" by code_simp
  with n show ?thesis unfolding plain_name_def list_all_iff by blast
qed

lemma drop_to_slash: "CHR ''/'' \<notin> set name \<Longrightarrow> dropWhile (\<lambda>c. c \<noteq> CHR ''/'') (rev name @ CHR ''/'' # xs) = CHR ''/'' # xs"
  by (subst dropWhile_append2) auto

lemma base_name_plain:
  assumes "name \<noteq> []" and "CHR ''/'' \<notin> set name"
  shows "base_name (dir @ ''/'' @ name) = name" "base_name (dir @ ''/'' @ name @ ''/'') = name"
proof -
  have "hd (rev name) \<noteq> CHR ''/''" using assms by (metis hd_in_set rev_is_Nil_conv set_rev)
  then obtain c cs where c: "rev name = c # cs" "c \<noteq> CHR ''/''" using assms(1) by (cases "rev name") auto
  have t: "takeWhile (\<lambda>c. c \<noteq> CHR ''/'') (rev name @ CHR ''/'' # rev dir) = rev name"
    using assms(2) by (subst takeWhile_append2) auto
  then show "base_name (dir @ ''/'' @ name) = name" "base_name (dir @ ''/'' @ name @ ''/'') = name"
    using c by (simp_all add: base_name_def Let_def)
qed

subsection \<open>Properties\<close>

text \<open>
  A file is served as it is: whatever the path (there is no root directory to leave), when the
  file opens and reads in full, the answer is 200 with exactly its bytes; a short read is filled up
  with zeros to the size \<open>Stat\<close> gave.
\<close>

theorem static_file_served:
  assumes "fs path = Inr f" and "of_stat f = Inr st" and "\<not> fi_is_dir st" and "of_read f (fi_size st) = Inr input"
  shows "\<exists>w. FileHandler fs True path = Inr w \<and> rw_status w = Some 200 \<and>
    rw_body w = [Text (take (fi_size st) input @ replicate (fi_size st - length input) CHR 0x00)] \<and>
    (length input = fi_size st \<longrightarrow> rw_body w = [Text input])"
  using assms by (simp add: FileHandler_def read_content_def http_text_body Let_def)

definition one_file :: file_system where
  "one_file p =
     (if p = ''/etc/motd'' then Inr \<lparr>of_stat = Inr \<lparr>fi_name = ''motd'', fi_is_dir = False, fi_size = 2\<rparr>,
        of_readdir = Inl ''not a directory'', of_read = (\<lambda>n. Inr (take n ''hi''))\<rparr>
      else Inl ''no such file'')"

theorem static_file_served_witness:
  "\<exists>w. FileHandler one_file True ''/etc/motd'' = Inr w \<and> rw_body w = [Text ''hi'']"
  using static_file_served [of one_file "''/etc/motd''" "\<lparr>of_stat = Inr \<lparr>fi_name = ''motd'', fi_is_dir = False, fi_size = 2\<rparr>,
        of_readdir = Inl ''not a directory'', of_read = (\<lambda>n. Inr (take n ''hi''))\<rparr>" "\<lparr>fi_name = ''motd'', fi_is_dir = False, fi_size = 2\<rparr>" "''hi''"]
  by (auto simp: one_file_def)

text \<open>
  Every answer has status 200, the one for a path that does not exist too (then with a fixed
  page); and the only other outcome ends the process, when \<open>Stat\<close> or \<open>ReadDir\<close> of an open file fails.
\<close>

theorem static_always_200:
  "case FileHandler fs up path of
     Inr w \<Rightarrow> rw_status w = Some 200
   | Inl p \<Rightarrow> \<exists>msg f. p = FatalExit msg \<and> fs path = Inr f \<and>
       ((\<exists>e. of_stat f = Inl e) \<or> (\<exists>e. of_readdir f = Inl e))"
  by (auto simp: FileHandler_def Let_def split: sum.splits option.splits if_splits)

lemma list_entries_all:
  "list_all (\<lambda>e. \<exists>t n. de_info e = Inr (t, n)) es \<Longrightarrow>
   list_entries pre es = Some (concat (map (\<lambda>e. case de_info e of Inl _ \<Rightarrow> [] | Inr (t, n) \<Rightarrow> entry_row pre (de_name e) t n) es))"
  by (induction es) auto

lemma list_entries_fails: "e \<in> set es \<Longrightarrow> de_info e = Inl err \<Longrightarrow> list_entries pre es = None"
  by (induction es) (auto split: sum.splits option.splits)

text \<open>
  C38. A directory, whatever its path and its name. When \<open>ReadDir\<close> fails the process ends. When the \<open>Info\<close> of an entry fails,
  the answer is the fixed page, without any entry. Otherwise the directory is listed in full: one row per entry in the
  order of \<open>ReadDir\<close>, whose link is the entry's name behind the directory's own (behind nothing in \<open>/\<close>), with the entry's
  time and size, and a message when there is no entry. The status is 200 in all answers.
\<close>

theorem static_listing:
  assumes "fs path = Inr f" and "of_stat f = Inr st" and "fi_is_dir st"
  shows "case of_readdir f of
      Inl err \<Rightarrow> FileHandler fs True path = Inl (FatalExit ''error while getting directory contents'')
    | Inr dirs \<Rightarrow> \<exists>w. FileHandler fs True path = Inr w \<and> rw_status w = Some 200 \<and>
        rw_body w = [Text
          (if \<exists>e \<in> set dirs. \<exists>err. de_info e = Inl err then ''<html><body>Static File Server HW</body></html>''
           else ''<html><head><title>Static File Server</title></head><body><table>'' @
             concat (map (\<lambda>e. case de_info e of Inl err \<Rightarrow> [] | Inr (modTime, bytes) \<Rightarrow>
               ''<tr><td><a href='' @ [CHR 0x22] @ (if fi_name st = ''/'' then [] else fi_name st @ ''/'') @ de_name e @ [CHR 0x22] @
               ''>'' @ de_name e @ ''</a></td><td>'' @ modTime @ ''</td><td>'' @ show_int bytes @ ''</td></tr>'') dirs) @
             (if dirs = [] then ''<th>empty directory!</th>'' else []) @ ''</table></body></html>'')]"
proof (cases "of_readdir f")
  case (Inl err)
  with assms show ?thesis by (simp add: FileHandler_def Let_def)
next
  case (Inr dirs)
  show ?thesis
  proof (cases "\<exists>e \<in> set dirs. \<exists>err. de_info e = Inl err")
    case True
    then have "list_entries pre dirs = None" for pre using list_entries_fails by blast
    with assms Inr True show ?thesis
      by (simp add: FileHandler_def Let_def fallback_page_def http_text_body)
  next
    case False
    have "\<exists>t n. de_info e = Inr (t, n)" if "e \<in> set dirs" for e
      using False that by (cases "de_info e") auto
    then have "list_all (\<lambda>e. \<exists>t n. de_info e = Inr (t, n)) dirs" by (simp add: list_all_iff)
    note rows = list_entries_all [OF this, unfolded entry_row_def quote_def]
    show ?thesis unfolding FileHandler_def Let_def
      using assms Inr False by (simp only: sum.case rows option.case if_True if_False, simp add: http_text_body listing_head_def)
  qed
qed

definition dir_stat :: file_info where
  "dir_stat = \<lparr>fi_name = ''a'', fi_is_dir = True, fi_size = 0\<rparr>"

definition dir_file :: open_file where
  "dir_file = \<lparr>of_stat = Inr dir_stat,
     of_readdir = Inr [\<lparr>de_name = ''x'', de_info = Inr (''now'', 3)\<rparr>], of_read = (\<lambda>n. Inl ''is a directory'')\<rparr>"

theorem static_listing_witness:
  "\<exists>w. FileHandler (\<lambda>_. Inr dir_file) True ''/srv/a'' = Inr w \<and>
    rw_body w = [Text (listing_head @ entry_row ''a/'' ''x'' ''now'' 3 @ ''</table></body></html>'')]"
proof -
  have p1: "(\<lambda>_. Inr dir_file) ''/srv/a'' = (Inr dir_file :: string + open_file)" by simp
  have p2: "of_stat dir_file = Inr dir_stat" "fi_is_dir dir_stat" by (simp_all add: dir_file_def dir_stat_def)
  from static_listing [OF p1 p2] show ?thesis
    by (auto simp: dir_file_def dir_stat_def listing_head_def entry_row_def quote_def)
qed

text \<open>
  Where the links of a listing lead, for a directory and entries whose names are plain: to the entries when the page's path has no slash
  at its end; when it has one, to a path that repeats the directory's name. In the root, whose path ends in a slash, they lead to the entries.
\<close>

theorem static_links:
  assumes "plain_name entry"
  shows "link_target ''/'' entry = ''/'' @ entry" and "fi_name st = base_name ''/'' \<Longrightarrow> fi_name st = ''/''"
    and "plain_name name \<Longrightarrow> path = dir @ ''/'' @ name @ slash \<Longrightarrow> slash = [] \<or> slash = ''/'' \<Longrightarrow> fi_name st = base_name path \<Longrightarrow>
      fi_name st = name \<and>
      link_target path (name @ ''/'' @ entry) = (if slash = [] then path @ ''/'' @ entry else path @ name @ ''/'' @ entry)"
proof -
  show "link_target ''/'' entry = ''/'' @ entry" by (simp add: link_target_def)
  show "fi_name st = base_name ''/'' \<Longrightarrow> fi_name st = ''/''" by (simp add: base_name_def)
  assume *: "plain_name name" "path = dir @ ''/'' @ name @ slash" "slash = [] \<or> slash = ''/''" "fi_name st = base_name path"
  have name: "name \<noteq> []" "CHR ''/'' \<notin> set name" using plain_name_no_slash [OF *(1)] by blast+
  have "base_name path = name" using *(2,3) base_name_plain [OF name, of dir] by auto
  moreover have "link_target path (name @ ''/'' @ entry) = (if slash = [] then path @ ''/'' @ entry else path @ name @ ''/'' @ entry)"
    using *(2,3) drop_to_slash [OF name(2), of "rev dir"] by (auto simp: link_target_def)
  ultimately show "fi_name st = name \<and>
      link_target path (name @ ''/'' @ entry) = (if slash = [] then path @ ''/'' @ entry else path @ name @ ''/'' @ entry)"
    using *(4) by simp
qed

end
