(* ===== verification/Server_Mains.thy ===== *)
theory Server_Mains
  imports Go_Routes Go_Duration Online_Indicator Socket_Servers Event_Stream Static_Files Load_Balancer Slack_Routes
begin

text \<open>
  The \<open>main\<close> functions of the HTTP servers: the routes they register, the database handle they open, and how they end
  when they cannot listen. \<open>http.ListenAndServe\<close> serves until it returns an error. The file server of the standard library and the
  socket library are endpoints of their own.
\<close>

datatype listening = Serving | Refused string

datatype main_end = Running | Ended "unit go"

subsection \<open>Routes\<close>

datatype oi_endpoint = OiSocket | OiFiles | OiStatus

definition oi_mux :: "oi_endpoint mux" where
  "oi_mux = [(''/socket.io/'', OiSocket), (''/'', OiFiles), (''/status'', OiStatus)]"

datatype ws_endpoint = WsHandler | WsFiles

definition ws_mux :: "ws_endpoint mux" where
  "ws_mux = [(''/ws'', WsHandler), (''/'', WsFiles)]"

datatype sse_endpoint = SseHandler | SseFiles

definition sse_mux :: "sse_endpoint mux" where
  "sse_mux = [(''/sse'', SseHandler), (''/'', SseFiles)]"

datatype one_endpoint = OnlyHandler

definition static_mux :: "one_endpoint mux" where
  "static_mux = [(''/'', OnlyHandler)]"

definition backend_mux :: "one_endpoint mux" where
  "backend_mux = [(''/'', OnlyHandler)]"

text \<open>
  A request to the static server, the indicator and the first backend, from the path to the answer;
  \<open>None\<close> is a redirect or an endpoint that is not modelled. The static server opens the decoded path.
\<close>

definition static_serve :: "file_system \<Rightarrow> bool \<Rightarrow> string \<Rightarrow> response go option" where
  "static_serve fs taken p =
     (case mux_route static_mux p of Routed OnlyHandler vs \<Rightarrow> Some (FileHandler fs taken (unescaped p)) | _ \<Rightarrow> None)"

definition oi_serve :: "'db oi_run \<Rightarrow> bool \<Rightarrow> time \<Rightarrow> string \<Rightarrow> 'db \<Rightarrow> response option \<times> 'db" where
  "oi_serve run taken now p d =
     (case mux_route oi_mux p of
        Routed OiStatus vs \<Rightarrow> (case fetchOnlineOfflineStatus run taken now d of (w, d1) \<Rightarrow> (Some w, d1))
      | _ \<Rightarrow> (None, d))"

definition backend_serve :: "(bool \<Rightarrow> response) \<Rightarrow> bool \<Rightarrow> string \<Rightarrow> response option" where
  "backend_serve sayHello taken p = (case mux_route backend_mux p of Routed OnlyHandler vs \<Rightarrow> Some (sayHello taken) | _ \<Rightarrow> None)"

subsection \<open>Start and end\<close>

definition slack_connectToDb :: "string + 'db \<Rightarrow> 'db go" where
  "slack_connectToDb dbh =
     (case dbh of Inl err \<Rightarrow> Inl (FatalExit (''error while connecting to mysql DB | '' @ err)) | Inr db \<Rightarrow> Inr db)"

definition oi_connectToDb :: "string + 'db \<Rightarrow> 'db go" where
  "oi_connectToDb dbh = (case dbh of Inl err \<Rightarrow> Inl (PanicValue err) | Inr db \<Rightarrow> Inr db)"

text \<open>\<open>engine\<close> is the error with which the socket engine's \<open>Serve\<close> returned first, if it did.\<close>

definition slack_main :: "string + 'db \<Rightarrow> string option \<Rightarrow> listening \<Rightarrow> main_end" where
  "slack_main dbh engine l =
     (case slack_connectToDb dbh of
        Inl p \<Rightarrow> Ended (Inl p)
      | Inr db \<Rightarrow>
          (case engine of
             Some err \<Rightarrow> Ended (Inl (FatalExit (''socketio listen error: '' @ err @ [CHR 0x0A])))
           | None \<Rightarrow> (case l of Serving \<Rightarrow> Running | Refused err \<Rightarrow> Ended (Inl (FatalExit err)))))"

definition oi_main :: "string + 'db \<Rightarrow> string option \<Rightarrow> listening \<Rightarrow> main_end" where
  "oi_main dbh engine l =
     (case oi_connectToDb dbh of
        Inl p \<Rightarrow> Ended (Inl p)
      | Inr db \<Rightarrow>
          (case engine of
             Some err \<Rightarrow> Ended (Inl (FatalExit (''socketio listen error: '' @ err @ [CHR 0x0A])))
           | None \<Rightarrow> (case l of Serving \<Rightarrow> Running | Refused err \<Rightarrow> Ended (Inl (FatalExit err)))))"

definition sse_main :: "listening \<Rightarrow> main_end" where
  "sse_main l = (case l of Serving \<Rightarrow> Running | Refused err \<Rightarrow> Ended (Inl (PanicValue err)))"

definition backend_1_main :: "listening \<Rightarrow> main_end" where
  "backend_1_main l = (case l of Serving \<Rightarrow> Running | Refused err \<Rightarrow> Ended (Inl (PanicValue err)))"

definition backend_2_main :: "listening \<Rightarrow> main_end" where
  "backend_2_main l = (case l of Serving \<Rightarrow> Running | Refused err \<Rightarrow> Ended (Inl (PanicValue err)))"

definition ws_main :: "listening \<Rightarrow> main_end" where
  "ws_main l = (case l of Serving \<Rightarrow> Running | Refused err \<Rightarrow> Ended (Inr ()))"

definition static_main :: "listening \<Rightarrow> main_end" where
  "static_main l = (case l of Serving \<Rightarrow> Running | Refused err \<Rightarrow> Ended (Inr ()))"

lemmas main_defs = slack_main_def oi_main_def sse_main_def backend_1_main_def backend_2_main_def ws_main_def static_main_def
  slack_connectToDb_def oi_connectToDb_def

subsection \<open>Routing laws\<close>

lemma main_patterns:
  "parse_pattern ''/ws'' = [PLit ''ws'']" "parse_pattern ''/sse'' = [PLit ''sse'']"
  by code_simp+

lemma mains_flat: "flat_mux oi_mux" "flat_mux ws_mux" "flat_mux sse_mux" "flat_mux static_mux" "flat_mux backend_mux"
  by (simp_all add: flat_mux_def literal_heads_def oi_mux_def ws_mux_def sse_mux_def static_mux_def backend_mux_def slack_patterns main_patterns)

text \<open>Tables with the root alone, or with the root and one literal path.\<close>

lemma route_only_root:
  assumes "clean_path p = p"
  shows "mux_route [(''/'', h)] p = Routed h []"
proof -
  have flat: "flat_mux [(''/'', h)]" by (simp add: flat_mux_def literal_heads_def)
  show ?thesis by (rule mux_route_root [OF flat assms]) (auto simp: lacks_slash_def)
qed

lemma route_literal_root:
  assumes "flat_mux [(q, k), (''/'', h)]" and "parse_pattern q = [PLit a]" and "clean_path p = p"
  shows "mux_route [(q, k), (''/'', h)] p = (if path_segments p = [a] then Routed k [] else Routed h [])"
proof (cases "path_segments p = [a]")
  case True
  have "q \<noteq> ''/''" using assms(2) by auto
  with True mux_route_pattern [OF assms(1,3), of q k "[]"] assms(2) show ?thesis by (simp add: wild_names_def)
next
  case False
  have "mux_route [(q, k), (''/'', h)] p = Routed h []"
    by (rule mux_route_root [OF assms(1,3)]) (use False assms(2) in \<open>auto simp: lacks_slash_def seg_matches simp del: seg_match.simps\<close>)
  with False show ?thesis by simp
qed

lemma oi_route_clean:
  assumes "clean_path p = p"
  shows "mux_route oi_mux p =
    (if path_segments p = [''socket.io''] then MovedPermanently
     else if path_segments p = [''status''] then Routed OiStatus []
     else if hd (path_segments p) = ''socket.io'' then Routed OiSocket [] else Routed OiFiles [])"
proof -
  let ?ss = "path_segments p"
  have mem: "(''/socket.io/'', OiSocket) \<in> set oi_mux" "(''/'', OiFiles) \<in> set oi_mux" "(''/status'', OiStatus) \<in> set oi_mux"
    by (simp_all add: oi_mux_def)
  have ne: "?ss \<noteq> []" using clean_slash [OF assms] by blast
  consider "?ss = [''socket.io'']" | "?ss = [''status'']" | b r where "?ss = ''socket.io'' # b # r"
    | "hd ?ss \<noteq> ''socket.io''" "?ss \<noteq> [''status'']"
    using ne by (cases ?ss; cases "tl ?ss") auto
  then show ?thesis
  proof cases
    case 1
    then show ?thesis using mux_route_slash [OF mains_flat(1) assms mem(2,1) slack_patterns(4)] by simp
  next
    case 2
    then show ?thesis using mux_route_pattern [OF mains_flat(1) assms mem(3), of "[]"] by (simp add: slack_patterns wild_names_def)
  next
    case 3
    then show ?thesis using mux_route_pattern [OF mains_flat(1) assms mem(1), of "[]"] by (simp add: slack_patterns wild_names_def)
  next
    case 4
    have "mux_route oi_mux p = Routed OiFiles []"
      by (rule mux_route_root [OF mains_flat(1) assms mem(2)])
        (use 4 in \<open>auto simp: oi_mux_def lacks_slash_def slack_patterns seg_matches simp del: seg_match.simps\<close>)
    with 4 show ?thesis by auto
  qed
qed

lemma unescape_join: "path_unescape (join_path (map path_escape ss)) = Some (join_path ss)"
proof (induction ss)
  case (Cons s ss)
  have app: "path_unescape (path_escape s @ t) = map_option ((@) s) (path_unescape t)" for s t
  proof (induction s)
    case (Cons c s)
    then show ?case by (cases "path_unescape t") (simp_all add: path_escape_def unescape_char)
  qed (cases "path_unescape t"; simp add: path_escape_def)
  from Cons show ?case by (simp add: app)
qed simp

text \<open>A program that cannot open its database or its port: all end loudly but the websocket and the static server.\<close>

lemma mains_running:
  "slack_main dbh engine l = Running \<longleftrightarrow> (\<exists>db. dbh = Inr db) \<and> engine = None \<and> l = Serving"
  "oi_main dbh engine l = Running \<longleftrightarrow> (\<exists>db. dbh = Inr db) \<and> engine = None \<and> l = Serving"
  "Ended (Inr ()) \<notin> {slack_main dbh engine l, oi_main dbh engine l, sse_main l, backend_1_main l, backend_2_main l}"
  "l \<noteq> Serving \<Longrightarrow> ws_main l = Ended (Inr ()) \<and> static_main l = Ended (Inr ())"
  by (auto simp: main_defs split: sum.splits option.splits listening.splits)

subsection \<open>Properties\<close>

text \<open>
  C37. The routes of the other servers, for every path: one that is not clean is redirected; the websocket and the event
  stream are served at exactly their path and the file server at every other; the status page of the indicator
  is served at exactly \<open>/status\<close>, the subtree below \<open>/socket.io/\<close> by the socket library (its root is redirected without the slash) and the rest by
  the file server, so that no path reaches the HTTP heartbeat handler; the static server and the backends have one handler for
  all clean paths.
\<close>

theorem server_routes:
  "mux_route ws_mux p = (if clean_path p \<noteq> p then MovedPermanently else if path_segments p = [''ws''] then Routed WsHandler [] else Routed WsFiles []) \<and>
   mux_route sse_mux p = (if clean_path p \<noteq> p then MovedPermanently else if path_segments p = [''sse''] then Routed SseHandler [] else Routed SseFiles []) \<and>
   mux_route oi_mux p =
     (if clean_path p \<noteq> p then MovedPermanently else if path_segments p = [''socket.io''] then MovedPermanently
      else if path_segments p = [''status''] then Routed OiStatus []
      else if hd (path_segments p) = ''socket.io'' then Routed OiSocket [] else Routed OiFiles []) \<and>
   mux_route static_mux p = (if clean_path p \<noteq> p then MovedPermanently else Routed OnlyHandler []) \<and>
   mux_route backend_mux p = (if clean_path p \<noteq> p then MovedPermanently else Routed OnlyHandler [])"
proof (cases "clean_path p = p")
  case True
  have flat: "flat_mux [(''/ws'', WsHandler), (''/'', WsFiles)]" "flat_mux [(''/sse'', SseHandler), (''/'', SseFiles)]"
    using mains_flat(2,3) by (simp_all add: ws_mux_def sse_mux_def)
  show ?thesis
    using True route_literal_root [OF flat(1) main_patterns(1) True] route_literal_root [OF flat(2) main_patterns(2) True]
      oi_route_clean [OF True] route_only_root [OF True, of OnlyHandler]
    by (simp add: ws_mux_def sse_mux_def static_mux_def backend_mux_def)
qed (simp add: mux_route_unclean)

text \<open>
  Every file can be asked for. A client that percent-encodes the names along a path gets what \<open>FileHandler\<close> makes of
  exactly that path, whatever bytes the names are made of; the exceptions are dot names and empty names
  (but for a last one, which is a trailing slash), with which no handler is reached.
\<close>

theorem static_url_roundtrip:
  "static_serve fs taken (join_path (map path_escape names)) =
    (if names \<noteq> [] \<and> set (butlast names) \<inter> {[], ''.'', ''..''} = {} \<and> last names \<notin> {''.'', ''..''}
     then Some (FileHandler fs taken (join_path names)) else None)"
proof (cases "names = []")
  case True
  have "mux_route static_mux [] = MovedPermanently" by (rule mux_route_unclean) (simp add: clean_path_def)
  with True show ?thesis by (simp add: static_serve_def)
next
  case False
  let ?p = "join_path (map path_escape names)"
  have "clean_path ?p = ?p \<longleftrightarrow> set (butlast names) \<inter> {[], ''.'', ''..''} = {} \<and> last names \<notin> {''.'', ''..''}"
  proof -
    have "list_all plain_seg (butlast (map path_escape names)) \<longleftrightarrow> set (butlast names) \<inter> {[], ''.'', ''..''} = {}"
      unfolding map_butlast [symmetric] by (auto simp: list_all_iff)
    moreover have "last (map path_escape names) = [] \<or> plain_seg (last (map path_escape names)) \<longleftrightarrow> last names \<notin> {''.'', ''..''}"
      using False by (auto simp: last_map)
    moreover have "list_all (\<lambda>s. CHR ''/'' \<notin> set s) (map path_escape names)" by (simp add: list_all_iff)
    ultimately show ?thesis using clean_join_iff [of "map path_escape names"] False by blast
  qed
  moreover have "mux_route static_mux ?p = Routed OnlyHandler []" if "clean_path ?p = ?p"
    using route_only_root [OF that] by (simp add: static_mux_def)
  moreover have "unescaped ?p = join_path names" by (simp add: unescaped_def unescape_join)
  moreover have "mux_route static_mux ?p = MovedPermanently" if "clean_path ?p \<noteq> ?p" using mux_route_unclean that by blast
  ultimately show ?thesis using False unfolding static_serve_def by (cases "clean_path ?p = ?p") simp_all
qed

text \<open>
  What the disconnect handlers print. For a connection that was announced they print the time since then,
  whichever other connections came up meanwhile; for one that was never announced (and any clock after
  1970) they print the longest duration there is, because the difference to the year 1 saturates.
\<close>

theorem disconnect_duration:
  assumes "in_int64 (now - t)" and "c' \<noteq> c" and "tt c'' = None" and "0 \<le> now"
  shows "on_disconnect now c (on_connect t' c' (on_connect t c tt)) = duration_string (now - t) \<and>
    ws_on_disconnect now c (ws_on_connect t' c' (ws_on_connect t c tt)) = duration_string (now - t) \<and>
    on_disconnect now c'' tt = ''2562047h47m16.854775807s'' \<and> ws_on_disconnect now c'' tt = ''2562047h47m16.854775807s''"
  using assms since_connected [OF assms(1)] since_missing [OF assms(4)] longest_duration
  by (simp add: on_disconnect_def on_connect_def ws_on_disconnect_def ws_on_connect_def)

theorem disconnect_duration_witness:
  "on_disconnect (90 * second) ''a'' (on_connect 0 ''b'' (on_connect 0 ''a'' Map.empty)) = duration_string (90 * second) \<and>
    duration_string (90 * second) = ''1m30s''"
proof -
  have "duration_string (90 * second) = ''1m30s''" by (simp add: duration_eval second_def)
  then show ?thesis
    using disconnect_duration [of "90 * second" 0 "''b''" "''a''" Map.empty "''c''" 0] by (simp add: in_int64_def second_def)
qed

end
