(* ===== verification/Kqueue_Echo.thy ===== *)
theory Kqueue_Echo
  imports Go_Prelude "HOL-Library.Word"
begin

unbundle bit_operations_syntax

text \<open>
  \<open>redis/main.go\<close>: an event loop that accepts connections and echoes what it reads. The kernel is a
  parameter: \<open>kern_ops\<close> are the system calls the program makes, as functions of the kernel's state.
  \<open>handle_event\<close> is the body of the inner loop, \<open>event_loop\<close> the outer one, with fuel for the number
  of waits since it runs until waiting fails. The locale \<open>sockets\<close> is what the calls do to the bytes
  of a connection.
\<close>

datatype wait_error = EINTR | OtherError string

record kevent =
  Ident :: "64 word"
  Flags :: "16 word"

definition EV_ADD :: "16 word" where "EV_ADD = 0x0001"

definition EV_ENABLE :: "16 word" where "EV_ENABLE = 0x0004"

definition EV_CLEAR :: "16 word" where "EV_CLEAR = 0x0020"

definition EV_EOF :: "16 word" where "EV_EOF = 0x8000"

record 'k kern_ops =
  k_kqueue :: "'k \<Rightarrow> (string + int) \<times> 'k"
  k_change :: "int \<Rightarrow> kevent \<Rightarrow> 'k \<Rightarrow> string option \<times> 'k"
  k_wait :: "int \<Rightarrow> nat \<Rightarrow> 'k \<Rightarrow> (wait_error + kevent list) \<times> 'k"
  k_accept :: "int \<Rightarrow> 'k \<Rightarrow> (string + int) \<times> 'k"
  k_set_nonblock :: "int \<Rightarrow> 'k \<Rightarrow> 'k"
  k_read :: "int \<Rightarrow> nat \<Rightarrow> 'k \<Rightarrow> (string + string) \<times> 'k"
  k_write :: "int \<Rightarrow> string \<Rightarrow> 'k \<Rightarrow> string option \<times> 'k"
  k_close :: "int \<Rightarrow> 'k \<Rightarrow> 'k"

definition accept_connection :: "'k kern_ops \<Rightarrow> int \<Rightarrow> int \<Rightarrow> 'k \<Rightarrow> 'k" where
  "accept_connection K kq listenerFd k =
     (case k_accept K listenerFd k of
        (Inl err, k1) \<Rightarrow> k1
      | (Inr conn, k1) \<Rightarrow>
          (let k2 = k_set_nonblock K conn k1;
               connChange = \<lparr>Ident = word_of_int conn, Flags = EV_ADD OR EV_ENABLE OR EV_CLEAR\<rparr> in
           case k_change K kq connChange k2 of
             (Some err, k3) \<Rightarrow> k_close K conn k3
           | (None, k3) \<Rightarrow> k3))"

definition echo_connection :: "'k kern_ops \<Rightarrow> int \<Rightarrow> 'k \<Rightarrow> 'k" where
  "echo_connection K fd k =
     (case k_read K fd 1024 k of
        (Inl err, k1) \<Rightarrow> k_close K fd k1
      | (Inr buf, k1) \<Rightarrow> if buf = [] then k_close K fd k1 else snd (k_write K fd buf k1))"

definition handle_event :: "'k kern_ops \<Rightarrow> int \<Rightarrow> int \<Rightarrow> kevent \<Rightarrow> 'k \<Rightarrow> 'k" where
  "handle_event K kq listenerFd ev k =
     (let fd = sint (Ident ev) in
      if Flags ev AND EV_EOF \<noteq> 0 then k_close K fd k
      else if fd = listenerFd then accept_connection K kq listenerFd k
      else echo_connection K fd k)"

datatype 'k loop_state = Polling 'k | Stopped 'k

fun event_loop :: "nat \<Rightarrow> 'k kern_ops \<Rightarrow> int \<Rightarrow> int \<Rightarrow> 'k \<Rightarrow> 'k loop_state" where
  "event_loop 0 K kq listenerFd k = Polling k"
| "event_loop (Suc n) K kq listenerFd k =
     (case k_wait K kq 128 k of
        (Inl EINTR, k1) \<Rightarrow> event_loop n K kq listenerFd k1
      | (Inl (OtherError err), k1) \<Rightarrow> Stopped k1
      | (Inr events, k1) \<Rightarrow>
          event_loop n K kq listenerFd (fold (handle_event K kq listenerFd) events k1))"

text \<open>
  \<open>main\<close>: \<open>listener\<close> is what \<open>net.Listen\<close> returned, \<open>None\<close> when it failed: the error is not looked
  at, and deferring \<open>Close\<close> on the nil listener panics; otherwise whether it is a \<open>TCPListener\<close> and what
  its \<open>File\<close> returns. The exits with status 1 are fatal exits; at the normal end the kqueue and the
  listener's file are closed (\<open>File\<close> duplicates the descriptor; the listener's own one is not used for anything else here).
\<close>

definition getSocketFile :: "bool \<Rightarrow> string + int \<Rightarrow> string + int" where
  "getSocketFile isTCP file = (if isTCP then file else Inl ''listener was not a *net.TCPListener'')"

definition kqueue_main :: "nat \<Rightarrow> 'k kern_ops \<Rightarrow> (bool \<times> (string + int)) option \<Rightarrow> 'k \<Rightarrow> 'k loop_state go" where
  "kqueue_main n K listener k =
     (case listener of None \<Rightarrow> Inl NilDereference | Some (isTCP, file) \<Rightarrow>
      case getSocketFile isTCP file of
        Inl err \<Rightarrow> Inl (FatalExit (''Error getting socket file: '' @ err))
      | Inr listenerFd \<Rightarrow>
          (case k_kqueue K k of
             (Inl err, k1) \<Rightarrow> Inl (FatalExit (''Error creating kqueue: '' @ err))
           | (Inr kq, k1) \<Rightarrow>
               (case k_change K kq \<lparr>Ident = word_of_int listenerFd, Flags = EV_ADD OR EV_ENABLE\<rparr> k1 of
                  (Some err, k2) \<Rightarrow> Inl (FatalExit (''Error registering listener with kqueue: '' @ err))
                | (None, k2) \<Rightarrow>
                    Inr (case event_loop n K kq listenerFd k2 of
                           Polling k3 \<Rightarrow> Polling k3
                         | Stopped k3 \<Rightarrow> Stopped (k_close K listenerFd (k_close K kq k3))))))"

subsection \<open>What the calls do to connections\<close>

text \<open>
  \<open>consumed\<close> is what the program has read from a descriptor since it was opened and \<open>sent\<close> what the
  kernel has taken for it. A write may take a part only; the program does not look.
\<close>

locale sockets =
  fixes K :: "'k kern_ops" and consumed sent :: "'k \<Rightarrow> int \<Rightarrow> string"
  assumes read_ok: "k_read K fd n k = (Inr buf, k') \<Longrightarrow>
      length buf \<le> n \<and> consumed k' = (consumed k)(fd := consumed k fd @ buf) \<and> sent k' = sent k"
    and read_err: "k_read K fd n k = (Inl e, k') \<Longrightarrow> consumed k' = consumed k \<and> sent k' = sent k"
    and write_some: "k_write K fd buf k = (r, k') \<Longrightarrow>
      consumed k' = consumed k \<and> (\<exists>m. sent k' = (sent k)(fd := sent k fd @ take m buf))"
    and accept_ok: "k_accept K l k = (Inr conn, k') \<Longrightarrow>
      consumed k' = (consumed k)(conn := []) \<and> sent k' = (sent k)(conn := [])"
    and accept_err: "k_accept K l k = (Inl e, k') \<Longrightarrow> consumed k' = consumed k \<and> sent k' = sent k"
    and others: "consumed (snd (k_change K kq c k)) = consumed k" "sent (snd (k_change K kq c k)) = sent k"
      "consumed (snd (k_wait K kq n k)) = consumed k" "sent (snd (k_wait K kq n k)) = sent k"
      "consumed (snd (k_kqueue K k)) = consumed k" "sent (snd (k_kqueue K k)) = sent k"
      "consumed (k_set_nonblock K fd k) = consumed k" "sent (k_set_nonblock K fd k) = sent k"
      "consumed (k_close K fd k) = consumed k" "sent (k_close K fd k) = sent k"
begin

lemma accept_connection_bytes:
  "sent k = consumed k \<Longrightarrow> sent (accept_connection K kq l k) = consumed (accept_connection K kq l k)"
  using accept_ok [of l k] accept_err [of l k] others
  by (simp add: accept_connection_def Let_def split: prod.splits sum.splits option.splits) (metis snd_conv)

end

locale reliable_sockets = sockets K consumed sent
  for K :: "'k kern_ops" and consumed sent +
  assumes write_full: "k_write K fd buf k = (r, k') \<Longrightarrow> sent k' = (sent k)(fd := sent k fd @ buf)"
begin

lemma echo_connection_bytes:
  assumes "sent k = consumed k"
  shows "sent (echo_connection K fd k) = consumed (echo_connection K fd k)"
proof (cases "k_read K fd 1024 k")
  case (Pair r k1)
  show ?thesis
  proof (cases r)
    case (Inl e)
    with Pair assms read_err [of fd 1024 k e k1] others show ?thesis by (simp add: echo_connection_def)
  next
    case (Inr buf)
    have "consumed (snd (k_write K fd buf k1)) = consumed k1" "sent (snd (k_write K fd buf k1)) = (sent k1)(fd := sent k1 fd @ buf)"
      using write_some [of fd buf k1] write_full [of fd buf k1] by (metis prod.collapse)+
    with Pair Inr assms read_ok [of fd 1024 k buf k1] others show ?thesis by (auto simp: echo_connection_def)
  qed
qed

lemma handle_event_bytes: "sent k = consumed k \<Longrightarrow> sent (handle_event K kq l ev k) = consumed (handle_event K kq l ev k)"
  using echo_connection_bytes accept_connection_bytes others by (simp add: handle_event_def Let_def)

lemma handle_events_bytes:
  "sent k = consumed k \<Longrightarrow> sent (fold (handle_event K kq l) evs k) = consumed (fold (handle_event K kq l) evs k)"
  by (induction evs arbitrary: k) (simp_all add: handle_event_bytes)

end

fun loop_kernel :: "'k loop_state \<Rightarrow> 'k" where
  "loop_kernel (Polling k) = k"
| "loop_kernel (Stopped k) = k"

context reliable_sockets
begin

lemma event_loop_bytes:
  "sent k = consumed k \<Longrightarrow> sent (loop_kernel (event_loop n K kq l k)) = consumed (loop_kernel (event_loop n K kq l k))"
proof (induction n arbitrary: k)
  case (Suc n)
  obtain r k1 where w: "k_wait K kq 128 k = (r, k1)" by (cases "k_wait K kq 128 k")
  then have "sent k1 = consumed k1" using Suc.prems others(3,4) [of kq 128 k] by simp
  with Suc.IH handle_events_bytes w show ?case by (auto split: sum.splits wait_error.splits)
qed simp

end

subsection \<open>A kernel that meets the contract\<close>

text \<open>
  Bytes waiting per descriptor, the answers of the coming waits, and the next descriptor; reads take
  what waits, up to the size of the buffer.
\<close>

record sim_kernel =
  sim_waiting :: "int \<Rightarrow> string"
  sim_consumed :: "int \<Rightarrow> string"
  sim_sent :: "int \<Rightarrow> string"
  sim_waits :: "(wait_error + kevent list) list"
  sim_next :: int
  sim_closed :: "int list"

definition sim_ops :: "sim_kernel kern_ops" where
  "sim_ops =
     \<lparr>k_kqueue = (\<lambda>k. (Inr 3, k)),
      k_change = (\<lambda>kq c k. (None, k)),
      k_wait = (\<lambda>kq n k. case sim_waits k of
          [] \<Rightarrow> (Inl (OtherError ''no more''), k)
        | w # ws \<Rightarrow> (w, k\<lparr>sim_waits := ws\<rparr>)),
      k_accept = (\<lambda>l k. (Inr (sim_next k), k\<lparr>sim_next := sim_next k + 1,
          sim_consumed := (sim_consumed k)(sim_next k := []), sim_sent := (sim_sent k)(sim_next k := [])\<rparr>)),
      k_set_nonblock = (\<lambda>fd k. k),
      k_read = (\<lambda>fd n k. (Inr (take n (sim_waiting k fd)),
          k\<lparr>sim_waiting := (sim_waiting k)(fd := drop n (sim_waiting k fd)),
            sim_consumed := (sim_consumed k)(fd := sim_consumed k fd @ take n (sim_waiting k fd))\<rparr>)),
      k_write = (\<lambda>fd buf k. (None, k\<lparr>sim_sent := (sim_sent k)(fd := sim_sent k fd @ buf)\<rparr>)),
      k_close = (\<lambda>fd k. k\<lparr>sim_closed := sim_closed k @ [fd]\<rparr>)\<rparr>"

interpretation sim: reliable_sockets sim_ops sim_consumed sim_sent
proof
  show "k_write sim_ops fd buf k = (r, k') \<Longrightarrow>
      sim_consumed k' = sim_consumed k \<and> (\<exists>m. sim_sent k' = (sim_sent k)(fd := sim_sent k fd @ take m buf))"
    for fd buf k r k' by (auto simp: sim_ops_def intro!: exI [of _ "length buf"])
qed (auto simp: sim_ops_def split: list.splits)

definition hello_kernel :: sim_kernel where
  "hello_kernel =
     \<lparr>sim_waiting = (\<lambda>fd. if fd = 9 then ''hello'' else []), sim_consumed = (\<lambda>_. []), sim_sent = (\<lambda>_. []),
      sim_waits = [Inr [\<lparr>Ident = 5, Flags = 0\<rparr>], Inl EINTR, Inr [\<lparr>Ident = 9, Flags = 0\<rparr>]],
      sim_next = 9, sim_closed = []\<rparr>"

subsection \<open>Properties\<close>

text \<open>
  C25. The loop is an echo: as long as the kernel takes each write in full, after any number of waits
  (interrupted ones included) and whatever was accepted or closed, the bytes sent on every
  descriptor are exactly the bytes read from it, in order.
\<close>

theorem kqueue_echo:
  assumes "reliable_sockets K consumed sent" and "sent k = consumed k"
  shows "sent (loop_kernel (event_loop n K kq l k)) = consumed (loop_kernel (event_loop n K kq l k))"
  using reliable_sockets.event_loop_bytes [OF assms] .

theorem kqueue_echo_witness:
  "sim_consumed (loop_kernel (event_loop 3 sim_ops 3 5 hello_kernel)) 9 = ''hello'' \<and>
   sim_sent (loop_kernel (event_loop 3 sim_ops 3 5 hello_kernel)) 9 = ''hello''"
proof -
  have "sim_consumed (loop_kernel (event_loop 3 sim_ops 3 5 hello_kernel)) 9 = ''hello''"
    by (simp add: numeral_3_eq_3 hello_kernel_def sim_ops_def handle_event_def accept_connection_def echo_connection_def
        EV_EOF_def Let_def)
  moreover have "sim_sent (loop_kernel (event_loop 3 sim_ops 3 5 hello_kernel)) =
      sim_consumed (loop_kernel (event_loop 3 sim_ops 3 5 hello_kernel))"
    by (rule kqueue_echo [OF sim.reliable_sockets_axioms]) (simp add: hello_kernel_def)
  ultimately show ?thesis by simp
qed

text \<open>
  One event, one action: an event with the end-of-file flag closes its descriptor and reads
  nothing (bytes that came with the end are dropped), an event of the listener accepts, any other
  reads at most 1024 bytes once, and closes on an error or the end of the stream. The loop stops
  only when a wait fails for another reason than an interrupt.
\<close>

theorem kqueue_events:
  assumes "sockets K consumed sent"
  shows "(Flags ev AND EV_EOF \<noteq> 0 \<longrightarrow> handle_event K kq l ev k = k_close K (sint (Ident ev)) k \<and>
      consumed (handle_event K kq l ev k) = consumed k \<and> sent (handle_event K kq l ev k) = sent k) \<and>
    (Flags ev AND EV_EOF = 0 \<and> sint (Ident ev) \<noteq> l \<longrightarrow>
      (\<exists>buf. length buf \<le> 1024 \<and>
        consumed (handle_event K kq l ev k) = (consumed k)(sint (Ident ev) := consumed k (sint (Ident ev)) @ buf))) \<and>
    (k_wait K kq 128 k = (Inl EINTR, k1) \<longrightarrow> event_loop (Suc n) K kq l k = event_loop n K kq l k1) \<and>
    (k_wait K kq 128 k = (Inl (OtherError e), k1) \<longrightarrow> event_loop (Suc n) K kq l k = Stopped k1)"
proof -
  note s = sockets.others [OF assms]
  let ?fd = "sint (Ident ev)"
  have "\<exists>buf. length buf \<le> 1024 \<and> consumed (echo_connection K ?fd k) = (consumed k)(?fd := consumed k ?fd @ buf)"
  proof (cases "k_read K ?fd 1024 k")
    case (Pair r k1)
    show ?thesis
    proof (cases r)
      case (Inl e)
      with Pair sockets.read_err [OF assms, of ?fd 1024 k e k1] s show ?thesis
        by (intro exI [of _ "[]"]) (simp add: echo_connection_def)
    next
      case (Inr buf)
      have "consumed (snd (k_write K ?fd buf k1)) = consumed k1"
        using sockets.write_some [OF assms, of ?fd buf k1] by (metis prod.collapse)
      with Pair Inr sockets.read_ok [OF assms, of ?fd 1024 k buf k1] s show ?thesis
        by (intro exI [of _ buf]) (simp add: echo_connection_def)
    qed
  qed
  with s show ?thesis by (simp add: handle_event_def Let_def)
qed

theorem kqueue_events_witness:
  "sim_consumed (handle_event sim_ops 3 5 \<lparr>Ident = 9, Flags = 0x8001\<rparr> hello_kernel) 9 = [] \<and>
   sim_closed (handle_event sim_ops 3 5 \<lparr>Ident = 9, Flags = 0x8001\<rparr> hello_kernel) = [9]"
proof -
  let ?ev = "\<lparr>Ident = 9, Flags = 0x8001\<rparr>"
  have "Flags ?ev AND EV_EOF \<noteq> 0" by (simp add: EV_EOF_def)
  with kqueue_events [OF sim.sockets_axioms, of ?ev 3 5 hello_kernel]
  have "handle_event sim_ops 3 5 ?ev hello_kernel = k_close sim_ops (sint (Ident ?ev)) hello_kernel" by blast
  then show ?thesis by (simp add: sim_ops_def hello_kernel_def)
qed

end
