(* ===== verification/Spec2Isabelle.thy ===== *)
theory Spec2Isabelle
  imports Bloom_Filter Pool_Refinement Plain_Benchmark Ticket_Booking Enrichment_Main Online_Indicator Load_Balancer
    Slack_Races Slack_Openings Slack_Channels Connection_Times Slack_Session Airline_Main Balancer_System Indicator_System Server_Mains Kqueue_Echo Socket_Servers Event_Stream Static_Files
begin

text \<open>
  A verification of the Go programs of this repository, a collection of prototypes of server
  components. Each program is its own main package and shares no code with the others; what they
  have in common is Go itself, its channels and goroutines, its HTTP library and its database
  interface. The development has the same shape: four theories for what is shared, one or more per
  program, and this root.

  Shared theories.
  \<^item> \<open>Go_Prelude\<close>: panics and fatal exits as a sum type, the 64-bit \<open>int\<close> written out over integers,
    slices with their range checks, truncated remainder, \<open>strconv.Atoi\<close> and decimal printing (with
    their round trip), \<open>strings.Split\<close>, times and saturating time differences.
  \<^item> \<open>Go_Runs\<close>: goroutines that interleave. The locale \<open>invariant_system\<close> lifts one-step invariants to
    reachable states; \<open>live_system\<close> adds a variant and absence of deadlock and gives that runs are
    bounded and reach an end; \<open>refinement\<close> maps every step of a system to a step of an abstract one, or none,
    and carries invariants of the abstract system over. Every concurrent program interprets one of them.
  \<^item> \<open>Go_Map\<close>: a map that goroutines share without a lock, with the intervals of its assignments: exactly when the
    runtime can end the process, what lookups find, and that a key of one goroutine is read as if it ran alone.
  \<^item> \<open>Go_Duration\<close>: \<open>Duration.String\<close> and \<open>time.Since\<close> of a map entry. \<open>Go_Mux\<close>, \<open>Go_Routes\<close>: percent encoding,
    clean paths and the pattern search of \<open>http.ServeMux\<close>, and what it finds in tables like those of the programs.
  \<^item> \<open>Go_Channel\<close>: buffered channels and the locale \<open>token_pool\<close> for channels used as a semaphore.
  \<^item> \<open>Go_Http\<close>, \<open>Go_Sql\<close>: a response writer and JSON values; the database as a parameter with the
    contract \<open>sql_service\<close> (a statement fails and changes nothing, or has exactly its meaning). Rows of
    a query without an order come in an order the server chooses for each execution. The stream of
    rows of a query that succeeded is taken to be complete (the programs do not check \<open>rows.Err\<close>).

  Programs.
  \<^item> \<open>slack/main.go\<close>, a chat server. \<open>Slack_Tables\<close>: its structs, its statements and their meaning on
    the four tables, with the keys and widths of the \<open>create table\<close> statements in
    \<open>slack/brainstroming.md\<close> (the user table is not written down there: an automatic primary key is
    assumed, no unique name), integrity and that every statement keeps it. \<open>Slack_Server\<close>: the
    handlers \<open>createUser\<close>, \<open>createChannel\<close>, \<open>sendMessage\<close>, \<open>sendMessageOverWebSocket\<close>, the heartbeat event
    and \<open>fetchOnlineOfflineStatus\<close> (as \<open>slack_status\<close>). \<open>Slack_Laws\<close>: their outcomes over any database that
    obeys the contract, as case rules in the locale \<open>slack_server\<close>. \<open>Slack_Properties\<close>: delivery of
    messages, opening and finding channels, users, heartbeats, status page, and the error cases. \<open>Slack_Concurrent\<close>: the
    routes of \<open>main\<close> and any number of requests at once, interleaved at their statements; as lemmas, that a request
    alone does what its handler does and that the tables stay sound; and the race of \<open>createUser\<close>. \<open>Slack_Log\<close>: no
    message is lost or invented by any interleaving. \<open>Slack_Channels\<close>: what an answered \<open>createChannel\<close> has stored or shown
    among other requests, and that nothing else adds memberships. \<open>Slack_Races\<close>: two users who open a channel with each other at once.
    \<open>Slack_Sockets\<close>: the connection map as heartbeats and deliveries share it; what reaches whom, and when the runtime ends
    the process. \<open>Slack_System\<close>: requests, heartbeats and deliveries as one system, interleaved at their statements and at
    their accesses of the map; who gets a message (and, as a lemma, that every run ends). \<open>Slack_Openings\<close>: who hears of a new channel. \<open>Connection_Times\<close>: the map \<open>timeTaken\<close> of
    this program and of the indicator. \<open>Slack_Routes\<close>: which path reaches which handler, with which
    values, and the type of every answer; the heartbeats that a request to the socket library delivers are a parameter and
    run the program's own handler. \<open>Slack_Session\<close>: a conversation of two users over these paths.
  \<^item> \<open>airlineCheckin/main.go\<close> (\<open>Airline_Checkin\<close>): \<open>reserveEmptyForUser\<close> cut at its calls of the
    transaction server, a parameter with the contract \<open>tx_server\<close> (row locks, pending updates, commits
    that may fail with or without effect). No double booking, all seats used, termination. \<open>Airline_Serial\<close>: the
    concurrent bookings do what one user after the other would do. \<open>Airline_Main\<close>: what \<open>main\<close> prints.
  \<^item> \<open>LoadBalancer/main.go\<close> (\<open>Load_Balancer\<close>): the choice of a backend by one request and by many
    that interleave at \<open>LastUsed\<close>, which the mutex does not cover; the two copying goroutines of a
    connection. Round robin, no lost counts, the miscount; the relay, transparent until a copy fails and its error page goes into the
    client's stream; the two backends. \<open>Balancer_System\<close>:
    the whole process with any number of clients, whose connections end together when one of them fails.
  \<^item> \<open>connectionPool\<close> (\<open>Connection_Pool\<close>, \<open>Production_Pool\<close>), \<open>blockingQ\<close> (\<open>Blocking_Queue\<close>), \<open>pessimistic_locking\<close>
    (\<open>Ticket_Booking\<close>, \<open>Enrichment_Race\<close>, \<open>Enrichment_Main\<close>): systems of goroutines over channels and mutexes, with their
    exclusion, counting and termination properties and the races that the code has. \<open>Pool_Refinement\<close>: the channel pool, the
    built-in pool and the tokens of the queue implement one specification of a pool. \<open>Plain_Benchmark\<close>: the unpooled
    benchmarks over a server that grants a limited number of connections (the limit is a parameter): when they can die, when they
    can finish, and that nothing stays open.
  \<^item> \<open>bloomFilter/main.go\<close> (\<open>Bloom_Filter\<close>): the filter and exactly what \<open>contains\<close> answers.
  \<^item> \<open>online_offline_indicator/main.go\<close> (\<open>Online_Indicator\<close>): heartbeats and the status page, with
    \<open>Duration.String\<close>. \<open>Indicator_System\<close>: any number of them at once; the table is a map of last heartbeats, and every
    page shows one moment of its history.
  \<^item> \<open>redis/main.go\<close> (\<open>Kqueue_Echo\<close>): the event loop over a kernel parameter with the contract
    \<open>sockets\<close>. The loop has fuel, the number of waits, since it runs until waiting fails; the
    properties hold for every fuel.
  \<^item> \<open>tcp/main.go\<close>, whose connections are goroutines, and \<open>websockets/main.go\<close> (\<open>Socket_Servers\<close>), \<open>server_sent_events/main.go\<close>
    (\<open>Event_Stream\<close>, with a parser of the event-stream format as the specification of what a client
    sees, whose lines end at a line feed, as all lines of this server do), \<open>staticFileServer/main.go\<close> (\<open>Static_Files\<close>, over a file
    system parameter; where links of a listing lead is a lemma, for names that need no quoting only, since the code writes names unescaped).
  \<^item> \<open>Server_Mains\<close>: the routes of the other HTTP servers, the static server from path to answer, and how each \<open>main\<close> ends.

  Conventions. Code outside the repository's own sources (database server, kernel, file system,
  network peers, the socket library) is an argument of the definitions; what is relied on is the
  assumption of a locale, each interpreted on a concrete instance that may fail at will. Loops are
  recursions over the data they range over; concurrent code is an inductive step relation whose
  steps are the accesses to shared state. Strings are byte lists. Log output is modelled only where
  a property speaks of it. Memory is unbounded: \<open>make\<close> fails for negative sizes only. A write to a socket that fails is taken to have
  sent nothing in \<open>Socket_Servers\<close>; in \<open>Load_Balancer\<close> it may have sent any part of the error page. A remainder or an index that could
  panic is a branch of the sequential definitions; the steps of \<open>lb_step\<close> have no such branch, and \<open>lb_never_panics\<close> shows
  that it is never reached. Accesses of the unlocked maps \<open>wsMap\<close> and \<open>timeTaken\<close> are interleaved in \<open>Slack_System\<close> and
  \<open>Connection_Times\<close>; the sequential handlers take them to be atomic.

  Not modelled: where a redirect leads, the file server of the standard library and the socket library behind their routes,
  the C, C++ and Python files, HTML assets, and the vendored packages.

  This theory holds the property that spans the choice of a backend, the dial and the relay.
\<close>

text \<open>
  C24. The balancer end to end: after any number \<open>m\<close> of requests, one after the other, the next one
  (whose dial succeeds) is relayed to the first backend if \<open>m\<close> is even and to the second otherwise: a
  run of its connection that ends without ending the process has given that backend exactly the
  client's bytes, and the client exactly the bytes that backend answered.
\<close>

theorem lb_end_to_end:
  assumes "int m < 2 ^ 63 - 1" and "lb_serve m NewLB = Inr (ks, lb)" and "lb_Proxy (\<lambda>_. None) k client answer lb = Inr (s, lb')"
    and "relay_step\<^sup>*\<^sup>* s t" and "\<nexists>u. relay_step t u" and "dead t = None"
  shows "to_backend t = concat (fst client) \<and>
    to_client t = concat (fst (answer (if even m then ''localhost:8000'' else ''localhost:9000'')))"
proof -
  have lb: "lb = lb_after NewLB m" using lb_serve_after [OF NewLB_fresh, of m] assms(1,2) by simp
  have two: "length (Servers NewLB) = 2" by (simp add: NewLB_def)
  obtain b where b: "lb_choose lb = Inr (b, lb_after NewLB (Suc m))"
    "Host b = Host (Servers NewLB ! (m mod 2))" "Port b = Port (Servers NewLB ! (m mod 2))"
    using lb_choose_after [OF NewLB_fresh assms(1)] unfolding lb two by blast
  have "Host b @ '':'' @ Port b = (if even m then ''localhost:8000'' else ''localhost:9000'')"
    unfolding b(2,3) by (cases "even m") (auto simp: NewLB_def mod2_eq_if)
  with b(1) assms(3) have "s = relay_init client (answer (if even m then ''localhost:8000'' else ''localhost:9000''))"
    by (simp add: lb_Proxy_def Let_def)
  with relay_run_end assms(4-6) show ?thesis by metis
qed

text \<open>The second request: its client is relayed to the second backend, which answers with its own address.\<close>

theorem lb_end_to_end_witness:
  "\<exists>ks lb s lb' t. lb_serve 1 NewLB = Inr (ks, lb) \<and>
    lb_Proxy (\<lambda>_. None) 0 ([''GET /''], EndOfStream) (\<lambda>a. ([a], EndOfStream)) lb = Inr (s, lb') \<and>
    relay_step\<^sup>*\<^sup>* s t \<and> (\<nexists>u. relay_step t u) \<and> dead t = None \<and> to_backend t = ''GET /'' \<and> to_client t = ''localhost:9000''"
proof -
  let ?client = "([''GET /''], EndOfStream)" and ?answer = "\<lambda>a :: string. ([a], EndOfStream)"
  let ?s = "relay_init ?client ([''localhost:9000''], EndOfStream)" and ?t = "relay_served ''GET /'' ''localhost:9000''"
  obtain ks where serve: "lb_serve 1 NewLB = Inr (ks, lb_after NewLB 1)"
    using lb_serve_after [OF NewLB_fresh, of 1] by auto
  obtain b where b: "lb_choose (lb_after NewLB 1) = Inr (b, lb_after NewLB 2)" "Host b = ''localhost''" "Port b = ''9000''"
    using lb_choose_after [OF NewLB_fresh, of 1] by (auto simp: NewLB_def numeral_2_eq_2 simp del: One_nat_def)
  then have p: "lb_Proxy (\<lambda>_. None) 0 ?client ?answer (lb_after NewLB 1) = Inr (?s, lb_after NewLB 2)"
    by (simp add: lb_Proxy_def Let_def)
  have "to_backend ?t = concat (fst ?client) \<and>
      to_client ?t = concat (fst (?answer (if even (1 :: nat) then ''localhost:8000'' else ''localhost:9000'')))"
    by (rule lb_end_to_end [OF _ serve p relay_served_run relay_served_over]) simp
  then have "to_backend ?t = ''GET /''" "to_client ?t = ''localhost:9000''" by simp_all
  with serve p relay_served_run relay_served_over show ?thesis by metis
qed

end
